(* ===== verification/Prelude.thy ===== *)
theory Prelude
  imports Main "HOL-Library.Word"
begin

unbundle bit_operations_syntax

text \<open>
  Shared material of the kernel model: the machine integer types, the outcome type of kernel
  code together with its sequencing combinators, a weakest-precondition reading of an outcome
  (\<open>runs\<close>), little-endian word access to byte memories and byte lists, and the list lemmas used
  by every table scan of the kernel.
\<close>

section \<open>Machine integers\<close>

type_synonym u8 = "8 word"
type_synonym u16 = "16 word"
type_synonym u32 = "32 word"

named_theorems word_layout \<open>little-endian layout of 16 and 32 bit values\<close>
named_theorems keval \<open>evaluation of sequenced kernel code\<close>
named_theorems runs_intro \<open>total-correctness rules for kernel operations\<close>
named_theorems keeps_intro \<open>code that does not change a part of the state\<close>

lemma unat_u32_less: "unat (a :: u32) < 2 ^ 32"
  using unsigned_less[of a, where 'a = nat] by simp

section \<open>Outcomes of kernel code\<close>

text \<open>
  A piece of kernel code run from a state
  \<^item> returns a value and a new state (\<open>Ret\<close>);
  \<^item> calls \<^verbatim>\<open>panic(msg)\<close> and never continues (\<open>Panic\<close>);
  \<^item> performs an access the C language leaves undefined, such as an array index out of range or
    a null pointer dereference (\<open>Fault\<close>);
  \<^item> spins for ever on a spinlock that another CPU holds (\<open>Spin\<close>);
  \<^item> leaves the CPU inside \<^verbatim>\<open>swtch\<close>, called by \<^verbatim>\<open>sched\<close> (\<open>Switched\<close>): the state is the one the
    scheduler finds.
\<close>

datatype ('a, 's) outcome =
    Ret 'a 's
  | Panic string
  | Fault string
  | Spin
  | Switched 's

type_synonym ('a, 's) km = "'s \<Rightarrow> ('a, 's) outcome"

definition ret :: "'a \<Rightarrow> ('a, 's) km" where
  "ret x s = Ret x s"

definition panic :: "string \<Rightarrow> ('a, 's) km" where
  "panic msg s = Panic msg"

definition fault :: "string \<Rightarrow> ('a, 's) km" where
  "fault what s = Fault what"

definition kbind :: "('a, 's) km \<Rightarrow> ('a \<Rightarrow> ('b, 's) km) \<Rightarrow> ('b, 's) km" where
  "kbind m f s =
     (case m s of
        Ret x t \<Rightarrow> f x t
      | Panic msg \<Rightarrow> Panic msg
      | Fault what \<Rightarrow> Fault what
      | Spin \<Rightarrow> Spin
      | Switched t \<Rightarrow> Switched t)"

definition kthen :: "('a, 's) km \<Rightarrow> ('b, 's) km \<Rightarrow> ('b, 's) km" where
  "kthen m n = kbind m (\<lambda>_. n)"

definition kget :: "('s \<Rightarrow> 'a) \<Rightarrow> ('a, 's) km" where
  "kget f s = Ret (f s) s"

definition kmod :: "('s \<Rightarrow> 's) \<Rightarrow> (unit, 's) km" where
  "kmod f s = Ret () (f s)"

definition kwhen :: "bool \<Rightarrow> (unit, 's) km \<Rightarrow> (unit, 's) km" where
  "kwhen c m = (if c then m else ret ())"

primrec kfor :: "'x list \<Rightarrow> ('x \<Rightarrow> (unit, 's) km) \<Rightarrow> (unit, 's) km" where
  "kfor [] body = ret ()"
| "kfor (x # xs) body = kthen (body x) (kfor xs body)"

lemma ret_apply [simp]: "ret x s = Ret x s"
  by (simp add: ret_def)

lemma panic_apply [simp]: "panic msg s = Panic msg"
  by (simp add: panic_def)

lemma fault_apply [simp]: "fault what s = Fault what"
  by (simp add: fault_def)

lemma kget_apply [simp]: "kget f s = Ret (f s) s"
  by (simp add: kget_def)

lemma kmod_apply [simp]: "kmod f s = Ret () (f s)"
  by (simp add: kmod_def)

lemma kwhen_simps [simp]: "kwhen True m = m" "kwhen False m = ret ()"
  by (simp_all add: kwhen_def)

lemma kbind_apply [keval]:
  "kbind m f s =
     (case m s of
        Ret x t \<Rightarrow> f x t
      | Panic msg \<Rightarrow> Panic msg
      | Fault what \<Rightarrow> Fault what
      | Spin \<Rightarrow> Spin
      | Switched t \<Rightarrow> Switched t)"
  by (rule kbind_def)

lemma kthen_apply [keval]:
  "kthen m n s =
     (case m s of
        Ret x t \<Rightarrow> n t
      | Panic msg \<Rightarrow> Panic msg
      | Fault what \<Rightarrow> Fault what
      | Spin \<Rightarrow> Spin
      | Switched t \<Rightarrow> Switched t)"
  by (simp add: kthen_def kbind_apply)

lemma kbind_RetD:
  "kbind m f s = Ret y u \<Longrightarrow> \<exists>x t. m s = Ret x t \<and> f x t = Ret y u"
  by (auto simp: keval split: outcome.splits)

lemma kthen_RetD:
  "kthen m n s = Ret y u \<Longrightarrow> \<exists>x t. m s = Ret x t \<and> n t = Ret y u"
  by (auto simp: kthen_def dest: kbind_RetD)

lemma kbind_assoc: "kbind (kbind m f) g = kbind m (\<lambda>x. kbind (f x) g)"
  by (rule ext) (simp add: kbind_def split: outcome.splits)

lemma kthen_assoc: "kthen (kthen m n) k = kthen m (kthen n k)"
  by (rule ext) (simp add: kthen_apply split: outcome.splits)

lemma kthen_cong_state: "m s = m' s \<Longrightarrow> kthen m n s = kthen m' n s"
  by (simp add: kthen_apply)

lemma kfor_append: "kfor (xs @ ys) body = kthen (kfor xs body) (kfor ys body)"
  by (induction xs)
     (rule ext, simp add: keval, rule ext, simp add: keval split: outcome.splits)

section \<open>Total correctness\<close>

text \<open>\<open>runs m s Q\<close>: from \<open>s\<close> the code \<open>m\<close> returns, and its value and final state satisfy \<open>Q\<close>.\<close>

definition runs :: "('a, 's) km \<Rightarrow> 's \<Rightarrow> ('a \<Rightarrow> 's \<Rightarrow> bool) \<Rightarrow> bool" where
  "runs m s Q \<longleftrightarrow> (\<exists>x t. m s = Ret x t \<and> Q x t)"

lemma runs_Ret [simp]: "m s = Ret x t \<Longrightarrow> runs m s Q \<longleftrightarrow> Q x t"
  by (simp add: runs_def)

lemma runsI: "m s = Ret x t \<Longrightarrow> Q x t \<Longrightarrow> runs m s Q"
  by simp

lemma runsE:
  assumes "runs m s Q"
  obtains x t where "m s = Ret x t" and "Q x t"
  using assms by (auto simp: runs_def)

lemma runs_kbind: "runs (kbind m f) s Q \<longleftrightarrow> runs m s (\<lambda>x t. runs (f x) t Q)"
  by (auto simp: runs_def kbind_def split: outcome.splits)

lemma runs_kthen: "runs (kthen m n) s Q \<longleftrightarrow> runs m s (\<lambda>_ t. runs n t Q)"
  by (simp add: kthen_def runs_kbind)

lemma runs_prim [simp]:
  "runs (ret x) s Q \<longleftrightarrow> Q x s"
  "runs (kget f) s P \<longleftrightarrow> P (f s) s"
  "runs (kmod g) s R \<longleftrightarrow> R () (g s)"
  by simp_all

lemma runs_mono: "runs m s P \<Longrightarrow> (\<And>x t. P x t \<Longrightarrow> Q x t) \<Longrightarrow> runs m s Q"
  by (auto simp: runs_def)

lemma runs_conj: "runs m s P \<Longrightarrow> runs m s Q \<Longrightarrow> runs m s (\<lambda>x t. P x t \<and> Q x t)"
  by (auto simp: runs_def)

lemmas runs_simps = runs_kbind runs_kthen

text \<open>A loop whose body keeps an invariant indexed by the number of rounds done.\<close>

lemma runs_kfor_upt:
  assumes "I a s" and "a \<le> b"
    and "\<And>i t. a \<le> i \<Longrightarrow> i < b \<Longrightarrow> I i t \<Longrightarrow> runs (body i) t (\<lambda>_ u. I (Suc i) u)"
  shows "runs (kfor [a..<b] body) s (\<lambda>_ t. I b t)"
  using assms(2,1,3)
proof (induction arbitrary: s rule: inc_induct)
  case base
  then show ?case by simp
next
  case (step n)
  have "[n..<b] = n # [Suc n..<b]"
    using step.hyps by (simp add: upt_conv_Cons)
  moreover have "runs (body n) s (\<lambda>_ u. runs (kfor [Suc n..<b] body) u (\<lambda>_ t. I b t))"
  proof (rule runs_mono)
    show "runs (body n) s (\<lambda>_ u. I (Suc n) u)"
      using step.prems step.hyps by simp
    show "I (Suc n) u \<Longrightarrow> runs (kfor [Suc n..<b] body) u (\<lambda>_ t. I b t)" for u
      using step.IH[of u] step.prems(2) by simp
  qed
  ultimately show ?case by (simp add: runs_kthen)
qed

section \<open>Frames\<close>

text \<open>\<open>keeps f m\<close>: when \<open>m\<close> returns, the part \<open>f\<close> of the state is as before.\<close>

definition keeps :: "('s \<Rightarrow> 'b) \<Rightarrow> ('a, 's) km \<Rightarrow> bool" where
  "keeps f m \<longleftrightarrow> (\<forall>s x t. m s = Ret x t \<longrightarrow> f t = f s)"

lemma keepsD: "keeps f m \<Longrightarrow> m s = Ret x t \<Longrightarrow> f t = f s"
  by (simp add: keeps_def)

lemma keeps_prim [keeps_intro]:
  "keeps f (ret x)" "keeps f (Ret x)" "keeps f (kget h)" "keeps f (panic msg)" "keeps f (fault msg)" "keeps f (\<lambda>_. Panic msg)" "keeps f (\<lambda>_. Fault msg)"
  "keeps f (\<lambda>_. Spin)"
  "keeps f (\<lambda>_. Panic msg)"
  "(\<And>s. f (g s) = f s) \<Longrightarrow> keeps f (kmod g)"
  by (simp_all add: keeps_def panic_def fault_def)

lemma keeps_kbind [keeps_intro]: "keeps f m \<Longrightarrow> (\<And>x. keeps f (n x)) \<Longrightarrow> keeps f (kbind m n)"
  unfolding keeps_def by (metis kbind_RetD)

lemma keeps_kthen [keeps_intro]: "keeps f m \<Longrightarrow> keeps f n \<Longrightarrow> keeps f (kthen m n)"
  unfolding kthen_def by (rule keeps_kbind)

lemma keeps_if [keeps_intro]: "(c \<Longrightarrow> keeps f m) \<Longrightarrow> (\<not> c \<Longrightarrow> keeps f n) \<Longrightarrow> keeps f (if c then m else n)"
  by simp

lemma keeps_kwhen [keeps_intro]: "keeps f m \<Longrightarrow> keeps f (kwhen c m)"
  by (simp add: kwhen_def keeps_prim)

lemma keeps_option [keeps_intro]:
  "(v = None \<Longrightarrow> keeps f m) \<Longrightarrow> (\<And>y. v = Some y \<Longrightarrow> keeps f (k y)) \<Longrightarrow> keeps f (case v of None \<Rightarrow> m | Some y \<Rightarrow> k y)"
  by (simp split: option.split)

lemma keeps_prod [keeps_intro]: "(\<And>a b. x = (a, b) \<Longrightarrow> keeps f (m a b)) \<Longrightarrow> keeps f (case x of (a, b) \<Rightarrow> m a b)"
  by (cases x) simp

lemma keeps_kfor [keeps_intro]: "(\<And>x. x \<in> set xs \<Longrightarrow> keeps f (body x)) \<Longrightarrow> keeps f (kfor xs body)"
  by (induction xs) (simp_all add: keeps_prim(2)[of f "()"] keeps_prim keeps_kthen)

text \<open>Sequencing depends on the second part only where the first returns.\<close>

lemma kbind_cong_ret: "(\<And>x t. m s = Ret x t \<Longrightarrow> f x t = g x t) \<Longrightarrow> kbind m f s = kbind m g s"
  by (simp add: kbind_apply split: outcome.split)

lemma kthen_cong_ret: "(\<And>x t. m s = Ret x t \<Longrightarrow> n t = k t) \<Longrightarrow> kthen m n s = kthen m k s"
  by (simp add: kthen_apply split: outcome.split)

lemma kthen_cong:
  assumes "m s = m' s" and "\<And>x t. m' s = Ret x t \<Longrightarrow> n t = n' t"
  shows "kthen m n s = kthen m' n' s"
  using assms by (simp add: kthen_apply split: outcome.split)

section \<open>Table scans\<close>

text \<open>The index of the first entry of a table that satisfies \<open>P\<close>, as the kernel's \<^verbatim>\<open>for\<close> loops
  over its static arrays find it.\<close>

fun first_index :: "('a \<Rightarrow> bool) \<Rightarrow> 'a list \<Rightarrow> nat option" where
  "first_index P [] = None"
| "first_index P (x # xs) = (if P x then Some 0 else map_option Suc (first_index P xs))"

lemma first_index_None [simp]: "first_index P xs = None \<longleftrightarrow> (\<forall>x \<in> set xs. \<not> P x)"
  by (induction xs) auto

lemma first_index_Some:
  "first_index P xs = Some i \<longleftrightarrow> i < length xs \<and> P (xs ! i) \<and> (\<forall>j < i. \<not> P (xs ! j))"
  by (induction xs arbitrary: i) (auto simp: less_Suc_eq_0_disj nth_Cons split: nat.splits)

lemma first_index_SomeD:
  assumes "first_index P xs = Some i"
  shows "i < length xs" "P (xs ! i)"
  using assms by (simp_all add: first_index_Some)

lemma first_index_exists:
  "i < length xs \<Longrightarrow> P (xs ! i) \<Longrightarrow> \<exists>j. first_index P xs = Some j"
  by (cases "first_index P xs") auto

definition upd_nth :: "nat \<Rightarrow> ('a \<Rightarrow> 'a) \<Rightarrow> 'a list \<Rightarrow> 'a list" where
  "upd_nth i f xs = xs[i := f (xs ! i)]"

lemma length_upd_nth [simp]: "length (upd_nth i f xs) = length xs"
  by (simp add: upd_nth_def)

lemma upd_nth_eq [simp]: "i < length xs \<Longrightarrow> upd_nth i f xs ! i = f (xs ! i)"
  by (simp add: upd_nth_def)

lemma upd_nth_neq [simp]: "i \<noteq> j \<Longrightarrow> upd_nth i f xs ! j = xs ! j"
  by (simp add: upd_nth_def)

lemma upd_nth_nth:
  "j < length xs \<Longrightarrow> upd_nth i f xs ! j = (if i = j then f (xs ! j) else xs ! j)"
  by (simp add: upd_nth_def nth_list_update)

lemma in_set_upd_nthD: "x \<in> set (upd_nth i f xs) \<Longrightarrow> i < length xs \<Longrightarrow> x = f (xs ! i) \<or> x \<in> set xs"
  unfolding upd_nth_def using set_update_subset_insert[of xs i "f (xs ! i)"] by auto

section \<open>Little-endian layout\<close>

definition join16 :: "u8 \<Rightarrow> u8 \<Rightarrow> u16" where
  "join16 b0 b1 = ucast b0 OR push_bit 8 (ucast b1)"

definition join32 :: "u8 \<Rightarrow> u8 \<Rightarrow> u8 \<Rightarrow> u8 \<Rightarrow> u32" where
  "join32 b0 b1 b2 b3 =
     ucast b0 OR push_bit 8 (ucast b1) OR push_bit 16 (ucast b2) OR push_bit 24 (ucast b3)"

definition byte_of :: "nat \<Rightarrow> 'a::len word \<Rightarrow> u8" where
  "byte_of k v = ucast (drop_bit (8 * k) v)"

lemma join16_bytes [word_layout, simp]: "join16 (byte_of 0 v) (byte_of (Suc 0) v) = v"
  by (rule bit_word_eqI) (auto simp: join16_def byte_of_def bit_simps)

lemma join32_bytes [word_layout, simp]:
  "join32 (byte_of 0 v) (byte_of (Suc 0) v) (byte_of 2 v) (byte_of 3 v) = v"
proof (rule bit_word_eqI)
  fix n
  assume n: "n < LENGTH(32)"
  consider "n < 8" | "8 \<le> n" "n < 16" | "16 \<le> n" "n < 24" | "24 \<le> n" "n < 32"
    using n by fastforce
  then show "bit (join32 (byte_of 0 v) (byte_of (Suc 0) v) (byte_of 2 v) (byte_of 3 v)) n = bit v n"
    by cases (auto simp: join32_def byte_of_def bit_simps)
qed

lemma byte_of_join16 [simp]:
  "byte_of 0 (join16 b0 b1) = b0" "byte_of (Suc 0) (join16 b0 b1) = b1"
  by (rule bit_word_eqI; auto simp: join16_def byte_of_def bit_simps dest: bit_imp_le_length)+

lemma byte_of_join32 [simp]:
  "byte_of 0 (join32 b0 b1 b2 b3) = b0" "byte_of (Suc 0) (join32 b0 b1 b2 b3) = b1"
  "byte_of 2 (join32 b0 b1 b2 b3) = b2" "byte_of 3 (join32 b0 b1 b2 b3) = b3"
  by (rule bit_word_eqI; auto simp: join32_def byte_of_def bit_simps dest: bit_imp_le_length)+

definition le16 :: "u16 \<Rightarrow> u8 list" where
  "le16 v = [byte_of 0 v, byte_of (Suc 0) v]"

definition le32 :: "u32 \<Rightarrow> u8 list" where
  "le32 v = [byte_of 0 v, byte_of (Suc 0) v, byte_of 2 v, byte_of 3 v]"

definition get16 :: "u8 list \<Rightarrow> nat \<Rightarrow> u16" where
  "get16 bs i = join16 (bs ! i) (bs ! (i + 1))"

definition get32 :: "u8 list \<Rightarrow> nat \<Rightarrow> u32" where
  "get32 bs i = join32 (bs ! i) (bs ! (i + 1)) (bs ! (i + 2)) (bs ! (i + 3))"

lemma length_le16 [simp]: "length (le16 v) = 2"
  by (simp add: le16_def)

lemma length_le32 [simp]: "length (le32 v) = 4"
  by (simp add: le32_def)

text \<open>Overwriting a run of bytes in place: the effect of a \<^verbatim>\<open>memmove\<close> into an array, or of a
  store to a field of a structure that lies in it.\<close>

definition patch :: "nat \<Rightarrow> 'a list \<Rightarrow> 'a list \<Rightarrow> 'a list" where
  "patch i ys xs = take i xs @ ys @ drop (i + length ys) xs"

lemma length_patch [simp]: "i + length ys \<le> length xs \<Longrightarrow> length (patch i ys xs) = length xs"
  by (simp add: patch_def)

lemma nth_patch:
  "i + length ys \<le> length xs \<Longrightarrow> j < length xs \<Longrightarrow>
   patch i ys xs ! j = (if i \<le> j \<and> j < i + length ys then ys ! (j - i) else xs ! j)"
  by (auto simp: patch_def nth_append min_def)

lemma take_drop_patch [simp]:
  "i + length ys \<le> length xs \<Longrightarrow> take (length ys) (drop i (patch i ys xs)) = ys"
  by (simp add: patch_def)

lemma patch_all [simp]: "length ys = length xs \<Longrightarrow> patch 0 ys xs = ys"
  by (simp add: patch_def)

lemma get32_le32 [word_layout, simp]:
  "i + 4 \<le> length bs \<Longrightarrow> get32 (patch i (le32 v) bs) i = v"
  by (simp add: get32_def nth_patch) (simp add: le32_def)

lemma get16_le16 [word_layout, simp]:
  "i + 2 \<le> length bs \<Longrightarrow> get16 (patch i (le16 v) bs) i = v"
  by (simp add: get16_def nth_patch) (simp add: le16_def)

lemma get32_patch_other [word_layout]:
  "i + length ys \<le> length bs \<Longrightarrow> j + 4 \<le> length bs \<Longrightarrow> j + 4 \<le> i \<or> i + length ys \<le> j \<Longrightarrow>
   get32 (patch i ys bs) j = get32 bs j"
  by (auto simp: get32_def nth_patch)

lemma get16_patch_other [word_layout]:
  "i + length ys \<le> length bs \<Longrightarrow> j + 2 \<le> length bs \<Longrightarrow> j + 2 \<le> i \<or> i + length ys \<le> j \<Longrightarrow>
   get16 (patch i ys bs) j = get16 bs j"
  by (auto simp: get16_def nth_patch)

lemma get32_append_le32:
  "length xs = i \<Longrightarrow> get32 (xs @ le32 v @ ys) i = v"
  by (simp add: get32_def nth_append le32_def)

end
