(* ===== verification/Spinlock.thy ===== *)
theory Spinlock
  imports Prelude
begin

text \<open>
  Spinlocks and interrupt nesting (\<^verbatim>\<open>spinlock.c\<close>, \<^verbatim>\<open>spinlock.h\<close>, the \<^verbatim>\<open>ncli\<close>/\<open>intena\<close> part of
  \<^verbatim>\<open>struct cpu\<close> in \<^verbatim>\<open>proc.h\<close>).  The first part is the code as one CPU runs it; every other
  component calls these operations.  The second part is the interleaving of several CPUs on one
  lock, at the granularity of the atomic exchange, and shows mutual exclusion.

  The debugging field \<^verbatim>\<open>pcs\<close> of a lock (the call stack of the holder) is not part of the record:
  no code of the kernel reads it.
\<close>

section \<open>State\<close>

text \<open>Every \<^verbatim>\<open>struct spinlock\<close> object of the kernel: the global ones, one per pipe (at its page
  address) and the one inside each sleep lock.\<close>

datatype sleepid = SlBuf nat | SlInode nat

datatype lockid =
    LkPtable | LkTicks | LkKmem | LkBcache | LkIcache | LkLog | LkFtable | LkCons | LkIde
  | LkPipe u32
  | LkSleep sleepid

record spinlock =
  locked :: u32
  lkname :: string
  lkcpu :: "nat option"

record cpu =
  ncli :: int
  intena :: bool
  ifl :: bool  \<comment> \<open>the interrupt flag \<^verbatim>\<open>FL_IF\<close> of the CPU's \<^verbatim>\<open>eflags\<close>\<close>
  cproc :: "nat option"  \<comment> \<open>the per-CPU variable \<^verbatim>\<open>proc\<close>: an index into the process table\<close>

record machine =
  locks :: "lockid \<Rightarrow> spinlock"
  cpus :: "nat \<Rightarrow> cpu"
  mycpu :: nat  \<comment> \<open>the CPU that executes: the per-CPU variable \<^verbatim>\<open>cpu\<close>\<close>

abbreviation this_cpu :: "'z machine_scheme \<Rightarrow> cpu" where
  "this_cpu s \<equiv> cpus s (mycpu s)"

definition upd_cpu :: "(cpu \<Rightarrow> cpu) \<Rightarrow> 'z machine_scheme \<Rightarrow> 'z machine_scheme" where
  "upd_cpu f s = s\<lparr>cpus := (cpus s)(mycpu s := f (this_cpu s))\<rparr>"

definition upd_lock :: "lockid \<Rightarrow> (spinlock \<Rightarrow> spinlock) \<Rightarrow> 'z machine_scheme \<Rightarrow> 'z machine_scheme" where
  "upd_lock l f s = s\<lparr>locks := (locks s)(l := f (locks s l))\<rparr>"

section \<open>Operations\<close>

definition initlock :: "lockid \<Rightarrow> string \<Rightarrow> (unit, 'z machine_scheme) km" where
  "initlock l nm = kmod (upd_lock l (\<lambda>_. \<lparr>locked = 0, lkname = nm, lkcpu = None\<rparr>))"

definition pushcli :: "(unit, 'z machine_scheme) km" where
  "pushcli =
     kbind (kget (\<lambda>s. ifl (this_cpu s))) (\<lambda>eflags.
     kmod (upd_cpu (\<lambda>c. c\<lparr>ifl := False,
                          intena := (if ncli c = 0 then eflags else intena c),
                          ncli := ncli c + 1\<rparr>)))"

definition popcli :: "(unit, 'z machine_scheme) km" where
  "popcli =
     kbind (kget this_cpu) (\<lambda>c.
     if ifl c then panic ''popcli - interruptible''
     else if ncli c - 1 < 0 then panic ''popcli''
     else kmod (upd_cpu (\<lambda>c. c\<lparr>ncli := ncli c - 1,
                               ifl := (ncli c - 1 = 0 \<and> intena c)\<rparr>)))"

definition holding :: "lockid \<Rightarrow> 'z machine_scheme \<Rightarrow> bool" where
  "holding l s \<longleftrightarrow> locked (locks s l) \<noteq> 0 \<and> lkcpu (locks s l) = Some (mycpu s)"

text \<open>\<^verbatim>\<open>acquire\<close> in the pieces other CPUs can interleave with: the entry (interrupts off, check that
  this CPU does not hold the lock already), the atomic exchange, and the note of the holder.  A
  CPU that runs alone and finds the lock taken spins for ever.\<close>

definition acquire_enter :: "lockid \<Rightarrow> (unit, 'z machine_scheme) km" where
  "acquire_enter l =
     kthen pushcli (kbind (kget (holding l)) (\<lambda>h. if h then panic ''acquire'' else ret ()))"

definition xchg_locked :: "lockid \<Rightarrow> (u32, 'z machine_scheme) km" where
  "xchg_locked l =
     kbind (kget (\<lambda>s. locked (locks s l))) (\<lambda>old.
     kthen (kmod (upd_lock l (\<lambda>k. k\<lparr>locked := 1\<rparr>))) (ret old))"

definition acquire_note :: "lockid \<Rightarrow> (unit, 'z machine_scheme) km" where
  "acquire_note l = kmod (\<lambda>s. upd_lock l (\<lambda>k. k\<lparr>lkcpu := Some (mycpu s)\<rparr>) s)"

definition acquire :: "lockid \<Rightarrow> (unit, 'z machine_scheme) km" where
  "acquire l =
     kthen (acquire_enter l)
     (kbind (xchg_locked l) (\<lambda>old. if old \<noteq> 0 then (\<lambda>_. Spin) else acquire_note l))"

text \<open>\<^verbatim>\<open>release\<close>: forget the holder, then clear the lock word, then allow interrupts again.\<close>

definition release_forget :: "lockid \<Rightarrow> (unit, 'z machine_scheme) km" where
  "release_forget l =
     kbind (kget (holding l)) (\<lambda>h.
     if \<not> h then panic ''release''
     else kmod (upd_lock l (\<lambda>k. k\<lparr>lkcpu := None\<rparr>)))"

definition release_clear :: "lockid \<Rightarrow> (unit, 'z machine_scheme) km" where
  "release_clear l = kthen (kmod (upd_lock l (\<lambda>k. k\<lparr>locked := 0\<rparr>))) popcli"

definition release :: "lockid \<Rightarrow> (unit, 'z machine_scheme) km" where
  "release l = kthen (release_forget l) (release_clear l)"

section \<open>What one CPU sees\<close>

definition lk_free :: "lockid \<Rightarrow> 'z machine_scheme \<Rightarrow> bool" where
  "lk_free l s \<longleftrightarrow> locked (locks s l) = 0 \<and> lkcpu (locks s l) = None"

definition taken :: "nat \<Rightarrow> spinlock \<Rightarrow> spinlock" where
  "taken i k = k\<lparr>locked := 1, lkcpu := Some i\<rparr>"

definition pushed :: "cpu \<Rightarrow> cpu" where
  "pushed c = c\<lparr>ifl := False, intena := (if ncli c = 0 then ifl c else intena c), ncli := ncli c + 1\<rparr>"

text \<open>The state after this CPU took the lock \<open>l\<close>.\<close>

definition lk_take :: "lockid \<Rightarrow> 'z machine_scheme \<Rightarrow> 'z machine_scheme" where
  "lk_take l s = s\<lparr>locks := (locks s)(l := taken (mycpu s) (locks s l)),
                   cpus := (cpus s)(mycpu s := pushed (this_cpu s))\<rparr>"

lemma acquire_free: "lk_free l s \<Longrightarrow> acquire l s = Ret () (lk_take l s)"
  by (simp add: keval acquire_def acquire_enter_def pushcli_def xchg_locked_def acquire_note_def
      holding_def lk_free_def lk_take_def upd_cpu_def upd_lock_def taken_def pushed_def)

lemma acquire_taken_elsewhere:
  "locked (locks s l) \<noteq> 0 \<Longrightarrow> lkcpu (locks s l) \<noteq> Some (mycpu s) \<Longrightarrow> acquire l s = Spin"
  by (simp add: keval acquire_def acquire_enter_def pushcli_def xchg_locked_def holding_def
      upd_cpu_def upd_lock_def)

lemma acquire_twice: "holding l s \<Longrightarrow> acquire l s = Panic ''acquire''"
  by (simp add: keval acquire_def acquire_enter_def pushcli_def holding_def upd_cpu_def)

lemma release_not_held: "\<not> holding l s \<Longrightarrow> release l s = Panic ''release''"
  by (simp add: keval release_def release_forget_def)

text \<open>A CPU outside every critical section: nesting depth 0, interrupts on.\<close>

definition cpu_idle :: "cpu \<Rightarrow> bool" where
  "cpu_idle c \<longleftrightarrow> ncli c = 0 \<and> ifl c \<and> intena c"

definition quiet :: "'z machine_scheme \<Rightarrow> bool" where
  "quiet s \<longleftrightarrow> cpu_idle (this_cpu s) \<and> (\<forall>l. lk_free l s)"

lemma quiet_free [simp]: "quiet s \<Longrightarrow> lk_free l s"
  by (simp add: quiet_def)

lemma lk_take_simps [simp]:
  "mycpu (lk_take l s) = mycpu s"
  "locks (lk_take l s) = (locks s)(l := taken (mycpu s) (locks s l))"
  "cpus (lk_take l s) = (cpus s)(mycpu s := pushed (this_cpu s))"
  "machine.more (lk_take l s) = machine.more s"
  by (simp_all add: lk_take_def)

lemma taken_simps [simp]:
  "locked (taken i k) = 1" "lkcpu (taken i k) = Some i" "lkname (taken i k) = lkname k"
  by (simp_all add: taken_def)

lemma pushed_simps [simp]:
  "\<not> ifl (pushed c)" "ncli (pushed c) = ncli c + 1" "cproc (pushed c) = cproc c"
  "intena (pushed c) = (if ncli c = 0 then ifl c else intena c)"
  by (simp_all add: pushed_def)

lemma lk_free_take_other [simp]: "l \<noteq> k \<Longrightarrow> lk_free k (lk_take l s) = lk_free k s"
  by (simp add: lk_free_def)

lemma holding_take [simp]: "holding l (lk_take l s)"
  by (simp add: holding_def)

text \<open>Releasing the lock this CPU took, after a critical section that changed other parts of the
  state only, gives back the lock table and the CPU as they were before \<^verbatim>\<open>acquire\<close>.\<close>

definition cpu_stable :: "cpu \<Rightarrow> bool" where
  "cpu_stable c \<longleftrightarrow> (ncli c = 0 \<longrightarrow> ifl c \<and> intena c) \<and> (ncli c > 0 \<longrightarrow> \<not> ifl c) \<and> 0 \<le> ncli c"

lemma cpu_idle_stable [simp]: "cpu_idle c \<Longrightarrow> cpu_stable c"
  by (simp add: cpu_idle_def cpu_stable_def)

lemma cpu_stable_pushed [simp]: "cpu_stable c \<Longrightarrow> cpu_stable (pushed c)"
  by (simp add: cpu_stable_def)

lemma quiet_stable [simp]: "quiet s \<Longrightarrow> cpu_stable (this_cpu s)"
  by (simp add: quiet_def)

definition popped :: "cpu \<Rightarrow> cpu" where
  "popped c = c\<lparr>ncli := ncli c - 1, ifl := (ncli c - 1 = 0 \<and> intena c)\<rparr>"

lemma popped_pushed [simp]: "cpu_stable c \<Longrightarrow> popped (pushed c) = c"
  by (cases c) (auto simp: popped_def pushed_def cpu_stable_def)

lemma release_held:
  assumes "holding l s" and "\<not> ifl (this_cpu s)" and "0 < ncli (this_cpu s)"
  shows "release l s =
    Ret () (s\<lparr>locks := (locks s)(l := (locks s l)\<lparr>lkcpu := None, locked := 0\<rparr>),
             cpus := (cpus s)(mycpu s := popped (this_cpu s))\<rparr>)"
  using assms
  by (simp add: keval release_def release_forget_def release_clear_def popcli_def upd_lock_def
      upd_cpu_def popped_def)

lemma untaken [simp]:
  "lk_free l s \<Longrightarrow> (taken i (locks s l))\<lparr>lkcpu := None, locked := 0\<rparr> = locks s l"
  by (cases "locks s l") (simp add: taken_def lk_free_def)

lemma untaken_free [simp]:
  "locked k = 0 \<Longrightarrow> lkcpu k = None \<Longrightarrow> (taken i k)\<lparr>lkcpu := None, locked := 0\<rparr> = k"
  by (cases k) (simp add: taken_def)

theorem release_after_acquire:
  assumes "lk_free l s" and "cpu_stable (this_cpu s)"
    and "locks t = locks (lk_take l s)" and "cpus t = cpus (lk_take l s)" and "mycpu t = mycpu s"
  shows "release l t = Ret () (t\<lparr>locks := locks s, cpus := cpus s\<rparr>)"
proof -
  have "holding l t" "\<not> ifl (this_cpu t)" "0 < ncli (this_cpu t)"
    using assms by (simp_all add: holding_def cpu_stable_def)
  from release_held[OF this] show ?thesis
    using assms by simp
qed

lemma release_take [simp]:
  assumes "lk_free l s" and "cpu_stable (this_cpu s)"
  shows "release l (lk_take l s) = Ret () s"
  using release_after_acquire[OF assms, of "lk_take l s"] by (simp add: lk_take_def)

lemma cpu_stable_depth [simp]:
  "cpu_stable c \<Longrightarrow> 0 \<le> ncli c" "cpu_stable c \<Longrightarrow> 0 \<le> ncli c + 1" "cpu_stable c \<Longrightarrow> 0 \<le> ncli c + 2"
  by (auto simp: cpu_stable_def)

text \<open>Evaluation of a critical section in place: taking and giving back a lock cancel out.\<close>

lemmas lock_eval = keval acquire_free release_held lk_take_def holding_def

text \<open>Both directions as rules for \<open>runs\<close>.\<close>

lemma runs_acquire [runs_intro]:
  "lk_free l s \<Longrightarrow> Q () (lk_take l s) \<Longrightarrow> runs (acquire l) s Q"
  by (simp add: acquire_free)

lemma runs_release [runs_intro]:
  "lk_free l s \<Longrightarrow> cpu_stable (this_cpu s) \<Longrightarrow> locks t = locks (lk_take l s) \<Longrightarrow>
   cpus t = cpus (lk_take l s) \<Longrightarrow> mycpu t = mycpu s \<Longrightarrow>
   Q () (t\<lparr>locks := locks s, cpus := cpus s\<rparr>) \<Longrightarrow> runs (release l) t Q"
  by (simp add: release_after_acquire)

text \<open>A whole critical section \<^verbatim>\<open>acquire(l); f; release(l)\<close> is \<open>f\<close> where the lock is free.\<close>

lemma critical_section:
  assumes "lk_free l s" and "cpu_stable (this_cpu s)"
    and "m (lk_take l s) = Ret x t"
    and "locks t = locks (lk_take l s)" "cpus t = cpus (lk_take l s)" "mycpu t = mycpu s"
  shows "kthen (acquire l) (kbind m (\<lambda>x. kthen (release l) (n x))) s =
         n x (t\<lparr>locks := locks s, cpus := cpus s\<rparr>)"
  using assms(3) release_after_acquire[OF assms(1,2,4,5,6)] acquire_free[OF assms(1)]
  by (simp add: keval)

section \<open>Several CPUs on one lock\<close>

text \<open>
  Where each CPU stands in \<^verbatim>\<open>acquire\<close>/\<open>release\<close> of the lock: outside, spinning on the exchange, past
  a successful exchange, in the critical section, past the first half of \<^verbatim>\<open>release\<close>.
\<close>

datatype phase = Outside | Spinning | Got | Critical | Forgot

record smp = machine +
  phase :: "nat \<Rightarrow> phase"

inductive smp_step :: "lockid \<Rightarrow> smp \<Rightarrow> smp \<Rightarrow> bool" for l where
  enter: "phase s i = Outside \<Longrightarrow> acquire_enter l (s\<lparr>mycpu := i\<rparr>) = Ret () t \<Longrightarrow>
    smp_step l s (t\<lparr>phase := (phase t)(i := Spinning)\<rparr>)"
| spin: "phase s i = Spinning \<Longrightarrow> xchg_locked l (s\<lparr>mycpu := i\<rparr>) = Ret old t \<Longrightarrow> old \<noteq> 0 \<Longrightarrow>
    smp_step l s t"
| win: "phase s i = Spinning \<Longrightarrow> xchg_locked l (s\<lparr>mycpu := i\<rparr>) = Ret old t \<Longrightarrow> old = 0 \<Longrightarrow>
    smp_step l s (t\<lparr>phase := (phase t)(i := Got)\<rparr>)"
| note_holder: "phase s i = Got \<Longrightarrow> acquire_note l (s\<lparr>mycpu := i\<rparr>) = Ret () t \<Longrightarrow>
    smp_step l s (t\<lparr>phase := (phase t)(i := Critical)\<rparr>)"
| forget: "phase s i = Critical \<Longrightarrow> release_forget l (s\<lparr>mycpu := i\<rparr>) = Ret () t \<Longrightarrow>
    smp_step l s (t\<lparr>phase := (phase t)(i := Forgot)\<rparr>)"
| clear: "phase s i = Forgot \<Longrightarrow> release_clear l (s\<lparr>mycpu := i\<rparr>) = Ret () t \<Longrightarrow>
    smp_step l s (t\<lparr>phase := (phase t)(i := Outside)\<rparr>)"

definition smp_init :: "lockid \<Rightarrow> smp \<Rightarrow> bool" where
  "smp_init l s \<longleftrightarrow> lk_free l s \<and> (\<forall>i. phase s i = Outside \<and> cpu_idle (cpus s i))"

inductive smp_reach :: "lockid \<Rightarrow> smp \<Rightarrow> bool" for l where
  start: "smp_init l s \<Longrightarrow> smp_reach l s"
| step: "smp_reach l s \<Longrightarrow> smp_step l s t \<Longrightarrow> smp_reach l t"

definition owner :: "smp \<Rightarrow> nat \<Rightarrow> bool" where
  "owner s i \<longleftrightarrow> phase s i \<in> {Got, Critical, Forgot}"

definition inside :: "cpu \<Rightarrow> bool" where
  "inside c \<longleftrightarrow> ncli c = 1 \<and> \<not> ifl c \<and> intena c"

text \<open>The invariant, for the owner \<open>w\<close> of the lock, if any: the lock word, the recorded holder and
  the interrupt state of every CPU agree with the phases.\<close>

definition lock_view :: "nat option \<Rightarrow> spinlock \<Rightarrow> (nat \<Rightarrow> phase) \<Rightarrow> (nat \<Rightarrow> cpu) \<Rightarrow> bool" where
  "lock_view w k ph cs \<longleftrightarrow>
     (\<forall>i. ph i \<in> {Got, Critical, Forgot} \<longleftrightarrow> w = Some i) \<and>
     (locked k \<noteq> 0 \<longleftrightarrow> w \<noteq> None) \<and>
     lkcpu k = (case w of None \<Rightarrow> None | Some i \<Rightarrow> if ph i = Critical then Some i else None) \<and>
     (\<forall>i. if ph i = Outside then cpu_idle (cs i) else inside (cs i))"

definition smp_inv :: "lockid \<Rightarrow> smp \<Rightarrow> bool" where
  "smp_inv l s \<longleftrightarrow> (\<exists>w. lock_view w (locks s l) (phase s) (cpus s))"

lemma smp_inv_init: "smp_init l s \<Longrightarrow> smp_inv l s"
  unfolding smp_inv_def
  by (rule exI[of _ None]) (simp add: smp_init_def lock_view_def lk_free_def)

lemma lock_view_owner: "lock_view w k ph cs \<Longrightarrow> ph i \<in> {Got, Critical, Forgot} \<longleftrightarrow> w = Some i"
  by (simp add: lock_view_def)

lemma lock_view_enter:
  "lock_view w k ph cs \<Longrightarrow> ph i = Outside \<Longrightarrow> inside c \<Longrightarrow>
   lock_view w k (ph(i := Spinning)) (cs(i := c))"
  by (frule lock_view_owner[of _ _ _ _ i]) (auto simp: lock_view_def split: option.splits)

lemma lock_view_win:
  "lock_view w k ph cs \<Longrightarrow> ph i = Spinning \<Longrightarrow> locked k = 0 \<Longrightarrow>
   lock_view (Some i) (k\<lparr>locked := 1\<rparr>) (ph(i := Got)) cs"
  by (frule lock_view_owner[of _ _ _ _ i]) (auto simp: lock_view_def split: option.splits)

lemma lock_view_note:
  "lock_view w k ph cs \<Longrightarrow> ph i = Got \<Longrightarrow>
   lock_view (Some i) (k\<lparr>lkcpu := Some i\<rparr>) (ph(i := Critical)) cs"
  by (frule lock_view_owner[of _ _ _ _ i]) (auto simp: lock_view_def split: option.splits)

lemma lock_view_forget:
  "lock_view w k ph cs \<Longrightarrow> ph i = Critical \<Longrightarrow>
   lock_view (Some i) (k\<lparr>lkcpu := None\<rparr>) (ph(i := Forgot)) cs"
  by (frule lock_view_owner[of _ _ _ _ i]) (auto simp: lock_view_def split: option.splits)

lemma lock_view_clear:
  "lock_view w k ph cs \<Longrightarrow> ph i = Forgot \<Longrightarrow> cpu_idle c \<Longrightarrow>
   lock_view None (k\<lparr>locked := 0\<rparr>) (ph(i := Outside)) (cs(i := c))"
  by (frule lock_view_owner[of _ _ _ _ i]) (auto simp: lock_view_def split: option.splits)

lemma lock_view_cpu:
  "lock_view w k ph cs \<Longrightarrow> ph i = Outside \<Longrightarrow> cpu_idle (cs i)"
  "lock_view w k ph cs \<Longrightarrow> ph i \<noteq> Outside \<Longrightarrow> inside (cs i)"
  unfolding lock_view_def by metis+

lemma lock_view_holder:
  assumes "lock_view w k ph cs"
  shows "locked k \<noteq> 0 \<and> lkcpu k = Some i \<longleftrightarrow> ph i = Critical"
  using lock_view_owner[OF assms, of i] assms
  by (cases "w = Some i") (auto simp: lock_view_def split: option.splits if_splits)

lemmas smp_code = keval acquire_enter_def pushcli_def xchg_locked_def acquire_note_def
  release_forget_def release_clear_def popcli_def upd_lock_def upd_cpu_def holding_def

lemma acquire_enter_outside:
  assumes "lock_view w (locks s l) (phase s) (cpus s)" and "phase s i = Outside"
  shows "acquire_enter l (s\<lparr>mycpu := i\<rparr>) =
    Ret () (s\<lparr>mycpu := i, cpus := (cpus s)(i := pushed (cpus s i))\<rparr>)"
  using lock_view_holder[OF assms(1), of i] assms(2) by (auto simp: smp_code pushed_def)

lemma release_forget_critical:
  assumes "lock_view w (locks s l) (phase s) (cpus s)" and "phase s i = Critical"
  shows "release_forget l (s\<lparr>mycpu := i\<rparr>) =
    Ret () (s\<lparr>mycpu := i, locks := (locks s)(l := (locks s l)\<lparr>lkcpu := None\<rparr>)\<rparr>)"
  using lock_view_holder[OF assms(1), of i] assms(2) by (simp add: smp_code)

lemma release_clear_inside:
  assumes "inside (cpus s i)"
  shows "release_clear l (s\<lparr>mycpu := i\<rparr>) =
    Ret () (s\<lparr>mycpu := i, locks := (locks s)(l := (locks s l)\<lparr>locked := 0\<rparr>),
             cpus := (cpus s)(i := popped (cpus s i))\<rparr>)"
  using assms by (simp add: smp_code inside_def popped_def)

lemma inside_pushed: "cpu_idle c \<Longrightarrow> inside (pushed c)"
  by (simp add: cpu_idle_def inside_def)

lemma idle_popped: "inside c \<Longrightarrow> cpu_idle (popped c)"
  by (simp add: cpu_idle_def inside_def popped_def)

lemma lock_view_idem:
  "lock_view w k ph cs \<Longrightarrow> locked k \<noteq> 0 \<Longrightarrow> lock_view w (k\<lparr>locked := 1\<rparr>) ph cs"
  unfolding lock_view_def by (auto split: option.splits)

lemma smp_step_inv:
  assumes "smp_step l s t" and "smp_inv l s"
  shows "smp_inv l t"
proof -
  obtain w where v: "lock_view w (locks s l) (phase s) (cpus s)"
    using assms(2) by (auto simp: smp_inv_def)
  from assms(1) show ?thesis
  proof cases
    case (enter i u)
    then have "lock_view w (locks t l) (phase t) (cpus t)"
      using acquire_enter_outside[OF v] lock_view_enter[OF v]
        inside_pushed[OF lock_view_cpu(1)[OF v]] by auto
    then show ?thesis by (auto simp: smp_inv_def)
  next
    case (spin i old)
    then have "lock_view w (locks t l) (phase t) (cpus t)"
      using lock_view_idem[OF v] by (auto simp: smp_code)
    then show ?thesis by (auto simp: smp_inv_def)
  next
    case (win i old u)
    then have "lock_view (Some i) (locks t l) (phase t) (cpus t)"
      using lock_view_win[OF v, of i] by (auto simp: smp_code)
    then show ?thesis by (auto simp: smp_inv_def)
  next
    case (note_holder i u)
    then have "lock_view (Some i) (locks t l) (phase t) (cpus t)"
      using lock_view_note[OF v, of i] by (auto simp: smp_code)
    then show ?thesis by (auto simp: smp_inv_def)
  next
    case (forget i u)
    then have "lock_view (Some i) (locks t l) (phase t) (cpus t)"
      using lock_view_forget[OF v, of i] release_forget_critical[OF v] by auto
    then show ?thesis by (auto simp: smp_inv_def)
  next
    case (clear i u)
    then have "inside (cpus s i)"
      using lock_view_cpu(2)[OF v, of i] by simp
    with clear have "lock_view None (locks t l) (phase t) (cpus t)"
      using lock_view_clear[OF v, of i] release_clear_inside[of s i l] idle_popped by auto
    then show ?thesis by (auto simp: smp_inv_def)
  qed
qed

lemma smp_reach_inv: "smp_reach l s \<Longrightarrow> smp_inv l s"
  by (induction rule: smp_reach.induct) (blast intro: smp_inv_init smp_step_inv)+


text \<open>C17. Mutual exclusion of a spinlock under any interleaving of any number of CPUs: in every
  reachable state at most one CPU is between a successful exchange in \<^verbatim>\<open>acquire\<close> and the clearing
  store in \<^verbatim>\<open>release\<close>, and \<^verbatim>\<open>holding\<close> answers yes exactly on the CPU that is in the critical section.\<close>

theorem spinlock_mutual_exclusion:
  assumes "smp_reach l s"
  shows "(\<forall>i j. owner s i \<longrightarrow> owner s j \<longrightarrow> i = j) \<and>
         (\<forall>i. holding l (s\<lparr>mycpu := i\<rparr>) \<longleftrightarrow> phase s i = Critical)"
proof -
  obtain w where "lock_view w (locks s l) (phase s) (cpus s)"
    using smp_reach_inv[OF assms] by (auto simp: smp_inv_def)
  note v = lock_view_owner[OF this] lock_view_holder[OF this]
  then show ?thesis
    by (auto simp: owner_def holding_def)
qed

definition smp0 :: smp where
  "smp0 = \<lparr>locks = (\<lambda>_. \<lparr>locked = 0, lkname = ''l'', lkcpu = None\<rparr>),
           cpus = (\<lambda>_. \<lparr>ncli = 0, intena = True, ifl = True, cproc = None\<rparr>),
           mycpu = 0, phase = (\<lambda>_. Outside)\<rparr>"

definition smp1 :: smp where
  "smp1 = smp0\<lparr>cpus := (cpus smp0)(0 := \<lparr>ncli = 1, intena = True, ifl = False, cproc = None\<rparr>),
               phase := (phase smp0)(0 := Spinning)\<rparr>"

definition smp2 :: smp where
  "smp2 = smp1\<lparr>locks := (locks smp1)(LkKmem := \<lparr>locked = 1, lkname = ''l'', lkcpu = None\<rparr>),
               phase := (phase smp1)(0 := Got)\<rparr>"

lemma smp0_reach: "smp_reach l smp0"
  by (rule smp_reach.start) (simp add: smp_init_def smp0_def lk_free_def cpu_idle_def)

lemma smp1_reach: "smp_reach l smp1"
proof (rule smp_reach.step[OF smp0_reach])
  have "smp_step l smp0 (smp0\<lparr>mycpu := 0, cpus := (cpus smp0)(0 := pushed (cpus smp0 0))\<rparr>
    \<lparr>phase := (phase smp0)(0 := Spinning)\<rparr>)"
    by (rule smp_step.enter[where i = 0 and t = "smp0\<lparr>mycpu := 0, cpus := (cpus smp0)(0 := pushed (cpus smp0 0))\<rparr>", simplified])
       (simp_all add: smp0_def smp_code pushed_def)
  then show "smp_step l smp0 smp1"
    by (simp add: smp1_def smp0_def pushed_def)
qed

lemma smp2_reach: "smp_reach LkKmem smp2"
proof (rule smp_reach.step[OF smp1_reach])
  have "smp_step LkKmem smp1 (smp1\<lparr>mycpu := 0, locks := (locks smp1)(LkKmem := (locks smp1 LkKmem)\<lparr>locked := 1\<rparr>)\<rparr>
    \<lparr>phase := (phase smp1)(0 := Got)\<rparr>)"
    by (rule smp_step.win[where i = 0 and old = 0 and t = "smp1\<lparr>mycpu := 0, locks := (locks smp1)(LkKmem := (locks smp1 LkKmem)\<lparr>locked := 1\<rparr>)\<rparr>", simplified])
       (simp_all add: smp0_def smp1_def smp_code)
  then show "smp_step LkKmem smp1 smp2"
    by (simp add: smp2_def smp1_def smp0_def)
qed

theorem spinlock_mutual_exclusion_witness:
  "smp_reach LkKmem smp2 \<and> owner smp2 0 \<and> \<not> owner smp2 1 \<and>
   \<not> holding LkKmem (smp2\<lparr>mycpu := 0\<rparr>)"
proof -
  have "owner smp2 0" "phase smp2 0 = Got"
    by (simp_all add: smp2_def owner_def)
  then show ?thesis
    using smp2_reach spinlock_mutual_exclusion[OF smp2_reach] by (metis zero_neq_one phase.distinct)
qed

text \<open>C18. No CPU that follows the protocol panics or is left with the wrong interrupt nesting: from
  every reachable state a CPU outside the lock gets through the entry of \<^verbatim>\<open>acquire\<close>, and a CPU in the
  critical section gets through both halves of \<^verbatim>\<open>release\<close>; the last half turns its interrupts on.\<close>

theorem spinlock_never_panics:
  assumes "smp_reach l s"
  shows "(phase s i = Outside \<longrightarrow> (\<exists>t. acquire_enter l (s\<lparr>mycpu := i\<rparr>) = Ret () t \<and> \<not> ifl (cpus t i))) \<and>
         (phase s i = Critical \<longrightarrow> (\<exists>t. release_forget l (s\<lparr>mycpu := i\<rparr>) = Ret () t)) \<and>
         (phase s i = Forgot \<longrightarrow> (\<exists>t. release_clear l (s\<lparr>mycpu := i\<rparr>) = Ret () t \<and> ifl (cpus t i)))"
proof -
  obtain w where v: "lock_view w (locks s l) (phase s) (cpus s)"
    using smp_reach_inv[OF assms] by (auto simp: smp_inv_def)
  show ?thesis
    using acquire_enter_outside[OF v, of i] release_forget_critical[OF v, of i]
      release_clear_inside[of s i l] lock_view_cpu(2)[OF v, of i] idle_popped[of "cpus s i"]
    by (auto simp: cpu_idle_def)
qed

theorem spinlock_never_panics_witness:
  "smp_reach LkKmem smp0 \<and> (\<exists>t. acquire_enter LkKmem (smp0\<lparr>mycpu := 3\<rparr>) = Ret () t \<and> \<not> ifl (cpus t 3))"
  using smp0_reach spinlock_never_panics[OF smp0_reach[of LkKmem], of 3] by (simp add: smp0_def)

end
