(* ===== verification/Console_Out.thy ===== *)
theory Console_Out
  imports Spinlock
begin

text \<open>
  Console output: \<^verbatim>\<open>printint\<close>, \<^verbatim>\<open>cprintf\<close>, \<^verbatim>\<open>cgaputc\<close>, \<^verbatim>\<open>consputc\<close> of \<^verbatim>\<open>console.c\<close> and \<^verbatim>\<open>uartputc\<close>
  of \<^verbatim>\<open>uart.c\<close>.  The CGA text memory, the cursor register and the bytes sent over the serial line
  are fields of the state; the status polling of the serial port has no effect on it.
\<close>

section \<open>State\<close>

record conout = machine +
  panicked :: bool
  cons_locking :: bool
  uart :: bool
  uart_out :: "u8 list"  \<comment> \<open>bytes transmitted, oldest first\<close>
  crt :: "nat \<Rightarrow> u16"  \<comment> \<open>CGA memory, one cell per character\<close>
  crtpos :: nat  \<comment> \<open>the cursor register: column + 80 * row\<close>

definition bytes :: "string \<Rightarrow> u8 list" where
  "bytes cs = map of_char cs"

section \<open>Characters\<close>

definition BACKSPACE :: int where
  "BACKSPACE = 0x100"

definition uartputc :: "int \<Rightarrow> (unit, 'z conout_scheme) km" where
  "uartputc c = kmod (\<lambda>s. if uart s then s\<lparr>uart_out := uart_out s @ [word_of_int c]\<rparr> else s)"

text \<open>\<^verbatim>\<open>crt[pos] = (c&0xff) | 0x0700\<close>\<close>

definition crt_cell :: "int \<Rightarrow> u16" where
  "crt_cell c = (word_of_int c AND 0xFF) OR 0x0700"

definition crt_scroll :: "nat \<Rightarrow> (nat \<Rightarrow> u16) \<Rightarrow> nat \<Rightarrow> u16" where
  "crt_scroll pos m i =
     (if pos \<le> i \<and> i < 24 * 80 then 0 else if i < 23 * 80 then m (i + 80) else m i)"

definition cgaputc :: "int \<Rightarrow> (unit, 'z conout_scheme) km" where
  "cgaputc c =
     kbind (kget crtpos) (\<lambda>pos.
     kbind (if c = 10 then ret (pos + (80 - pos mod 80))
            else if c = BACKSPACE then ret (if pos > 0 then pos - 1 else pos)
            else kthen (kmod (\<lambda>s. s\<lparr>crt := (crt s)(pos := crt_cell c)\<rparr>)) (ret (pos + 1)))
     (\<lambda>pos.
     if pos > 25 * 80 then panic ''pos under/overflow''
     else
       kbind (if pos div 80 \<ge> 24
              then kthen (kmod (\<lambda>s. s\<lparr>crt := crt_scroll (pos - 80) (crt s)\<rparr>)) (ret (pos - 80))
              else ret pos)
       (\<lambda>pos. kmod (\<lambda>s. s\<lparr>crtpos := pos, crt := (crt s)(pos := crt_cell 32)\<rparr>))))"

definition consputc :: "int \<Rightarrow> (unit, 'z conout_scheme) km" where
  "consputc c =
     kbind (kget panicked) (\<lambda>p.
     if p then (\<lambda>_. Spin)
     else kthen (if c = BACKSPACE
                 then kthen (uartputc 8) (kthen (uartputc 32) (uartputc 8))
                 else uartputc c)
          (cgaputc c))"

section \<open>Numbers\<close>

text \<open>The digits \<^verbatim>\<open>buf[0..i-1]\<close>, least significant first.  The bases used are 10 and 16.\<close>

function int_digits :: "nat \<Rightarrow> nat \<Rightarrow> nat list" where
  "int_digits base x =
     (x mod base) # (if base \<le> 1 \<or> x div base = 0 then [] else int_digits base (x div base))"
  by pat_completeness auto
termination
  by (relation "measure snd") (auto simp: div_greater_zero_iff)

declare int_digits.simps [simp del]

definition digit_char :: "nat \<Rightarrow> int" where
  "digit_char d = of_char (''0123456789abcdef'' ! d)"

definition printint :: "u32 \<Rightarrow> nat \<Rightarrow> bool \<Rightarrow> (unit, 'z conout_scheme) km" where
  "printint xx base sign =
     (let neg = (sign \<and> sint xx < 0);
          x = (if neg then - xx else xx);
          buf = map digit_char (int_digits base (unat x)) @ (if neg then [45] else [])
      in if length buf > 16 then fault ''buf'' else kfor (rev buf) consputc)"

section \<open>Formatted output\<close>

text \<open>The words a caller pushes for \<^verbatim>\<open>%d %x %p\<close>, and the string a pushed pointer refers to for
  \<^verbatim>\<open>%s\<close> (None for a null pointer).\<close>

datatype carg = AInt u32 | AStr "u8 list option"

fun cprintf_loop :: "u8 list \<Rightarrow> carg list \<Rightarrow> (unit, 'z conout_scheme) km" where
  "cprintf_loop [] args = ret ()"
| "cprintf_loop (c # fmt) args =
     (if c = 0 then ret ()
      else if c \<noteq> 37 then kthen (consputc (uint c)) (cprintf_loop fmt args)
      else case fmt of
        [] \<Rightarrow> ret ()
      | d # fmt' \<Rightarrow>
          if d = 0 then ret ()
          else if d = 100 then
            (case args of AInt v # args' \<Rightarrow> kthen (printint v 10 True) (cprintf_loop fmt' args')
                        | _ \<Rightarrow> fault ''argp'')
          else if d = 120 \<or> d = 112 then
            (case args of AInt v # args' \<Rightarrow> kthen (printint v 16 False) (cprintf_loop fmt' args')
                        | _ \<Rightarrow> fault ''argp'')
          else if d = 115 then
            (case args of
               AStr str # args' \<Rightarrow>
                 kthen (kfor (case str of None \<Rightarrow> bytes ''(null)''
                                        | Some b \<Rightarrow> takeWhile (\<lambda>x. x \<noteq> 0) b)
                             (\<lambda>b. consputc (sint b)))
                       (cprintf_loop fmt' args')
             | _ \<Rightarrow> fault ''argp'')
          else if d = 37 then kthen (consputc 37) (cprintf_loop fmt' args)
          else kthen (consputc 37) (kthen (consputc (uint d)) (cprintf_loop fmt' args)))"

definition cprintf :: "string \<Rightarrow> carg list \<Rightarrow> (unit, 'z conout_scheme) km" where
  "cprintf fmt args =
     kbind (kget cons_locking) (\<lambda>locking.
     kthen (kwhen locking (acquire LkCons))
     (kthen (cprintf_loop (bytes fmt) args)
      (kwhen locking (release LkCons))))"

section \<open>Cursor and digits\<close>

text \<open>The screen invariant: the cursor is on one of the first 24 rows.\<close>

definition cursor_ok :: "'z conout_scheme \<Rightarrow> bool" where
  "cursor_ok s \<longleftrightarrow> crtpos s < 24 * 80"

lemma newline_le:
  fixes pos :: nat
  assumes "pos < 24 * 80"
  shows "pos + (80 - pos mod 80) \<le> 24 * 80"
proof -
  obtain q r where "pos = q * 80 + r" "r < 80" "pos mod 80 = r"
    using div_mult_mod_eq[of pos 80] mod_less_divisor[of 80 pos] by (metis zero_less_numeral)
  moreover from this have "q < 24" using assms by linarith
  ultimately show ?thesis by linarith
qed

lemma scrolled_lt: "(p::nat) \<le> 24 * 80 \<Longrightarrow> (if 24 \<le> p div 80 then p - 80 else p) < 24 * 80"
  by (simp add: less_eq_div_iff_mult_less_eq)

text \<open>The next cursor position, before a possible scroll.\<close>

definition next_pos :: "int \<Rightarrow> nat \<Rightarrow> nat" where
  "next_pos c pos =
     (if c = 10 then pos + (80 - pos mod 80)
      else if c = BACKSPACE then (if pos > 0 then pos - 1 else pos)
      else pos + 1)"

lemma next_pos_le: "pos < 24 * 80 \<Longrightarrow> next_pos c pos \<le> 24 * 80"
  unfolding next_pos_def by (simp only: newline_le split: if_split) auto

definition put_cell :: "int \<Rightarrow> nat \<Rightarrow> (nat \<Rightarrow> u16) \<Rightarrow> nat \<Rightarrow> u16" where
  "put_cell c pos m = (if c = 10 \<or> c = BACKSPACE then m else m(pos := crt_cell c))"

lemma put_cell_other: "i \<noteq> pos \<Longrightarrow> put_cell c pos m i = m i"
  by (simp add: put_cell_def)

lemma cgaputc_eq:
  assumes "next_pos c (crtpos s) = p" "p \<le> 25 * 80"
    and "q = (if p div 80 \<ge> 24 then p - 80 else p)"
    and "m = put_cell c (crtpos s) (crt s)"
  shows "cgaputc c s = Ret () (s\<lparr>crt := (if p div 80 \<ge> 24 then crt_scroll q m else m)(q := crt_cell 32),
                                 crtpos := q\<rparr>)"
  using assms(1,2) unfolding assms(3,4)
  by (cases "c = 10"; cases "c = BACKSPACE")
    (simp_all add: cgaputc_def keval next_pos_def put_cell_def BACKSPACE_def)

text \<open>C25. Console writes stay on the screen: while the cursor is within the first 24 rows, putting any
  character returns (no \<^verbatim>\<open>pos under/overflow\<close> panic), keeps the cursor there, and changes no cell
  beyond the 25 rows of CGA memory.\<close>

theorem cgaputc_stays_on_screen:
  assumes "crtpos s < 24 * 80"
  shows "\<exists>t. cgaputc c s = Ret () t \<and> crtpos t < 24 * 80 \<and> (\<forall>i \<ge> 25 * 80. crt t i = crt s i)"
proof -
  let ?p = "next_pos c (crtpos s)"
  define q where "q = (if ?p div 80 \<ge> 24 then ?p - 80 else ?p)"
  have p: "?p \<le> 24 * 80" using next_pos_le[OF assms] .
  then have q: "q < 24 * 80" unfolding q_def by (rule scrolled_lt)
  show ?thesis
    using p q assms
    by (simp add: cgaputc_eq[OF refl _ q_def refl] crt_scroll_def put_cell_other)
qed

definition idle_screen :: conout where
  "idle_screen = \<lparr>locks = \<lambda>_. \<lparr>locked = 0, lkname = '''', lkcpu = None\<rparr>,
     cpus = \<lambda>_. \<lparr>ncli = 0, intena = True, ifl = True, cproc = None\<rparr>, mycpu = 0,
     panicked = False, cons_locking = True, uart = True, uart_out = [],
     crt = \<lambda>_. 0, crtpos = 1919\<rparr>"

theorem cgaputc_stays_on_screen_witness:
  "crtpos idle_screen < 24 * 80 \<and>
   (\<exists>t. cgaputc 65 idle_screen = Ret () t \<and> crtpos t < 24 * 80 \<and>
        (\<forall>i \<ge> 25 * 80. crt t i = crt idle_screen i))"
  using cgaputc_stays_on_screen[of idle_screen 65] by (simp add: idle_screen_def)

subsection \<open>Digits\<close>

lemma int_digits_bound: "1 < base \<Longrightarrow> d \<in> set (int_digits base x) \<Longrightarrow> d < base"
  by (induction base x rule: int_digits.induct)
    (subst (asm) (2) int_digits.simps, auto split: if_splits)

lemma int_digits_value:
  "1 < base \<Longrightarrow> foldr (\<lambda>d n. n * base + d) (int_digits base x) 0 = x"
proof (induction base x rule: int_digits.induct)
  case (1 base x)
  then show ?case
    by (subst int_digits.simps) (auto simp: div_eq_0_iff)
qed

lemma int_digits_top:
  "1 < base \<Longrightarrow> last (int_digits base x) = 0 \<Longrightarrow> x = 0"
proof (induction base x rule: int_digits.induct)
  case (1 base x)
  have ne: "int_digits base (x div base) \<noteq> []" by (subst int_digits.simps) simp
  show ?case
  proof (cases "x div base = 0")
    case True
    then show ?thesis using 1(2,3) by (subst (asm) int_digits.simps) (simp add: div_eq_0_iff)
  next
    case False
    then have "last (int_digits base x) = last (int_digits base (x div base))"
      using 1(2) ne by (subst int_digits.simps) simp
    then show ?thesis using 1 False by simp
  qed
qed

lemma int_digits_length:
  "1 < base \<Longrightarrow> x < base ^ n \<Longrightarrow> 0 < n \<Longrightarrow> length (int_digits base x) \<le> n"
proof (induction n arbitrary: x)
  case (Suc n)
  show ?case
  proof (cases "x div base = 0")
    case True
    then show ?thesis by (subst int_digits.simps) simp
  next
    case False
    have "x div base < base ^ n"
      using Suc.prems by (simp add: div_less_iff_less_mult mult.commute)
    moreover from this False have "0 < n" by (cases n) auto
    ultimately have "length (int_digits base (x div base)) \<le> n" using Suc by blast
    then show ?thesis using False by (subst int_digits.simps) simp
  qed
qed simp

lemma int_digits_zero: "int_digits base 0 = [0]"
  by (subst int_digits.simps) simp

lemma unat_uminus_negative:
  fixes xx :: u32
  assumes "sint xx < 0"
  shows "unat (- xx) = nat (- sint xx)"
proof -
  have "- (2 ^ 31) \<le> sint xx" using sint_greater_eq[of xx] by simp
  then have "take_bit 32 (- sint xx) = - sint xx"
    using assms by (intro take_bit_int_eq_self) simp_all
  moreover have "uint (word_of_int (- sint xx) :: u32) = take_bit 32 (- sint xx)"
    by (simp only: uint_word_of_int_eq) simp
  moreover have "word_of_int (- sint xx) = - xx" by simp
  ultimately have "uint (- xx) = - sint xx" by (simp only:)
  then show ?thesis by (simp only: unat_eq_nat_uint)
qed

lemma unat_nonnegative:
  fixes xx :: u32
  assumes "0 \<le> sint xx"
  shows "unat xx = nat (sint xx)"
proof -
  have "sint xx < 2 ^ 31" using sint_less[of xx] by simp
  then have "uint xx = sint xx" using assms by (simp add: uint_sint take_bit_int_eq_self)
  then show ?thesis by (simp only: unat_eq_nat_uint)
qed

lemma printint_eq:
  assumes "base = 10 \<or> base = 16"
  defines "x \<equiv> \<lambda>xx sign. unat (if sign \<and> sint xx < 0 then - xx else xx :: u32)"
  shows "printint xx base sign =
    kfor ((if sign \<and> sint xx < 0 then [45] else []) @ map digit_char (rev (int_digits base (x xx sign))))
      consputc"
proof -
  have "x xx sign < 2 ^ 32"
    unfolding x_def using unsigned_less[of "if sign \<and> sint xx < 0 then - xx else xx"] by simp
  then have "x xx sign < base ^ 10" using assms(1) by auto
  then have "length (int_digits base (x xx sign)) \<le> 10"
    using int_digits_length[of base] assms(1) by auto
  then show ?thesis
    unfolding x_def
    by (cases "sign \<and> sint xx < 0") (auto simp: printint_def Let_def rev_map)
qed

text \<open>C24. \<^verbatim>\<open>printint\<close> prints its argument: in base 10 and 16 the digits fit the 16-byte buffer, and what
  is sent to the console is a minus sign exactly for a negative signed argument, followed by the
  digits, most significant first and with no leading zero, whose value in that base is the
  argument's magnitude (also for the most negative integer).\<close>

theorem printint_prints_number:
  assumes "base = 10 \<or> base = 16"
  shows "\<exists>ds. printint xx base sign =
              kfor ((if sign \<and> sint xx < 0 then [45] else []) @ map digit_char ds) consputc \<and>
            (\<forall>d \<in> set ds. d < base) \<and> ds \<noteq> [] \<and> (hd ds = 0 \<longrightarrow> ds = [0]) \<and>
            foldl (\<lambda>n d. n * base + d) 0 ds =
              (if sign then nat \<bar>sint xx\<bar> else unat xx)"
proof -
  define x where "x = unat (if sign \<and> sint xx < 0 then - xx else xx)"
  let ?ds = "int_digits base x"
  have b: "1 < base" using assms by auto
  have val: "x = (if sign then nat \<bar>sint xx\<bar> else unat xx)"
    unfolding x_def using unat_uminus_negative[of xx]
    using unat_nonnegative[of xx] by auto
  have ne: "?ds \<noteq> []" by (subst int_digits.simps) simp
  have "printint xx base sign =
      kfor ((if sign \<and> sint xx < 0 then [45] else []) @ map digit_char (rev ?ds)) consputc"
    unfolding x_def by (rule printint_eq[OF assms])
  moreover have "hd (rev ?ds) = 0 \<longrightarrow> rev ?ds = [0]"
    using int_digits_top[OF b, of x] ne by (auto simp: hd_rev int_digits_zero)
  ultimately show ?thesis
    using int_digits_bound[OF b] int_digits_value[OF b, of x] ne val
    by (intro exI[of _ "rev ?ds"]) (auto simp: foldl_conv_foldr)
qed

theorem printint_prints_number_witness:
  "\<exists>ds. (printint (word_of_int (- 207)) 10 True :: (unit, conout) km) =
         kfor ((if True \<and> sint (word_of_int (- 207) :: u32) < 0 then [45] else [])
               @ map digit_char ds) consputc \<and>
       (\<forall>d \<in> set ds. d < 10) \<and> ds \<noteq> [] \<and> (hd ds = 0 \<longrightarrow> ds = [0]) \<and>
       foldl (\<lambda>n d. n * 10 + d) 0 ds =
         (if True then nat \<bar>sint (word_of_int (- 207) :: u32)\<bar> else 0)"
  using printint_prints_number[of 10 "word_of_int (- 207)" True] by simp

section \<open>Formatted output holds the console lock\<close>

text \<open>What output keeps: the locks, the CPUs, a console that has not panicked, a cursor on the
  screen.\<close>

definition con_ok :: "'z conout_scheme \<Rightarrow> 'z conout_scheme \<Rightarrow> bool" where
  "con_ok s t \<longleftrightarrow> locks t = locks s \<and> cpus t = cpus s \<and> mycpu t = mycpu s \<and>
     conout.more t = conout.more s \<and> cons_locking t = cons_locking s \<and>
     \<not> panicked t \<and> cursor_ok t"

lemma con_ok_trans: "con_ok s t \<Longrightarrow> con_ok t u \<Longrightarrow> con_ok s u"
  by (simp add: con_ok_def)

lemma con_ok_refl: "con_ok s t \<Longrightarrow> con_ok t t"
  by (simp add: con_ok_def)

lemma cgaputc_con_ok: "con_ok s s \<Longrightarrow> runs (cgaputc c) s (\<lambda>_. con_ok s)"
proof -
  let ?p = "next_pos c (crtpos s)"
  assume ok: "con_ok s s"
  then have p: "?p \<le> 24 * 80" by (simp only: con_ok_def cursor_ok_def next_pos_le)
  have "?p \<le> 25 * 80" using p by simp
  from cgaputc_eq[OF refl this refl refl] scrolled_lt[OF p] ok show ?thesis
    by (simp only: runs_Ret) (simp add: con_ok_def cursor_ok_def)
qed

lemma uartputc_con_ok: "con_ok s s \<Longrightarrow> runs (uartputc c) s (\<lambda>_. con_ok s)"
  by (simp add: uartputc_def con_ok_def cursor_ok_def)

text \<open>Output composes: each piece runs from where the previous one left a good console.\<close>

definition outputs :: "(unit, 'z conout_scheme) km \<Rightarrow> bool" where
  "outputs m \<longleftrightarrow> (\<forall>s. con_ok s s \<longrightarrow> runs m s (\<lambda>_. con_ok s))"

lemma outputs_kthen [intro]: "outputs m \<Longrightarrow> outputs n \<Longrightarrow> outputs (kthen m n)"
  unfolding outputs_def runs_kthen
  by (blast intro: runs_mono con_ok_refl con_ok_trans)

lemma outputs_kfor [intro]: "(\<And>x. x \<in> set xs \<Longrightarrow> outputs (body x)) \<Longrightarrow> outputs (kfor xs body)"
  by (induction xs) (auto simp: outputs_def[of "ret ()"])

lemma outputs_ret [intro]: "outputs (ret ())" "outputs (Ret ())"
  by (simp_all add: outputs_def)

lemma outputs_consputc [intro]: "outputs (consputc c)"
proof -
  have "outputs (cgaputc c)" "outputs (uartputc b)" for b
    by (simp_all add: outputs_def cgaputc_con_ok uartputc_con_ok)
  then have "outputs (kthen (if c = BACKSPACE
                 then kthen (uartputc 8) (kthen (uartputc 32) (uartputc 8))
                 else uartputc c) (cgaputc c))" by auto
  moreover have "consputc c s = kthen (if c = BACKSPACE
                 then kthen (uartputc 8) (kthen (uartputc 32) (uartputc 8))
                 else uartputc c) (cgaputc c) s" if "con_ok s s" for s :: "'a conout_scheme"
    using that by (simp add: consputc_def kbind_apply con_ok_def)
  ultimately show ?thesis
    by (simp add: outputs_def runs_def)
qed

lemma outputs_printint: "base = 10 \<or> base = 16 \<Longrightarrow> outputs (printint xx base sign)"
  by (simp only: printint_eq) (rule outputs_kfor outputs_consputc)+

text \<open>The arguments a format asks for.\<close>

fun args_match :: "u8 list \<Rightarrow> carg list \<Rightarrow> bool" where
  "args_match [] args = True"
| "args_match (c # fmt) args =
     (if c = 0 then True
      else if c \<noteq> 37 then args_match fmt args
      else case fmt of
        [] \<Rightarrow> True
      | d # fmt' \<Rightarrow>
          if d = 0 then True
          else if d = 100 \<or> d = 120 \<or> d = 112 then
            (case args of AInt v # args' \<Rightarrow> args_match fmt' args' | _ \<Rightarrow> False)
          else if d = 115 then
            (case args of AStr v # args' \<Rightarrow> args_match fmt' args' | _ \<Rightarrow> False)
          else args_match fmt' args)"

lemma outputs_cprintf_loop: "args_match fmt args \<Longrightarrow> outputs (cprintf_loop fmt args :: (unit, 'z conout_scheme) km)"
proof (induction fmt arbitrary: args rule: length_induct)
  case (1 fmt)
  note out = outputs_printint outputs_kthen outputs_kfor outputs_consputc outputs_ret
  show ?case
  proof (cases fmt)
    case Nil
    then show ?thesis by (simp add: out)
  next
    case c: (Cons c fmt1)
    show ?thesis
    proof (cases "c = 0 \<or> c \<noteq> 37 \<or> fmt1 = []")
      case True
      then show ?thesis using 1 c by (auto simp: out)
    next
      case False
      then obtain d fmt2 where d: "fmt1 = d # fmt2" by (cases fmt1) auto
      have ih: "args_match fmt2 as \<Longrightarrow> outputs (cprintf_loop fmt2 as :: (unit, 'z conout_scheme) km)" for as
        using 1(1)[rule_format, of fmt2] c d by simp
      show ?thesis
        using 1(2) False unfolding c d
        by (cases args; cases "hd args") (auto simp: out ih split: if_splits)
    qed
  qed
qed

lemma cprintf_con_ok:
  assumes "args_match (bytes fmt) args" and "\<not> panicked s" and "cursor_ok s"
    and "lk_free LkCons s" and "cpu_stable (this_cpu s)"
  shows "\<exists>t. cprintf fmt args s = Ret () t \<and> con_ok s t"
proof -
  have out: "outputs (cprintf_loop (bytes fmt) args)" using outputs_cprintf_loop assms(1) .
  show ?thesis
  proof (cases "cons_locking s")
    case True
    have "con_ok (lk_take LkCons s) (lk_take LkCons s)"
      using assms by (simp add: con_ok_def cursor_ok_def lk_take_def)
    with out obtain t where t: "cprintf_loop (bytes fmt) args (lk_take LkCons s) = Ret () t"
      "con_ok (lk_take LkCons s) t" by (auto simp: outputs_def runs_def)
    then have "release LkCons t = Ret () (t\<lparr>locks := locks s, cpus := cpus s\<rparr>)"
      using assms by (intro release_after_acquire) (auto simp: con_ok_def)
    then show ?thesis
      using t True assms
      by (simp add: cprintf_def keval acquire_free con_ok_def cursor_ok_def lk_take_def)
  next
    case False
    then show ?thesis
      using out assms by (auto simp: outputs_def runs_def cprintf_def keval con_ok_def)
  qed
qed

lemma con_ok_lk_free: "con_ok s t \<Longrightarrow> lk_free l t = lk_free l s" "con_ok s t \<Longrightarrow> this_cpu t = this_cpu s"
  by (simp_all add: con_ok_def lk_free_def)

lemma cprintf_outputs:
  assumes "args_match (bytes fmt) args" and "lk_free LkCons s" and "cpu_stable (this_cpu s)" and "con_ok s t"
  shows "runs (cprintf fmt args) t (\<lambda>_. con_ok s)"
proof -
  have "lk_free LkCons t" "cpu_stable (this_cpu t)" "\<not> panicked t" "cursor_ok t"
    using assms con_ok_lk_free[OF assms(4)] by (simp_all add: con_ok_def)
  from cprintf_con_ok[OF assms(1) this(3,4,1,2)] show ?thesis
    using con_ok_trans[OF assms(4)] by (auto simp: runs_def)
qed

section \<open>Output leaves the rest of the kernel alone\<close>

lemma keeps_more_locks [keeps_intro]:
  "keeps conout.more (acquire l)" "keeps conout.more (release l)" "keeps conout.more pushcli" "keeps conout.more popcli"
  by (auto simp: acquire_def acquire_enter_def pushcli_def xchg_locked_def acquire_note_def release_def release_forget_def
      release_clear_def popcli_def upd_cpu_def upd_lock_def intro!: keeps_intro)

lemma keeps_more_consputc [keeps_intro]: "keeps conout.more (consputc c)"
  by (auto simp: consputc_def cgaputc_def uartputc_def intro!: keeps_intro)

lemma keeps_more_printint [keeps_intro]: "keeps conout.more (printint x base sign)"
  by (auto simp: printint_def Let_def intro!: keeps_intro)

lemma keeps_more_cprintf_loop [keeps_intro]: "keeps conout.more (cprintf_loop fmt args :: (unit, 'z conout_scheme) km)"
proof (induction fmt arbitrary: args rule: length_induct)
  case (1 fmt)
  note K = keeps_prim keeps_kthen keeps_kfor keeps_more_consputc keeps_more_printint
  show ?case
  proof (cases fmt)
    case Nil
    then show ?thesis by (simp add: keeps_prim)
  next
    case c: (Cons c fmt1)
    have ih: "keeps conout.more (cprintf_loop f as :: (unit, 'z conout_scheme) km)" if "length f \<le> length fmt1" for f as
      using 1 c that by (simp add: le_imp_less_Suc)
    show ?thesis
    proof (cases "c = 0 \<or> c \<noteq> 37 \<or> fmt1 = []")
      case True
      then show ?thesis using c ih by (auto simp: K)
    next
      case False
      then obtain d fmt2 where d: "fmt1 = d # fmt2" by (cases fmt1) auto
      then have "keeps conout.more (cprintf_loop fmt2 as :: (unit, 'z conout_scheme) km)" for as using ih by simp
      then show ?thesis using False unfolding c d by (cases args; cases "hd args") (auto simp: K)
    qed
  qed
qed

lemma keeps_more_cprintf [keeps_intro]: "keeps conout.more (cprintf fmt args)"
  by (auto simp: cprintf_def intro!: keeps_intro)

text \<open>C23. Formatted output is a critical section of the console lock: with arguments that match the
  format, an unpanicked console whose lock is free, and the cursor on the screen, \<^verbatim>\<open>cprintf\<close> returns
  with the lock table and the interrupt state as it found them and the cursor on the screen.\<close>

theorem cprintf_releases_console:
  assumes "args_match (bytes fmt) args" and "\<not> panicked s" and "cursor_ok s"
    and "lk_free LkCons s" and "cpu_stable (this_cpu s)"
  shows "\<exists>t. cprintf fmt args s = Ret () t \<and> con_ok s t"
  by (rule cprintf_con_ok[OF assms])

theorem cprintf_releases_console_witness:
  "args_match (bytes ''%d: %s'') [AInt 7, AStr None] \<and> \<not> panicked idle_screen \<and>
   cursor_ok idle_screen \<and> lk_free LkCons idle_screen \<and> cpu_stable (this_cpu idle_screen) \<and>
   (\<exists>t. cprintf ''%d: %s'' [AInt 7, AStr None] idle_screen = Ret () t \<and> con_ok idle_screen t)"
proof -
  have h: "args_match (bytes ''%d: %s'') [AInt 7, AStr None]" by code_simp
  have "\<not> panicked idle_screen" "cursor_ok idle_screen" "lk_free LkCons idle_screen"
    "cpu_stable (this_cpu idle_screen)"
    by (simp_all add: idle_screen_def cursor_ok_def lk_free_def cpu_stable_def)
  with cprintf_releases_console[OF h this] h show ?thesis by blast
qed

end
