(* ===== verification/CString.thy ===== *)
theory CString
  imports Prelude
begin

text \<open>
  The kernel's string and memory routines (\<^verbatim>\<open>string.c\<close>).  \<open>memset\<close> and \<open>memmove\<close> act on a byte
  memory addressed by 32 bit pointers.  A \<^verbatim>\<open>const char*\<close> argument that is only read is a byte view:
  the function from offsets to the bytes found there.  \<open>strncpy\<close> and \<open>safestrcpy\<close> give the bytes
  they store from the destination pointer on.
\<close>

section \<open>Memory\<close>

type_synonym memory = "u32 \<Rightarrow> u8"

definition load32 :: "memory \<Rightarrow> u32 \<Rightarrow> u32" where
  "load32 m a = join32 (m a) (m (a + 1)) (m (a + 2)) (m (a + 3))"

definition store32 :: "memory \<Rightarrow> u32 \<Rightarrow> u32 \<Rightarrow> memory" where
  "store32 m a v = m(a := byte_of 0 v, a + 1 := byte_of 1 v, a + 2 := byte_of 2 v, a + 3 := byte_of 3 v)"

text \<open>The string instructions of \<^verbatim>\<open>x86.h\<close>: \<^verbatim>\<open>rep stosb\<close> and \<^verbatim>\<open>rep stosl\<close>.\<close>

fun stosb :: "memory \<Rightarrow> u32 \<Rightarrow> u8 \<Rightarrow> nat \<Rightarrow> memory" where
  "stosb m a v 0 = m"
| "stosb m a v (Suc n) = stosb (m(a := v)) (a + 1) v n"

fun stosl :: "memory \<Rightarrow> u32 \<Rightarrow> u32 \<Rightarrow> nat \<Rightarrow> memory" where
  "stosl m a v 0 = m"
| "stosl m a v (Suc n) = stosl (store32 m a v) (a + 4) v n"

definition memset :: "memory \<Rightarrow> u32 \<Rightarrow> u32 \<Rightarrow> u32 \<Rightarrow> memory" where
  "memset m dst c n =
     (if dst mod 4 = 0 \<and> n mod 4 = 0
      then (let c = c AND 0xFF
            in stosl m dst (push_bit 24 c OR push_bit 16 c OR push_bit 8 c OR c) (unat (n div 4)))
      else stosb m dst (ucast c) (unat n))"

text \<open>The two loops of \<^verbatim>\<open>memmove\<close>: from the last byte down, and from the first byte up.\<close>

fun copy_down :: "memory \<Rightarrow> u32 \<Rightarrow> u32 \<Rightarrow> nat \<Rightarrow> memory" where
  "copy_down m d s 0 = m"
| "copy_down m d s (Suc n) = copy_down (m(d - 1 := m (s - 1))) (d - 1) (s - 1) n"

fun copy_up :: "memory \<Rightarrow> u32 \<Rightarrow> u32 \<Rightarrow> nat \<Rightarrow> memory" where
  "copy_up m d s 0 = m"
| "copy_up m d s (Suc n) = copy_up (m(d := m s)) (d + 1) (s + 1) n"

definition memmove :: "memory \<Rightarrow> u32 \<Rightarrow> u32 \<Rightarrow> u32 \<Rightarrow> memory" where
  "memmove m dst src n =
     (if src < dst \<and> src + n > dst
      then copy_down m (dst + n) (src + n) (unat n)
      else copy_up m dst src (unat n))"

definition memcpy :: "memory \<Rightarrow> u32 \<Rightarrow> u32 \<Rightarrow> u32 \<Rightarrow> memory" where
  "memcpy m dst src n = memmove m dst src n"

section \<open>Byte views\<close>

type_synonym cstr = "nat \<Rightarrow> u8"

abbreviation ptr_inc :: "cstr \<Rightarrow> cstr" where
  "ptr_inc p \<equiv> (\<lambda>i. p (Suc i))"

definition view :: "u8 list \<Rightarrow> cstr" where
  "view xs i = (if i < length xs then xs ! i else 0)"

fun memcmp :: "cstr \<Rightarrow> cstr \<Rightarrow> nat \<Rightarrow> int" where
  "memcmp p q 0 = 0"
| "memcmp p q (Suc n) =
     (if p 0 \<noteq> q 0 then uint (p 0) - uint (q 0) else memcmp (ptr_inc p) (ptr_inc q) n)"

fun strncmp :: "cstr \<Rightarrow> cstr \<Rightarrow> nat \<Rightarrow> int" where
  "strncmp p q 0 = 0"
| "strncmp p q (Suc n) =
     (if p 0 \<noteq> 0 \<and> p 0 = q 0 then strncmp (ptr_inc p) (ptr_inc q) n
      else uint (p 0) - uint (q 0))"

text \<open>The bytes \<^verbatim>\<open>strncpy(s, t, n)\<close> stores at \<^verbatim>\<open>s\<close>, \<^verbatim>\<open>s+1\<close>, ...: copies up to and including a NUL,
  then zeroes.\<close>

fun strncpy :: "cstr \<Rightarrow> nat \<Rightarrow> u8 list" where
  "strncpy t 0 = []"
| "strncpy t (Suc n) =
     (if t 0 \<noteq> 0 then t 0 # strncpy (ptr_inc t) n else t 0 # replicate n 0)"

text \<open>The bytes \<^verbatim>\<open>safestrcpy(s, t, n)\<close> stores from \<^verbatim>\<open>s\<close> on; the loop runs while the decremented count
  is positive, and one more NUL is stored after it.\<close>

fun safestrcpy :: "cstr \<Rightarrow> nat \<Rightarrow> u8 list" where
  "safestrcpy t 0 = []"
| "safestrcpy t (Suc 0) = [0]"
| "safestrcpy t (Suc (Suc n)) =
     (if t 0 \<noteq> 0 then t 0 # safestrcpy (ptr_inc t) (Suc n) else [t 0, 0])"

partial_function (option) strlen_from :: "cstr \<Rightarrow> nat \<Rightarrow> nat option" where
  "strlen_from s n = (if s n \<noteq> 0 then strlen_from s (Suc n) else Some n)"

definition strlen :: "cstr \<Rightarrow> nat option" where
  "strlen s = strlen_from s 0"

section \<open>Memory blocks\<close>

lemma load_store32_same [simp]: "load32 (store32 m a v) a = v"
  by (simp add: load32_def store32_def)

lemma store32_other:
  "b \<noteq> a \<Longrightarrow> b \<noteq> a + 1 \<Longrightarrow> b \<noteq> a + 2 \<Longrightarrow> b \<noteq> a + 3 \<Longrightarrow> store32 m a v b = m b"
  by (simp add: store32_def)

text \<open>Offsets below \<open>2 ^ 32\<close> from a base pointer are distinct addresses.\<close>

lemma of_nat_u32_eq [simp]:
  "i < 2 ^ 32 \<Longrightarrow> j < 2 ^ 32 \<Longrightarrow> (word_of_nat i = (word_of_nat j :: u32)) \<longleftrightarrow> i = j"
  by (simp add: word_of_nat_eq_iff take_bit_eq_mod)

lemma of_nat_offset_eq [simp]:
  "i < 2 ^ 32 \<Longrightarrow> j < 2 ^ 32 \<Longrightarrow> (a + word_of_nat i = a + word_of_nat j) \<longleftrightarrow> i = j" for a :: u32
  by (simp add: word_of_nat_eq_iff take_bit_eq_mod)

lemma of_nat_offset_neq_base [simp]:
  "0 < i \<Longrightarrow> i < 2 ^ 32 \<Longrightarrow> a + word_of_nat i \<noteq> a" for a :: u32
  using of_nat_offset_eq[of i 0 a] by (simp del: of_nat_offset_eq)

lemma stosb_outside:
  "(\<And>i. i < n \<Longrightarrow> b \<noteq> a + word_of_nat i) \<Longrightarrow> stosb m a v n b = m b"
proof (induction n arbitrary: m a)
  case (Suc n)
  have "b \<noteq> a" using Suc.prems[of 0] by simp
  moreover have "stosb (m(a := v)) (a + 1) v n b = (m(a := v)) b"
    using Suc.prems[of "Suc i" for i] by (intro Suc.IH) (auto simp: add.assoc)
  ultimately show ?case by simp
qed simp

lemma stosb_inside: "i < n \<Longrightarrow> n \<le> 2 ^ 32 \<Longrightarrow> stosb m a v n (a + word_of_nat i) = v"
proof (induction n arbitrary: m a i)
  case IH: (Suc n)
  show ?case
  proof (cases i)
    case 0
    have "stosb (m(a := v)) (a + 1) v n a = (m(a := v)) a"
    proof (rule stosb_outside)
      fix j assume "j < n"
      then show "a \<noteq> a + 1 + word_of_nat j"
        using of_nat_offset_neq_base[of "Suc j" a] IH.prems by (simp add: add.assoc)
    qed
    with 0 show ?thesis by simp
  next
    case (Suc j)
    have "stosb (m(a := v)) (a + 1) v n (a + 1 + word_of_nat j) = v"
      using IH.prems Suc by (intro IH.IH) simp_all
    with Suc show ?thesis by (simp add: add.assoc)
  qed
qed simp

text \<open>A word of four equal bytes stored by \<open>stosl\<close> is four bytes stored by \<open>stosb\<close>.\<close>

definition splat :: "u8 \<Rightarrow> u32" where
  "splat v = join32 v v v v"

lemma store32_splat: "store32 m a (splat v) = stosb m a v 4"
proof -
  have "stosb m a v 4 = m(a := v, a + 1 := v, a + 2 := v, a + 3 := v)"
    by (simp add: numeral_eq_Suc add.assoc)
  then show ?thesis
    by (simp add: store32_def splat_def)
qed

lemma stosb_add: "stosb m a v (k + n) = stosb (stosb m a v k) (a + word_of_nat k) v n"
  by (induction k arbitrary: m a) (simp_all add: add.assoc)

lemma stosl_splat: "stosl m a (splat v) n = stosb m a v (4 * n)"
proof (induction n arbitrary: m a)
  case (Suc n)
  then show ?case
    using stosb_add[of m a v 4 "4 * n"] by (simp add: store32_splat)
qed simp

lemma splat_masked:
  fixes c :: u32
  defines "d \<equiv> c AND 0xFF"
  shows "push_bit 24 d OR push_bit 16 d OR push_bit 8 d OR d = splat (ucast c)"
proof -
  have d: "d = c AND mask 8"
    by (simp add: d_def mask_eq_exp_minus_1)
  have "d = ucast (ucast c :: u8)"
    unfolding d by (rule bit_word_eqI) (auto simp: bit_simps)
  then show ?thesis
    by (simp add: splat_def join32_def ac_simps)
qed

lemma memset_stosb: "memset m dst c n = stosb m dst (ucast c) (unat n)"
proof (cases "dst mod 4 = 0 \<and> n mod 4 = 0")
  case True
  then have "4 * unat (n div 4) = unat n"
  proof -
    have "unat n mod 4 = 0" using True unat_mod[of n 4] by simp
    then show ?thesis using unat_div[of n 4] by (simp add: mult_div_mod_eq dvd_mult_div_cancel mod_0_imp_dvd)
  qed
  then show ?thesis
    using True by (simp only: memset_def Let_def splat_masked stosl_splat if_True simp_thms)
next
  case False
  then show ?thesis unfolding memset_def by (rule if_not_P)
qed


text \<open>The copying loops, as long as no byte is overwritten before it is read.\<close>

text \<open>Words that do not overlap what is stored.\<close>

lemma load32_store32_apart:
  assumes "4 \<le> unat (b - a)" and "unat (b - a) + 4 \<le> 2 ^ 32"
  shows "load32 (store32 m b v) a = load32 m a"
proof -
  have ne: "a + of_nat i \<noteq> b + of_nat j" if "i < 4" "j < 4" for i j :: nat
  proof
    assume "a + of_nat i = b + of_nat j"
    then have "b - a + of_nat j = of_nat i" by (simp add: algebra_simps)
    then have "unat (b - a + of_nat j :: u32) = i" using that by (simp add: unat_of_nat)
    moreover have "unat (b - a + of_nat j :: u32) = unat (b - a) + j \<or> unat (b - a) + j \<ge> 2 ^ 32"
      using that unat_u32_less[of "b - a"] by (auto simp: unat_word_ariths unat_of_nat not_le)
    ultimately show False using assms that by auto
  qed
  have "store32 m b v (a + of_nat i) = m (a + of_nat i)" if "i < 4" for i :: nat
    using ne[OF that, of 0] ne[OF that, of 1] ne[OF that, of 2] ne[OF that, of 3] by (intro store32_other) simp_all
  from this[of 0] this[of 1] this[of 2] this[of 3] show ?thesis by (simp add: load32_def)
qed

lemma load32_memset_apart:
  assumes "unat n \<le> unat (b - a)" and "unat (b - a) + 4 \<le> 2 ^ 32"
  shows "load32 (memset m a v n) b = load32 m b"
proof -
  have "stosb m a w (unat n) (b + of_nat i) = m (b + of_nat i)" if "i < 4" for i w
  proof (rule stosb_outside)
    fix j assume j: "j < unat n"
    have "(of_nat (unat (b - a) + i) :: u32) \<noteq> of_nat j"
      using that j assms unat_u32_less[of n] by (subst of_nat_u32_eq) simp_all
    then show "b + of_nat i \<noteq> a + of_nat j" by (auto simp: algebra_simps)
  qed
  from this[of 0] this[of 1] this[of 2] this[of 3] show ?thesis
    using assms by (simp add: load32_def memset_stosb)
qed

lemma copy_up_outside:
  "(\<And>i. i < n \<Longrightarrow> b \<noteq> d + word_of_nat i) \<Longrightarrow> copy_up m d s n b = m b"
proof (induction n arbitrary: m d s)
  case (Suc n)
  have "b \<noteq> d" using Suc.prems[of 0] by simp
  moreover have "copy_up (m(d := m s)) (d + 1) (s + 1) n b = (m(d := m s)) b"
    using Suc.prems[of "Suc i" for i] by (intro Suc.IH) (auto simp: add.assoc)
  ultimately show ?case by simp
qed simp

lemma copy_up_inside:
  assumes "k < n" and "n \<le> 2 ^ 32"
    and "\<And>i j. i < j \<Longrightarrow> j < n \<Longrightarrow> d + word_of_nat i \<noteq> s + word_of_nat j"
  shows "copy_up m d s n (d + word_of_nat k) = m (s + word_of_nat k)"
  using assms
proof (induction n arbitrary: m d s k)
  case IH: (Suc n)
  let ?m = "m(d := m s)"
  show ?case
  proof (cases k)
    case 0
    have "copy_up ?m (d + 1) (s + 1) n d = ?m d"
    proof (rule copy_up_outside)
      fix j assume "j < n"
      then show "d \<noteq> d + 1 + word_of_nat j"
        using of_nat_offset_neq_base[of "Suc j" d] IH.prems(2) by (simp add: add.assoc)
    qed
    with 0 show ?thesis by simp
  next
    case (Suc l)
    have "copy_up ?m (d + 1) (s + 1) n (d + 1 + word_of_nat l) = ?m (s + 1 + word_of_nat l)"
    proof (rule IH.IH)
      show "l < n" "n \<le> 2 ^ 32" using IH.prems Suc by simp_all
      show "d + 1 + word_of_nat i \<noteq> s + 1 + word_of_nat j" if "i < j" "j < n" for i j
        using IH.prems(3)[of "Suc i" "Suc j"] that by (simp add: add.assoc)
    qed
    moreover have "s + 1 + word_of_nat l \<noteq> d"
      using IH.prems(3)[of 0 "Suc l"] IH.prems(1) Suc by (auto simp: add.assoc)
    ultimately show ?thesis using Suc by (simp add: add.assoc)
  qed
qed simp

text \<open>\<open>copy_down\<close> starts at the end pointers; in terms of the start pointers:\<close>

lemma copy_down_start:
  "copy_down m (d + word_of_nat (Suc n)) (s + word_of_nat (Suc n)) (Suc n) =
   copy_down (m(d + word_of_nat n := m (s + word_of_nat n))) (d + word_of_nat n) (s + word_of_nat n) n"
  by simp

lemma copy_down_outside:
  "(\<And>i. i < n \<Longrightarrow> b \<noteq> d + word_of_nat i) \<Longrightarrow>
   copy_down m (d + word_of_nat n) (s + word_of_nat n) n b = m b"
proof (induction n arbitrary: m)
  case (Suc n)
  then show ?case
    unfolding copy_down_start by (simp del: copy_down.simps of_nat_Suc)
qed simp

lemma copy_down_inside:
  assumes "k < n" and "n \<le> 2 ^ 32"
    and "\<And>i j. i < j \<Longrightarrow> j < n \<Longrightarrow> d + word_of_nat j \<noteq> s + word_of_nat i"
  shows "copy_down m (d + word_of_nat n) (s + word_of_nat n) n (d + word_of_nat k) = m (s + word_of_nat k)"
  using assms
proof (induction n arbitrary: m)
  case (Suc n)
  let ?m = "m(d + word_of_nat n := m (s + word_of_nat n))"
  show ?case
  proof (cases "k = n")
    case True
    have "copy_down ?m (d + word_of_nat n) (s + word_of_nat n) n (d + word_of_nat n) = ?m (d + word_of_nat n)"
      using Suc.prems(2) by (intro copy_down_outside) simp
    then show ?thesis
      using True unfolding copy_down_start by simp
  next
    case False
    then have "k < n" using Suc.prems(1) by simp
    then have "copy_down ?m (d + word_of_nat n) (s + word_of_nat n) n (d + word_of_nat k) = ?m (s + word_of_nat k)"
      using Suc.prems by (intro Suc.IH) simp_all
    moreover have "d + word_of_nat n \<noteq> s + word_of_nat k"
      using Suc.prems(3)[of k n] \<open>k < n\<close> by simp
    ultimately show ?thesis
      unfolding copy_down_start by simp
  qed
qed simp

lemma unat_offset: "unat a + i < 2 ^ 32 \<Longrightarrow> unat (a + word_of_nat i) = unat a + i" for a :: u32
  by (simp add: unat_word_ariths unat_of_nat take_bit_eq_mod)

lemma in_block_iff:
  fixes d b n :: u32
  assumes "unat d + unat n < 2 ^ 32"
  shows "d \<le> b \<and> b < d + n \<longleftrightarrow> (\<exists>i < unat n. b = d + word_of_nat i)"
proof
  assume b: "d \<le> b \<and> b < d + n"
  have "unat (d + n) = unat d + unat n"
    using assms by (simp add: unat_word_ariths)
  with b have "unat (b - d) < unat n"
    by (simp add: word_le_nat_alt word_less_nat_alt unat_sub) arith
  moreover have "b = d + word_of_nat (unat (b - d))" by simp
  ultimately show "\<exists>i < unat n. b = d + word_of_nat i" by blast
next
  assume "\<exists>i < unat n. b = d + word_of_nat i"
  then obtain i where "i < unat n" "b = d + word_of_nat i" by blast
  then show "d \<le> b \<and> b < d + n"
    using assms unat_offset[of d i]
    by (simp add: word_le_nat_alt word_less_nat_alt unat_word_ariths)
qed


lemma memmove_eq_up:
  fixes s d n :: u32
  assumes "unat s + unat n < 2 ^ 32" "unat d + unat n < 2 ^ 32"
    and "\<not> (s < d \<and> s + n > d)" "i < j" "j < unat n"
  shows "d + word_of_nat i \<noteq> s + word_of_nat j"
proof -
  have "unat (s + n) = unat s + unat n" using assms by (simp add: unat_word_ariths)
  then have "unat d \<le> unat s \<or> unat s + unat n \<le> unat d"
    using assms(3) by (auto simp: word_less_nat_alt not_less)
  moreover have "unat (d + word_of_nat i) = unat d + i" "unat (s + word_of_nat j) = unat s + j"
    using assms by (intro unat_offset; simp)+
  ultimately have "unat (d + word_of_nat i) \<noteq> unat (s + word_of_nat j)"
    using assms(4,5) by linarith
  then show ?thesis by metis
qed

lemma memmove_eq_down:
  fixes s d n :: u32
  assumes "unat s + unat n < 2 ^ 32" "unat d + unat n < 2 ^ 32"
    and "s < d" "i < j" "j < unat n"
  shows "d + word_of_nat j \<noteq> s + word_of_nat i"
proof -
  have "unat (d + word_of_nat j) = unat d + j" "unat (s + word_of_nat i) = unat s + i"
    using assms by (intro unat_offset; simp)+
  moreover have "unat s < unat d" using assms(3) by (simp add: word_less_nat_alt)
  ultimately have "unat (d + word_of_nat j) \<noteq> unat (s + word_of_nat i)"
    using assms(4,5) by linarith
  then show ?thesis by metis
qed

lemma memmove_inside:
  assumes "unat src + unat n < 2 ^ 32" "unat dst + unat n < 2 ^ 32" "i < unat n"
  shows "memmove m dst src n (dst + word_of_nat i) = m (src + word_of_nat i)"
proof -
  have n: "unat n \<le> 2 ^ 32" using assms(1) by simp
  show ?thesis
  proof (cases "src < dst \<and> src + n > dst")
    case True
    then show ?thesis
      using copy_down_inside[OF assms(3) n, of dst src m] memmove_eq_down[OF assms(1,2)]
      by (simp add: memmove_def)
  next
    case False
    then show ?thesis
      using copy_up_inside[OF assms(3) n, of dst src m] memmove_eq_up[OF assms(1,2) False]
      by (auto simp: memmove_def)
  qed
qed

lemma memmove_outside:
  "(\<And>i. i < unat n \<Longrightarrow> b \<noteq> dst + word_of_nat i) \<Longrightarrow> memmove m dst src n b = m b"
  using copy_up_outside[of "unat n" b dst m src] copy_down_outside[of "unat n" b dst m src]
  by (simp add: memmove_def)

text \<open>C19. \<^verbatim>\<open>memmove\<close> is correct for overlapping regions: when neither region runs past the end of the
  address space, every destination byte holds the source byte as it was before the call, and no
  other byte changes.\<close>

theorem memmove_correct:
  assumes "unat src + unat n < 2 ^ 32" and "unat dst + unat n < 2 ^ 32"
  shows "memmove m dst src n b = (if dst \<le> b \<and> b < dst + n then m (src + (b - dst)) else m b)"
proof (cases "dst \<le> b \<and> b < dst + n")
  case True
  then obtain i where i: "i < unat n" "b = dst + word_of_nat i"
    using in_block_iff[OF assms(2)] by blast
  then show ?thesis
    using True memmove_inside[OF assms i(1)] by simp
next
  case False
  then show ?thesis
    using memmove_outside[of n b dst m src] in_block_iff[OF assms(2), of b] by auto
qed

theorem memmove_correct_witness:
  "unat (100 :: u32) + unat (8 :: u32) < 2 ^ 32 \<and>
   memmove (\<lambda>a. ucast a) 104 100 8 111 = 107"
proof -
  have h: "unat (100 :: u32) + unat (8 :: u32) < 2 ^ 32" "unat (104 :: u32) + unat (8 :: u32) < 2 ^ 32"
    by simp_all
  show ?thesis using memmove_correct[OF h, where m = "\<lambda>a. ucast a" and b = 111] by simp
qed

text \<open>C20. \<^verbatim>\<open>memset\<close>: the word-at-a-time branch and the byte branch have the same effect, which is to
  store the low byte of the fill value in exactly the \<^verbatim>\<open>n\<close> bytes from \<^verbatim>\<open>dst\<close>.\<close>

theorem memset_correct:
  assumes "unat dst + unat n < 2 ^ 32"
  shows "memset m dst c n b = (if dst \<le> b \<and> b < dst + n then ucast c else m b)"
proof (cases "dst \<le> b \<and> b < dst + n")
  case True
  then obtain i where i: "i < unat n" "b = dst + word_of_nat i"
    using in_block_iff[OF assms] by blast
  then have "stosb m dst (ucast c) (unat n) b = ucast c"
    using assms stosb_inside[of i "unat n" m dst "ucast c"] by simp
  with True show ?thesis by (simp add: memset_stosb)
next
  case False
  then show ?thesis
    using stosb_outside[of "unat n" b dst m "ucast c"] in_block_iff[OF assms, of b]
    by (auto simp: memset_stosb)
qed

theorem memset_correct_witness:
  "unat (0x1000 :: u32) + unat (0x1000 :: u32) < 2 ^ 32 \<and> memset (\<lambda>_. 7) 0x1000 0x101 0x1000 0x1FFF = 1"
proof -
  have h: "unat (0x1000 :: u32) + unat (0x1000 :: u32) < 2 ^ 32" by simp
  show ?thesis using memset_correct[OF h, where m = "\<lambda>_. 7" and c = "0x101" and b = "0x1FFF"] by simp
qed

section \<open>Strings\<close>

text \<open>The string a view holds within its first \<open>n\<close> bytes: what precedes the first NUL.\<close>

fun cstring :: "cstr \<Rightarrow> nat \<Rightarrow> u8 list" where
  "cstring p 0 = []"
| "cstring p (Suc n) = (if p 0 = 0 then [] else p 0 # cstring (ptr_inc p) n)"

lemma cstring_takeWhile: "cstring p n = takeWhile (\<lambda>b. b \<noteq> 0) (map p [0..<n])"
proof (induction n arbitrary: p)
  case (Suc n)
  have "map p [0..<Suc n] = p 0 # map (ptr_inc p) [0..<n]"
    by (subst upt_conv_Cons) (simp_all add: map_Suc_upt[symmetric] del: upt_Suc)
  then show ?case using Suc by simp
qed simp

lemma length_cstring [simp]: "length (cstring p n) \<le> n"
  by (induction p n rule: cstring.induct) auto

lemma cstring_nonzero: "0 \<notin> set (cstring p n)"
  by (induction p n rule: cstring.induct) auto

lemma ptr_inc_view [simp]: "ptr_inc (view (x # xs)) = view xs"
  by (rule ext) (simp add: view_def)

lemma view_0 [simp]: "view (x # xs) 0 = x" "view [] i = 0"
  by (simp_all add: view_def)

lemma strncmp_0_iff: "strncmp p q n = 0 \<longleftrightarrow> cstring p n = cstring q n"
  by (induction p q n rule: strncmp.induct) (auto simp: word_uint_eq_iff)

lemma memcmp_0_iff: "memcmp p q n = 0 \<longleftrightarrow> (\<forall>i < n. p i = q i)"
  by (induction p q n rule: memcmp.induct) (auto simp: All_less_Suc2 word_uint_eq_iff)

lemma strncpy_cstring: "strncpy t n = cstring t n @ replicate (n - length (cstring t n)) 0"
  by (induction t n rule: strncpy.induct) auto

lemma length_strncpy [simp]: "length (strncpy t n) = n"
  by (simp add: strncpy_cstring)

lemma cstring_view_append_0:
  "0 \<notin> set xs \<Longrightarrow> cstring (view (xs @ replicate k 0)) (length xs + k) = xs"
proof (induction xs)
  case Nil
  then show ?case by (cases k) simp_all
qed auto

lemma cstring_strncpy [simp]: "cstring (view (strncpy t n)) n = cstring t n"
  using cstring_view_append_0[OF cstring_nonzero, of t n "n - length (cstring t n)"]
  by (simp add: strncpy_cstring)

text \<open>C21. \<^verbatim>\<open>strncmp\<close> decides equality of the strings two buffers hold within their first \<^verbatim>\<open>n\<close> bytes,
  and a fixed-size field filled by \<^verbatim>\<open>strncpy\<close> compares equal to its source: directory entry names
  written by \<^verbatim>\<open>dirlink\<close> are found again by \<^verbatim>\<open>dirlookup\<close>.\<close>

theorem strncmp_strncpy:
  "(strncmp p q n = 0 \<longleftrightarrow> cstring p n = cstring q n) \<and>
   strncmp t (view (strncpy t n)) n = 0 \<and> length (strncpy t n) = n"
  by (simp add: strncmp_0_iff)

text \<open>\<^verbatim>\<open>safestrcpy\<close> stores the string cut to \<open>n - 1\<close> bytes, and a NUL.\<close>

lemma safestrcpy_cstring:
  "0 < n \<Longrightarrow> take (Suc (length (cstring t (n - 1)))) (safestrcpy t n) = cstring t (n - 1) @ [0]"
  by (induction t n rule: safestrcpy.induct) auto

lemma length_safestrcpy: "length (safestrcpy t n) \<le> n"
  by (induction t n rule: safestrcpy.induct) auto

lemma cstring_safestrcpy:
  assumes "0 < n"
  shows "cstring (view (safestrcpy t n)) n = cstring t (n - 1)"
proof -
  have *: "cstring (view (xs @ 0 # ys)) k = xs" if "0 \<notin> set xs" "length xs < k" for xs ys k
    using that
  proof (induction xs arbitrary: k)
    case Nil
    then show ?case by (cases k) simp_all
  next
    case (Cons x xs)
    then show ?case by (cases k) auto
  qed
  define c where "c = cstring t (n - 1)"
  have "safestrcpy t n = c @ 0 # drop (Suc (length c)) (safestrcpy t n)"
    using safestrcpy_cstring[OF assms, of t] append_take_drop_id[of "Suc (length c)" "safestrcpy t n"]
    by (simp add: c_def)
  moreover have "length c < n" using assms length_cstring[of t "n - 1"] unfolding c_def by linarith
  ultimately show ?thesis
    using *[of c n] cstring_nonzero[of t "n - 1"] by (metis c_def)
qed

text \<open>C22. \<^verbatim>\<open>safestrcpy\<close> never writes past the \<^verbatim>\<open>n\<close> bytes of the destination and always leaves a
  NUL-terminated string there: the longest prefix of the source of at most \<open>n - 1\<close> bytes.\<close>

theorem safestrcpy_terminates_string:
  assumes "0 < n"
  shows "length (safestrcpy t n) \<le> n \<and> 0 \<in> set (safestrcpy t n) \<and>
         cstring (view (safestrcpy t n)) n = cstring t (n - 1)"
proof -
  have "0 \<in> set (take (Suc (length (cstring t (n - 1)))) (safestrcpy t n))"
    using safestrcpy_cstring[OF assms, of t] by simp
  then have "0 \<in> set (safestrcpy t n)" by (meson in_set_takeD)
  then show ?thesis
    using length_safestrcpy cstring_safestrcpy[OF assms] by blast
qed

theorem safestrcpy_terminates_string_witness:
  "safestrcpy (view [105, 110, 105, 116]) 3 = [105, 110, 0] \<and>
   cstring (view (safestrcpy (view [105, 110, 105, 116]) 3)) 3 = [105, 110]"
proof -
  have h: "0 < (3 :: nat)" by simp
  have "safestrcpy (view [105, 110, 105, 116]) 3 = [105, 110, 0]" by (simp add: numeral_3_eq_3)
  moreover have e: "(3 :: nat) - 1 = Suc (Suc 0)" by simp
  ultimately show ?thesis
    using safestrcpy_terminates_string[OF h, of "view [105, 110, 105, 116]", unfolded e] by simp
qed

lemma strlen_from_first_nul:
  "s (n + k) = 0 \<Longrightarrow> (\<And>i. i < k \<Longrightarrow> s (n + i) \<noteq> 0) \<Longrightarrow> strlen_from s n = Some (n + k)"
proof (induction k arbitrary: n)
  case 0
  then show ?case by (simp add: strlen_from.simps)
next
  case (Suc k)
  have "s n \<noteq> 0" using Suc.prems(2)[of 0] by simp
  moreover have "strlen_from s (Suc n) = Some (Suc n + k)"
    using Suc.prems(1) Suc.prems(2)[of "Suc i" for i] by (intro Suc.IH) simp_all
  ultimately show ?case by (subst strlen_from.simps) simp
qed

lemma strlen_first_nul: "s k = 0 \<Longrightarrow> (\<And>i. i < k \<Longrightarrow> s i \<noteq> 0) \<Longrightarrow> strlen s = Some k"
  using strlen_from_first_nul[of s 0 k] by (simp add: strlen_def)

end
