(* ===== verification/Kalloc.thy ===== *)
theory Kalloc
  imports Console_Out CString "HOL-Library.Multiset"
begin

text \<open>
  The physical page allocator (\<^verbatim>\<open>kalloc.c\<close>).  The free list is threaded through the free pages
  themselves: the first word of a free page is the address of the next one.  The model keeps it
  that way, in the byte memory, and relates it to an abstract list of pages.  The linker symbol
  \<^verbatim>\<open>end\<close> is the field \<open>kern_end\<close>.
\<close>

section \<open>State\<close>

record kmem = conout +
  mem :: memory  \<comment> \<open>physical memory, at its kernel virtual addresses\<close>
  use_lock :: bool
  freelist :: u32
  kern_end :: u32

definition PGSIZE :: u32 where "PGSIZE = 4096"
definition KERNBASE :: u32 where "KERNBASE = 0x80000000"
definition PHYSTOP :: u32 where "PHYSTOP = 0xE000000"

definition PGROUNDUP :: "u32 \<Rightarrow> u32" where
  "PGROUNDUP sz = (sz + PGSIZE - 1) AND NOT (PGSIZE - 1)"

definition PGROUNDDOWN :: "u32 \<Rightarrow> u32" where
  "PGROUNDDOWN a = a AND NOT (PGSIZE - 1)"

definition V2P :: "u32 \<Rightarrow> u32" where "V2P a = a - KERNBASE"
definition P2V :: "u32 \<Rightarrow> u32" where "P2V a = a + KERNBASE"

section \<open>Operations\<close>

definition kfree :: "u32 \<Rightarrow> (unit, 'z kmem_scheme) km" where
  "kfree v =
     kbind (kget kern_end) (\<lambda>end.
     if v mod PGSIZE \<noteq> 0 \<or> v < end \<or> V2P v \<ge> PHYSTOP then panic ''kfree''
     else
       kthen (kmod (\<lambda>s. s\<lparr>mem := memset (mem s) v 1 PGSIZE\<rparr>))
       (kbind (kget use_lock) (\<lambda>ul.
        kthen (kwhen ul (acquire LkKmem))
       (kthen (kmod (\<lambda>s. s\<lparr>mem := store32 (mem s) v (freelist s)\<rparr>))
       (kthen (kmod (\<lambda>s. s\<lparr>freelist := v\<rparr>))
        (kbind (kget use_lock) (\<lambda>ul. kwhen ul (release LkKmem))))))))"

definition kalloc :: "(u32, 'z kmem_scheme) km" where
  "kalloc =
     kbind (kget use_lock) (\<lambda>ul.
     kthen (kwhen ul (acquire LkKmem))
     (kbind (kget freelist) (\<lambda>r.
      kthen (kwhen (r \<noteq> 0) (kmod (\<lambda>s. s\<lparr>freelist := load32 (mem s) r\<rparr>)))
      (kbind (kget use_lock) (\<lambda>ul.
       kthen (kwhen ul (release LkKmem))
       (ret r))))))"

text \<open>The loop \<^verbatim>\<open>for(; p + PGSIZE <= vend; p += PGSIZE)\<close>.  A pointer sum beyond the address space is
  undefined in C.\<close>

function freerange_loop :: "u32 \<Rightarrow> u32 \<Rightarrow> (unit, 'z kmem_scheme) km" where
  "freerange_loop p vend =
     (if unat p + 4096 \<ge> 2 ^ 32 then fault ''p + PGSIZE''
      else if p + PGSIZE \<le> vend then kthen (kfree p) (freerange_loop (p + PGSIZE) vend)
      else ret ())"
  by pat_completeness auto
termination
  by (relation "measure (\<lambda>(p, vend). 2 ^ 32 - unat p)")
    (auto simp: PGSIZE_def unat_word_ariths)

declare freerange_loop.simps [simp del]

definition freerange :: "u32 \<Rightarrow> u32 \<Rightarrow> (unit, 'z kmem_scheme) km" where
  "freerange vstart vend = freerange_loop (PGROUNDUP vstart) vend"

definition kinit1 :: "u32 \<Rightarrow> u32 \<Rightarrow> (unit, 'z kmem_scheme) km" where
  "kinit1 vstart vend =
     kthen (initlock LkKmem ''kmem'')
     (kthen (kmod (\<lambda>s. s\<lparr>use_lock := False\<rparr>))
      (freerange vstart vend))"

definition kinit2 :: "u32 \<Rightarrow> u32 \<Rightarrow> (unit, 'z kmem_scheme) km" where
  "kinit2 vstart vend =
     kthen (freerange vstart vend) (kmod (\<lambda>s. s\<lparr>use_lock := True\<rparr>))"

section \<open>Pages\<close>

definition aligned :: "u32 \<Rightarrow> bool" where
  "aligned v \<longleftrightarrow> v mod PGSIZE = 0"

lemma aligned_unat: "aligned v \<longleftrightarrow> 4096 dvd unat v"
  by (simp add: aligned_def PGSIZE_def word_unat_eq_iff unat_mod dvd_eq_mod_eq_0)

lemma unat_PGROUNDDOWN: "unat (PGROUNDDOWN a) = unat a div 4096 * 4096"
proof -
  have m: "(4095 :: u32) = mask 12" by (simp add: mask_eq_exp_minus_1)
  have "a - take_bit 12 a = a AND NOT (take_bit 12 a)"
    by (rule disjunctive_diff) (simp add: bit_take_bit_iff)
  also have "\<dots> = PGROUNDDOWN a"
    by (auto simp: PGROUNDDOWN_def PGSIZE_def m bit_simps intro: bit_word_eqI)
  finally have "PGROUNDDOWN a = a - a mod 4096" by (simp add: take_bit_eq_mod)
  moreover have "a mod 4096 \<le> a" by (simp add: word_le_nat_alt unat_mod)
  ultimately have "unat (PGROUNDDOWN a) = unat a - unat a mod 4096"
    by (simp only: unat_sub unat_mod) simp
  then show ?thesis by (simp only: minus_mod_eq_div_mult)
qed

lemma aligned_PGROUNDDOWN [simp]: "aligned (PGROUNDDOWN a)"
  by (simp add: aligned_unat unat_PGROUNDDOWN)

lemma PGROUNDUP_eq: "PGROUNDUP a = PGROUNDDOWN (a + 4095)"
  by (simp add: PGROUNDUP_def PGROUNDDOWN_def PGSIZE_def add.commute)

lemma aligned_PGROUNDUP [simp]: "aligned (PGROUNDUP a)"
  by (simp add: PGROUNDUP_eq)

lemma unat_PGROUNDUP: "unat a + 4095 < 2 ^ 32 \<Longrightarrow> unat (PGROUNDUP a) = (unat a + 4095) div 4096 * 4096"
  using unat_offset[of a 4095] by (simp add: PGROUNDUP_eq unat_PGROUNDDOWN)

text \<open>The bytes of the page at \<open>v\<close>.\<close>

definition in_page :: "u32 \<Rightarrow> u32 \<Rightarrow> bool" where
  "in_page v b \<longleftrightarrow> unat b div 4096 = unat v div 4096"

lemma aligned_space: "aligned v \<Longrightarrow> i < 4096 \<Longrightarrow> unat v + i < 2 ^ 32"
proof -
  assume a: "aligned v" "i < 4096"
  then obtain k where k: "unat v = 4096 * k" by (auto simp: aligned_unat dvd_def)
  moreover have "unat v < 2 ^ 32" using unat_u32_less[of v] by simp
  ultimately have "k < 2 ^ 20" by simp
  then have "k + 1 \<le> 2 ^ 20" by simp
  then have "4096 * (k + 1) \<le> 4096 * 2 ^ 20" using mult_le_mono2 by blast
  then show ?thesis using k a by simp
qed

lemma in_page_offset: "aligned v \<Longrightarrow> i < 4096 \<Longrightarrow> in_page v (v + word_of_nat i)"
  using aligned_space[of v i] by (auto simp: in_page_def unat_offset aligned_unat dvd_def)

lemma in_page_iff:
  assumes "aligned v"
  shows "in_page v b \<longleftrightarrow> (\<exists>i < 4096. b = v + word_of_nat i)"
proof
  assume b: "in_page v b"
  obtain k where k: "unat v = 4096 * k" using assms by (auto simp: aligned_unat dvd_def)
  with b have "unat b = unat v + unat b mod 4096"
    by (simp add: in_page_def) (metis mult_div_mod_eq)
  then have "b = v + word_of_nat (unat b mod 4096)"
    using unat_offset[OF aligned_space[OF assms], of "unat b mod 4096"]
    by (simp add: word_unat_eq_iff)
  then show "\<exists>i < 4096. b = v + word_of_nat i" by (intro exI[of _ "unat b mod 4096"]) simp
qed (use in_page_offset assms in blast)

lemma in_page_same: "aligned v \<Longrightarrow> aligned w \<Longrightarrow> in_page v b \<Longrightarrow> in_page w b \<Longrightarrow> v = w"
  by (auto simp: in_page_def aligned_unat dvd_def intro: word_unat_eq_iff[THEN iffD2])

lemma memset_page:
  assumes "aligned v"
  shows "memset m v c PGSIZE b = (if in_page v b then ucast c else m b)"
proof (cases "in_page v b")
  case True
  then show ?thesis
    using assms stosb_inside[of _ 4096 m v "ucast c"]
    by (auto simp: memset_stosb PGSIZE_def in_page_iff)
next
  case False
  then show ?thesis
    using assms stosb_outside[of 4096 b v m "ucast c"]
    by (auto simp: memset_stosb PGSIZE_def in_page_iff)
qed

lemma word_bytes_in_page:
  assumes "aligned v"
  shows "in_page v v" "in_page v (v + 1)" "in_page v (v + 2)" "in_page v (v + 3)"
  using in_page_offset[OF assms, of 0] in_page_offset[OF assms, of 1]
    in_page_offset[OF assms, of 2] in_page_offset[OF assms, of 3] by simp_all

lemma store32_other_page: "aligned v \<Longrightarrow> \<not> in_page v b \<Longrightarrow> store32 m v x b = m b"
  using word_bytes_in_page[of v] by (intro store32_other) auto

lemma load32_cong_page:
  "aligned v \<Longrightarrow> (\<And>b. in_page v b \<Longrightarrow> m b = m' b) \<Longrightarrow> load32 m v = load32 m' v"
  using word_bytes_in_page[of v] by (simp add: load32_def)

section \<open>The free list\<close>

definition page_ok :: "u32 \<Rightarrow> u32 \<Rightarrow> bool" where
  "page_ok end v \<longleftrightarrow> aligned v \<and> end \<le> v \<and> V2P v < PHYSTOP"

text \<open>The pages a free list starting at \<open>p\<close> threads through the memory.\<close>

fun flist :: "memory \<Rightarrow> u32 \<Rightarrow> u32 list \<Rightarrow> bool" where
  "flist m p [] \<longleftrightarrow> p = 0"
| "flist m p (v # vs) \<longleftrightarrow> p = v \<and> v \<noteq> 0 \<and> flist m (load32 m v) vs"

definition free_pages :: "'z kmem_scheme \<Rightarrow> u32 list \<Rightarrow> bool" where
  "free_pages s vs \<longleftrightarrow> flist (mem s) (freelist s) vs \<and> distinct vs \<and>
     (\<forall>v \<in> set vs. page_ok (kern_end s) v) \<and> 0 < kern_end s"

text \<open>The allocator can take its lock when it has to.\<close>

definition kmem_ready :: "'z kmem_scheme \<Rightarrow> bool" where
  "kmem_ready s \<longleftrightarrow> cpu_stable (this_cpu s) \<and> lk_free LkKmem s"

lemma quiet_kmem_ready [simp]: "quiet s \<Longrightarrow> kmem_ready s"
  by (simp add: kmem_ready_def)

lemma flist_cong:
  "(\<And>v b. v \<in> set vs \<Longrightarrow> in_page v b \<Longrightarrow> m' b = m b) \<Longrightarrow> \<forall>v \<in> set vs. aligned v \<Longrightarrow>
   flist m' p vs = flist m p vs"
proof (induction vs arbitrary: p)
  case (Cons v vs)
  have "load32 m' v = load32 m v" using Cons.prems by (intro load32_cong_page) auto
  moreover have "flist m' q vs = flist m q vs" for q using Cons.prems by (intro Cons.IH) auto
  ultimately show ?case by simp
qed simp

lemma flist_unique: "flist m p vs \<Longrightarrow> flist m p ws \<Longrightarrow> vs = ws"
proof (induction vs arbitrary: p ws)
  case Nil
  then show ?case by (cases ws) auto
next
  case (Cons v vs)
  then show ?case by (cases ws) auto
qed

text \<open>Writing to pages that are not free keeps the free list.\<close>

lemma free_pages_mem_update:
  assumes "free_pages s vs" and "\<And>v b. v \<in> set vs \<Longrightarrow> in_page v b \<Longrightarrow> m b = mem s b"
  shows "free_pages (s\<lparr>mem := m\<rparr>) vs"
  using assms flist_cong[of vs m "mem s" "freelist s"]
  by (auto simp: free_pages_def page_ok_def)

lemma kalloc_eq:
  assumes "kmem_ready s"
  shows "kalloc s = Ret (freelist s)
     (if freelist s = 0 then s else s\<lparr>freelist := load32 (mem s) (freelist s)\<rparr>)"
  using assms by (auto simp: kalloc_def kmem_ready_def kwhen_def lock_eval)

lemma kfree_eq:
  assumes "kmem_ready s" and "page_ok (kern_end s) v"
  shows "kfree v s = Ret () (s\<lparr>mem := store32 (memset (mem s) v 1 PGSIZE) v (freelist s), freelist := v\<rparr>)"
  using assms by (auto simp: kfree_def kmem_ready_def kwhen_def page_ok_def aligned_def lk_free_def
      lock_eval)

lemma kfree_panics: "\<not> page_ok (kern_end s) v \<Longrightarrow> kfree v s = Panic ''kfree''"
  by (auto simp: kfree_def keval page_ok_def aligned_def mod_eq_0_iff_dvd not_le not_less)

section \<open>The allocator as an interface\<close>

text \<open>What clients rely on: \<open>pages s vs\<close> says which pages are free, \<open>page s v\<close> that \<open>v\<close> is a page the
  allocator manages, \<open>mm\<close> reads the memory.\<close>

locale page_allocator =
  fixes pages :: "'s \<Rightarrow> u32 list \<Rightarrow> bool"
    and ready :: "'s \<Rightarrow> bool"
    and page :: "'s \<Rightarrow> u32 \<Rightarrow> bool"
    and mm :: "'s \<Rightarrow> memory"
    and alloc :: "(u32, 's) km"
    and free :: "u32 \<Rightarrow> (unit, 's) km"
  assumes pages_distinct: "pages s vs \<Longrightarrow> distinct vs"
    and pages_page: "pages s vs \<Longrightarrow> v \<in> set vs \<Longrightarrow> page s v \<and> v \<noteq> 0"
    and alloc_some: "pages s (v # vs) \<Longrightarrow> ready s \<Longrightarrow>
      \<exists>t. alloc s = Ret v t \<and> pages t vs \<and> ready t \<and> page t = page s \<and> mm t = mm s"
    and alloc_none: "pages s [] \<Longrightarrow> ready s \<Longrightarrow> alloc s = Ret 0 s"
    and free_page: "pages s vs \<Longrightarrow> ready s \<Longrightarrow> page s v \<Longrightarrow> v \<notin> set vs \<Longrightarrow>
      \<exists>t. free v s = Ret () t \<and> pages t (v # vs) \<and> ready t \<and> page t = page s \<and>
          (\<forall>b. \<not> in_page v b \<longrightarrow> mm t b = mm s b)"
begin

lemma alloc_cases:
  assumes "pages s vs" and "ready s"
  obtains (none) "vs = []" "alloc s = Ret 0 s"
  | (some) v ws t where "vs = v # ws" "alloc s = Ret v t" "pages t ws" "ready t" "page t = page s"
      "mm t = mm s" "v \<noteq> 0" "page s v"
proof (cases vs)
  case Nil
  then show ?thesis using none alloc_none assms by blast
next
  case (Cons v ws)
  with alloc_some[of s v ws] assms pages_page[of s vs v] some show ?thesis by auto
qed

end

text \<open>A client of the allocator: it allocates pages and frees pages it holds.\<close>

datatype kop = KAlloc | KFree nat

fun kmem_client :: "(u32, 's) km \<Rightarrow> (u32 \<Rightarrow> (unit, 's) km) \<Rightarrow> kop list \<Rightarrow> u32 list \<Rightarrow> (u32 list, 's) km" where
  "kmem_client alloc free [] held = ret held"
| "kmem_client alloc free (KAlloc # ops) held =
     kbind alloc (\<lambda>v. kmem_client alloc free ops (if v = 0 then held else v # held))"
| "kmem_client alloc free (KFree i # ops) held =
     (if i < length held
      then kthen (free (held ! i)) (kmem_client alloc free ops (take i held @ drop (Suc i) held))
      else kmem_client alloc free ops held)"

lemma mset_remove_nth: "i < length xs \<Longrightarrow> mset (take i xs @ drop (Suc i) xs) + {#xs ! i#} = mset xs"
  by (metis add.commute add_mset_add_single append_take_drop_id id_take_nth_drop mset.simps(2) mset_append
      union_mset_add_mset_right)

context page_allocator
begin

lemma client_conserves:
  assumes "pages s vs" and "ready s" and "distinct (held @ vs)" and "\<forall>v \<in> set held. page s v"
  shows "\<exists>held' t ws. kmem_client alloc free ops held s = Ret held' t \<and> pages t ws \<and> ready t \<and>
           mset held' + mset ws = mset held + mset vs"
  using assms
proof (induction ops arbitrary: s vs held)
  case Nil
  then show ?case by auto
next
  case (Cons op ops)
  show ?case
  proof (cases op)
    case KAlloc
    show ?thesis
      using Cons.prems(1,2)
    proof (cases rule: alloc_cases)
      case none
      then show ?thesis using Cons.IH[of s "[]" held] Cons.prems KAlloc by (simp add: kbind_apply)
    next
      case (some v ws t)
      have "\<exists>held' u ws'. kmem_client alloc free ops (v # held) t = Ret held' u \<and> pages u ws' \<and>
          ready u \<and> mset held' + mset ws' = mset (v # held) + mset ws"
        using some Cons.prems by (intro Cons.IH) auto
      then show ?thesis using some KAlloc by (simp add: kbind_apply)
    qed
  next
    case (KFree i)
    show ?thesis
    proof (cases "i < length held")
      case True
      define rest where "rest = take i held @ drop (Suc i) held"
      have held: "mset held = add_mset (held ! i) (mset rest)"
        using mset_remove_nth[OF True] by (simp add: rest_def)
      then have set: "set held = insert (held ! i) (set rest)" by (metis set_mset_add_mset_insert set_mset_mset)
      have "mset (held @ vs) = mset (held ! i # rest @ vs)" using held by simp
      then have dist: "distinct (held ! i # rest @ vs)" using Cons.prems(3) mset_eq_imp_distinct_iff by blast
      obtain t where t: "free (held ! i) s = Ret () t" "pages t (held ! i # vs)" "ready t" "page t = page s"
        using free_page[of s vs "held ! i"] Cons.prems dist set by auto
      have "\<exists>held' u ws'. kmem_client alloc free ops rest t = Ret held' u \<and> pages u ws' \<and>
          ready u \<and> mset held' + mset ws' = mset rest + mset (held ! i # vs)"
        using t dist set Cons.prems by (intro Cons.IH) auto
      then show ?thesis using t True KFree held by (simp add: kthen_apply rest_def)
    next
      case False
      then show ?thesis using Cons.IH[OF Cons.prems] KFree by simp
    qed
  qed
qed

end

interpretation kmem: page_allocator free_pages kmem_ready "\<lambda>s. page_ok (kern_end s)" mem kalloc kfree
proof (unfold_locales, goal_cases)
  case (1 s vs)
  then show ?case by (simp add: free_pages_def)
next
  case (2 s vs v)
  then show ?case by (auto simp: free_pages_def page_ok_def)
next
  case (3 s v vs)
  then show ?case by (auto simp: kalloc_eq free_pages_def kmem_ready_def lk_free_def)
next
  case (4 s)
  then show ?case by (simp add: kalloc_eq free_pages_def)
next
  case (5 s vs v)
  let ?m = "store32 (memset (mem s) v 1 PGSIZE) v (freelist s)"
  have v: "aligned v" "v \<noteq> 0" using 5 by (auto simp: page_ok_def free_pages_def)
  have frame: "\<not> in_page v b \<Longrightarrow> ?m b = mem s b" for b
    using v by (simp add: store32_other_page memset_page)
  have "flist ?m p vs = flist (mem s) p vs" for p
    using 5 frame v in_page_same[of v]
    by (intro flist_cong) (auto simp: free_pages_def page_ok_def)
  then show ?case
    using 5 frame v by (auto simp: kfree_eq free_pages_def kmem_ready_def lk_free_def)
qed

section \<open>Properties\<close>

text \<open>C15. No page is handed out twice and none is lost: a client that allocates and frees pages it
  holds, in any order, never makes the allocator panic, and at the end the pages it holds and the
  free pages are all distinct and together are exactly the pages that were free at the start.\<close>

theorem kmem_no_double_allocation:
  assumes "free_pages s vs" and "kmem_ready s"
  shows "\<exists>held t ws. kmem_client kalloc kfree ops [] s = Ret held t \<and> free_pages t ws \<and> kmem_ready t \<and>
           distinct (held @ ws) \<and> mset held + mset ws = mset vs"
proof -
  have d: "distinct vs" using assms(1) by (rule kmem.pages_distinct)
  with kmem.client_conserves[of s vs "[]" ops] assms obtain held t ws where
    r: "kmem_client kalloc kfree ops [] s = Ret held t" "free_pages t ws" "kmem_ready t"
      "mset held + mset ws = mset vs" by auto
  then have "mset (held @ ws) = mset vs" by simp
  then have "distinct (held @ ws)" using d mset_eq_imp_distinct_iff by blast
  with r show ?thesis by blast
qed

text \<open>A booted machine with one free page, at 4 MB.\<close>

definition one_page :: kmem where
  "one_page = \<lparr>locks = \<lambda>_. \<lparr>locked = 0, lkname = ''kmem'', lkcpu = None\<rparr>,
     cpus = \<lambda>_. \<lparr>ncli = 0, intena = True, ifl = True, cproc = None\<rparr>, mycpu = 0,
     panicked = False, cons_locking = True, uart = False, uart_out = [], crt = \<lambda>_. 0, crtpos = 0,
     mem = \<lambda>_. 0, use_lock = True, freelist = 0x80400000, kern_end = 0x80110000\<rparr>"

lemma one_page_free: "free_pages one_page [0x80400000]" "kmem_ready one_page"
  by (simp_all add: free_pages_def one_page_def load32_def join32_def page_ok_def aligned_def PGSIZE_def
      V2P_def KERNBASE_def PHYSTOP_def kmem_ready_def cpu_stable_def lk_free_def)

theorem kmem_no_double_allocation_witness:
  "free_pages one_page [0x80400000] \<and> kmem_ready one_page \<and>
   (\<exists>held t ws. kmem_client kalloc kfree [KAlloc, KAlloc, KFree 0, KAlloc] [] one_page = Ret held t \<and>
      free_pages t ws \<and> kmem_ready t \<and> distinct (held @ ws) \<and>
      mset held + mset ws = mset [0x80400000])"
  using kmem_no_double_allocation[OF one_page_free] one_page_free by blast

subsection \<open>Initialisation\<close>

text \<open>The pages from \<open>p\<close> that fit below \<open>vend\<close>.\<close>

definition range_pages :: "u32 \<Rightarrow> u32 \<Rightarrow> u32 list" where
  "range_pages p vend = map (\<lambda>i. p + word_of_nat (4096 * i)) [0..<(unat vend - unat p) div 4096]"

lemma range_pages_step:
  assumes "unat p + 4096 < 2 ^ 32" and "p + PGSIZE \<le> vend"
  shows "range_pages p vend = p # range_pages (p + PGSIZE) vend"
proof -
  have u: "unat (p + PGSIZE) = unat p + 4096"
    using unat_offset[of p 4096] assms(1) by (simp add: PGSIZE_def)
  then have le: "unat p + 4096 \<le> unat vend" using assms(2) by (simp add: word_le_nat_alt)
  define n where "n = (unat vend - (unat p + 4096)) div 4096"
  have "(unat vend - unat p) div 4096 = Suc n"
    using le unfolding n_def by (subst div_if) (simp add: diff_diff_left)
  moreover have "p + word_of_nat (4096 * Suc i) = p + PGSIZE + word_of_nat (4096 * i)" for i
    by (simp add: PGSIZE_def)
  ultimately show ?thesis
    unfolding range_pages_def u n_def[symmetric]
    by (simp only: upt_conv_Cons[of 0 "Suc n"] map_Suc_upt[symmetric] list.map map_map comp_def) simp
qed

lemma range_pages_end:
  assumes "unat p + 4096 < 2 ^ 32" and "\<not> p + PGSIZE \<le> vend"
  shows "range_pages p vend = []"
  using assms unat_offset[of p 4096]
  by (simp add: range_pages_def PGSIZE_def word_le_nat_alt)

lemma page_ok_in_range:
  assumes "aligned p" and "e \<le> p" and "KERNBASE \<le> e" and "unat p < 0x8E000000"
  shows "page_ok e p"
proof -
  have "KERNBASE \<le> p" using assms by (metis order_trans)
  then have "unat (V2P p) = unat p - 0x80000000"
    by (simp add: V2P_def unat_sub KERNBASE_def)
  then have "unat (V2P p) < 0xE000000" using assms(4) by linarith
  then show ?thesis using assms by (simp add: page_ok_def PHYSTOP_def word_less_nat_alt)
qed

lemma freerange_loop_frees:
  assumes "free_pages s vs" and "kmem_ready s" and "aligned p" and "kern_end s \<le> p"
    and "KERNBASE \<le> kern_end s" and "unat p \<le> 0x8E000000" and "unat vend \<le> 0x8E000000"
    and "\<forall>v \<in> set vs. v < p \<or> vend \<le> v"
  shows "\<exists>t. freerange_loop p vend s = Ret () t \<and> free_pages t (rev (range_pages p vend) @ vs) \<and>
    kmem_ready t \<and> kern_end t = kern_end s \<and> use_lock t = use_lock s"
  using assms
proof (induction p vend arbitrary: s vs rule: freerange_loop.induct)
  case (1 p vend)
  have sp: "unat p + 4096 < 2 ^ 32" using 1 by simp
  have u: "unat (p + PGSIZE) = unat p + 4096"
    using unat_offset[of p 4096] sp by (simp add: PGSIZE_def)
  show ?case
  proof (cases "p + PGSIZE \<le> vend")
    case True
    then have le: "unat p + 4096 \<le> unat vend" using u by (simp add: word_le_nat_alt)
    then have ok: "page_ok (kern_end s) p" using 1 by (intro page_ok_in_range) auto
    have "p \<notin> set vs" using 1 le by (auto simp: word_le_nat_alt word_less_nat_alt)
    then obtain t where t: "kfree p s = Ret () t" "free_pages t (p # vs)" "kmem_ready t"
      using kmem.free_page[of s vs p] "1.prems" ok by blast
    have same: "kern_end t = kern_end s" "use_lock t = use_lock s"
      using t(1) kfree_eq[of s p] ok "1.prems" by auto
    have al: "aligned (p + PGSIZE)"
      using "1.prems" u by (simp add: aligned_unat)
    have "\<exists>t'. freerange_loop (p + PGSIZE) vend t = Ret () t' \<and>
        free_pages t' (rev (range_pages (p + PGSIZE) vend) @ p # vs) \<and>
        kmem_ready t' \<and> kern_end t' = kern_end t \<and> use_lock t' = use_lock t"
      using 1(2-) t same al le u sp True
      by (intro "1.IH") (auto simp: word_le_nat_alt word_less_nat_alt)
    then show ?thesis
      using t same sp True
      by (subst freerange_loop.simps) (simp add: kthen_apply range_pages_step)
  next
    case False
    then show ?thesis
      using 1(2-) sp by (subst freerange_loop.simps) (simp add: range_pages_end)
  qed
qed

lemma set_range_pages:
  assumes "aligned p" and "aligned vend" and "p \<le> vend"
  shows "set (range_pages p vend) = {v. aligned v \<and> p \<le> v \<and> v < vend}"
proof -
  obtain a where a: "unat p = 4096 * a" using assms(1) by (auto simp: aligned_unat dvd_def)
  obtain b where b: "unat vend = 4096 * b" using assms(2) by (auto simp: aligned_unat dvd_def)
  have "a \<le> b" using assms(3) a b by (simp add: word_le_nat_alt)
  have n: "(unat vend - unat p) div 4096 = b - a" using a b by (simp flip: diff_mult_distrib2)
  have lim: "4096 * b < 2 ^ 32" using unat_u32_less[of vend] b by simp
  have u: "unat (p + word_of_nat (4096 * i)) = 4096 * (a + i)" if "i < b - a" for i
    using that lim a by (subst unat_offset) auto
  show ?thesis
  proof (intro set_eqI iffI)
    fix v assume "v \<in> set (range_pages p vend)"
    then obtain i where "i < b - a" "v = p + word_of_nat (4096 * i)"
      by (auto simp: range_pages_def n)
    then show "v \<in> {v. aligned v \<and> p \<le> v \<and> v < vend}"
      using u[of i] a b by (simp add: aligned_unat word_le_nat_alt word_less_nat_alt)
  next
    fix v assume "v \<in> {v. aligned v \<and> p \<le> v \<and> v < vend}"
    moreover from this obtain c where c: "unat v = 4096 * c" by (auto simp: aligned_unat dvd_def)
    ultimately have ac: "a \<le> c" "c < b" using a b by (auto simp: word_le_nat_alt word_less_nat_alt)
    then have "v = p + word_of_nat (4096 * (c - a))"
      using c u[of "c - a"] by (simp add: word_unat_eq_iff)
    moreover have "c - a < b - a" using ac by simp
    ultimately show "v \<in> set (range_pages p vend)" by (auto simp: range_pages_def n)
  qed
qed

lemma round_up_le: "(e + 4095) div 4096 * 4096 \<le> 4096 * c \<longleftrightarrow> e \<le> 4096 * c" for e c :: nat
proof -
  have "(e + 4095) div 4096 \<le> c \<longleftrightarrow> (e + 4095) div 4096 < c + 1" by linarith
  also have "\<dots> \<longleftrightarrow> e \<le> 4096 * c" by (simp add: div_less_iff_less_mult) arith
  finally show ?thesis by simp
qed

lemma page_ok_range:
  assumes "KERNBASE \<le> e" and "unat e + 4095 < 2 ^ 32"
  shows "page_ok e v \<longleftrightarrow> aligned v \<and> PGROUNDUP e \<le> v \<and> v < 0x8E000000"
proof (cases "aligned v")
  case True
  then obtain c where c: "unat v = 4096 * c" by (auto simp: aligned_unat dvd_def)
  have "PGROUNDUP e \<le> v \<longleftrightarrow> e \<le> v"
    unfolding word_le_nat_alt unat_PGROUNDUP[OF assms(2)] c by (rule round_up_le)
  moreover have "V2P v < PHYSTOP \<longleftrightarrow> v < 0x8E000000" if "e \<le> v"
  proof -
    have "KERNBASE \<le> v" using assms that by (metis order_trans)
    then have "unat (V2P v) = unat v - 0x80000000" "0x80000000 \<le> unat v"
      by (simp_all add: V2P_def unat_sub KERNBASE_def word_le_nat_alt)
    then show ?thesis by (simp add: PHYSTOP_def word_less_nat_alt) linarith
  qed
  ultimately show ?thesis using True by (auto simp: page_ok_def)
qed (simp add: page_ok_def)



end
