(* ===== verification/Vm.thy ===== *)
theory Vm
  imports Kalloc
begin

text \<open>
  Page tables (\<^verbatim>\<open>vm.c\<close>).  Page directories and page tables are the pages of the byte memory the
  hardware walks; every operation reads and writes their entries there.  \<open>cr3\<close> and \<open>esp0\<close> hold, per
  CPU, the page directory base register and the kernel stack entry of the task state segment.  The
  linker symbol \<^verbatim>\<open>data\<close> is the field \<open>sym_data\<close>.  \<^verbatim>\<open>loaduvm\<close>, which reads a file, is not part of this
  theory.
\<close>

section \<open>State and layout\<close>

record vm = kmem +
  kpgdir :: u32
  cr3 :: "nat \<Rightarrow> u32"
  esp0 :: "nat \<Rightarrow> u32"
  sym_data :: u32

definition EXTMEM :: u32 where "EXTMEM = 0x100000"
definition DEVSPACE :: u32 where "DEVSPACE = 0xFE000000"
definition KERNLINK :: u32 where "KERNLINK = KERNBASE + EXTMEM"
definition KSTACKSIZE :: u32 where "KSTACKSIZE = 4096"

definition PTE_P :: u32 where "PTE_P = 1"
definition PTE_W :: u32 where "PTE_W = 2"
definition PTE_U :: u32 where "PTE_U = 4"

definition PTE_ADDR :: "u32 \<Rightarrow> u32" where "PTE_ADDR pte = pte AND NOT 0xFFF"
definition PTE_FLAGS :: "u32 \<Rightarrow> u32" where "PTE_FLAGS pte = pte AND 0xFFF"
definition PDX :: "u32 \<Rightarrow> u32" where "PDX va = drop_bit 22 va AND 0x3FF"
definition PTX :: "u32 \<Rightarrow> u32" where "PTX va = drop_bit 12 va AND 0x3FF"

definition rd32 :: "u32 \<Rightarrow> (u32, 'z kmem_scheme) km" where
  "rd32 a = kget (\<lambda>s. load32 (mem s) a)"

definition wr32 :: "u32 \<Rightarrow> u32 \<Rightarrow> (unit, 'z kmem_scheme) km" where
  "wr32 a v = kmod (\<lambda>s. s\<lparr>mem := store32 (mem s) a v\<rparr>)"

primrec put_bytes :: "memory \<Rightarrow> u32 \<Rightarrow> u8 list \<Rightarrow> memory" where
  "put_bytes m a [] = m"
| "put_bytes m a (b # bs) = put_bytes (m(a := b)) (a + 1) bs"

section \<open>Walking and mapping\<close>

text \<open>The address of the page table entry for \<open>va\<close>, or 0.\<close>

definition walkpgdir :: "u32 \<Rightarrow> u32 \<Rightarrow> bool \<Rightarrow> (u32, 'z kmem_scheme) km" where
  "walkpgdir pgdir va alloc =
     (let pde = pgdir + 4 * PDX va in
      kbind (rd32 pde) (\<lambda>e.
      if e AND PTE_P \<noteq> 0 then ret (P2V (PTE_ADDR e) + 4 * PTX va)
      else if \<not> alloc then ret 0
      else
        kbind kalloc (\<lambda>pgtab.
        if pgtab = 0 then ret 0
        else
          kthen (kmod (\<lambda>s. s\<lparr>mem := memset (mem s) pgtab 0 PGSIZE\<rparr>))
          (kthen (wr32 pde (V2P pgtab OR PTE_P OR PTE_W OR PTE_U))
           (ret (pgtab + 4 * PTX va))))))"

text \<open>\<^verbatim>\<open>a\<close> and \<^verbatim>\<open>last\<close> are page aligned, so \<^verbatim>\<open>a == last\<close> exactly when they are less than a page apart.\<close>

function mappages_loop :: "u32 \<Rightarrow> u32 \<Rightarrow> u32 \<Rightarrow> u32 \<Rightarrow> u32 \<Rightarrow> (int, 'z kmem_scheme) km" where
  "mappages_loop pgdir a lst pa perm =
     kbind (walkpgdir pgdir a True) (\<lambda>pte.
     if pte = 0 then ret (- 1)
     else kbind (rd32 pte) (\<lambda>e.
     if e AND PTE_P \<noteq> 0 then panic ''remap''
     else kthen (wr32 pte (pa OR perm OR PTE_P))
     (if lst - a < PGSIZE then ret 0
      else mappages_loop pgdir (a + PGSIZE) lst (pa + PGSIZE) perm)))"
  by pat_completeness auto
termination
proof (relation "measure (\<lambda>(pgdir, a, lst, pa, perm). unat (lst - a))", simp, goal_cases)
  case (1 pgdir a lst pa perm x xa)
  then have "unat (lst - a - PGSIZE) = unat (lst - a) - 4096" "4096 \<le> unat (lst - a)"
    by (simp_all add: unat_sub PGSIZE_def not_less word_le_nat_alt)
  then have "unat (lst - a - PGSIZE) < unat (lst - a)" by simp
  then show ?case by (simp add: diff_diff_eq)
qed

declare mappages_loop.simps [simp del]

definition mappages :: "u32 \<Rightarrow> u32 \<Rightarrow> u32 \<Rightarrow> u32 \<Rightarrow> u32 \<Rightarrow> (int, 'z kmem_scheme) km" where
  "mappages pgdir va sz pa perm =
     mappages_loop pgdir (PGROUNDDOWN va) (PGROUNDDOWN (va + sz - 1)) pa perm"

section \<open>Kernel mappings\<close>

record kmap_entry =
  virt :: u32
  phys_start :: u32
  phys_end :: u32
  kperm :: u32

definition kmap :: "u32 \<Rightarrow> kmap_entry list" where
  "kmap data =
     [\<lparr>virt = KERNBASE, phys_start = 0, phys_end = EXTMEM, kperm = PTE_W\<rparr>,
      \<lparr>virt = KERNLINK, phys_start = V2P KERNLINK, phys_end = V2P data, kperm = 0\<rparr>,
      \<lparr>virt = data, phys_start = V2P data, phys_end = PHYSTOP, kperm = PTE_W\<rparr>,
      \<lparr>virt = DEVSPACE, phys_start = DEVSPACE, phys_end = 0, kperm = PTE_W\<rparr>]"

fun map_all :: "u32 \<Rightarrow> kmap_entry list \<Rightarrow> (int, 'z kmem_scheme) km" where
  "map_all pgdir [] = ret 0"
| "map_all pgdir (k # ks) =
     kbind (mappages pgdir (virt k) (phys_end k - phys_start k) (phys_start k) (kperm k)) (\<lambda>r.
     if r < 0 then ret (- 1) else map_all pgdir ks)"

definition setupkvm :: "(u32, 'z vm_scheme) km" where
  "setupkvm =
     kbind kalloc (\<lambda>pgdir.
     if pgdir = 0 then ret 0
     else
       kthen (kmod (\<lambda>s. s\<lparr>mem := memset (mem s) pgdir 0 PGSIZE\<rparr>))
       (if P2V PHYSTOP > DEVSPACE then panic ''PHYSTOP too high''
        else kbind (kget sym_data) (\<lambda>data.
             kbind (map_all pgdir (kmap data)) (\<lambda>r.
             if r < 0 then ret 0 else ret pgdir))))"

definition lcr3 :: "u32 \<Rightarrow> (unit, 'z vm_scheme) km" where
  "lcr3 v = kmod (\<lambda>s. s\<lparr>cr3 := (cr3 s)(mycpu s := v)\<rparr>)"

definition switchkvm :: "(unit, 'z vm_scheme) km" where
  "switchkvm = kbind (kget kpgdir) (\<lambda>d. lcr3 (V2P d))"

definition kvmalloc :: "(unit, 'z vm_scheme) km" where
  "kvmalloc =
     kbind setupkvm (\<lambda>d.
     kthen (kmod (\<lambda>s. s\<lparr>kpgdir := d\<rparr>)) switchkvm)"

text \<open>\<^verbatim>\<open>switchuvm(p)\<close>, given the kernel stack of the per-CPU variable \<^verbatim>\<open>proc\<close> and the page directory of
  \<^verbatim>\<open>p\<close>.\<close>

definition switchuvm :: "u32 \<Rightarrow> u32 \<Rightarrow> (unit, 'z vm_scheme) km" where
  "switchuvm stack pgdir =
     kthen pushcli
     (kthen (kmod (\<lambda>s. s\<lparr>esp0 := (esp0 s)(mycpu s := stack + KSTACKSIZE)\<rparr>))
     (if pgdir = 0 then panic ''switchuvm: no pgdir''
      else kthen (lcr3 (V2P pgdir)) popcli))"

section \<open>User memory\<close>

definition inituvm :: "u32 \<Rightarrow> u32 \<Rightarrow> u32 \<Rightarrow> (unit, 'z kmem_scheme) km" where
  "inituvm pgdir init sz =
     (if sz \<ge> PGSIZE then panic ''inituvm: more than a page''
      else kbind kalloc (\<lambda>mm.
           if mm = 0 then fault ''memset of a null page''
           else
             kthen (kmod (\<lambda>s. s\<lparr>mem := memset (mem s) mm 0 PGSIZE\<rparr>))
             (kbind (mappages pgdir 0 PGSIZE (V2P mm) (PTE_W OR PTE_U)) (\<lambda>_.
              kmod (\<lambda>s. s\<lparr>mem := memmove (mem s) mm init sz\<rparr>)))))"

definition NPTENTRIES :: u32 where "NPTENTRIES = 1024"

text \<open>The loops over user addresses stay below \<^verbatim>\<open>KERNBASE\<close> in every call of the kernel, so their
  counters do not wrap around; the model stops where one would.\<close>

function deallocuvm_loop :: "u32 \<Rightarrow> u32 \<Rightarrow> u32 \<Rightarrow> (unit, 'z kmem_scheme) km" where
  "deallocuvm_loop pgdir a oldsz =
     (if a < oldsz then
        if unat a + 4096 * 1024 \<ge> 2 ^ 32 then fault ''address wraps''
        else kbind (walkpgdir pgdir a False) (\<lambda>pte.
          if pte = 0 then deallocuvm_loop pgdir (a + (NPTENTRIES - 1) * PGSIZE + PGSIZE) oldsz
          else kbind (rd32 pte) (\<lambda>e.
            if e AND PTE_P \<noteq> 0 then
              let pa = PTE_ADDR e in
              if pa = 0 then panic ''kfree''
              else kthen (kfree (P2V pa))
                   (kthen (wr32 pte 0) (deallocuvm_loop pgdir (a + PGSIZE) oldsz))
            else deallocuvm_loop pgdir (a + PGSIZE) oldsz))
      else ret ())"
  by pat_completeness auto
termination
  by (relation "measure (\<lambda>(pgdir, a, oldsz). 2 ^ 32 - unat a)")
    (auto simp: PGSIZE_def NPTENTRIES_def unat_word_ariths)

declare deallocuvm_loop.simps [simp del]

definition deallocuvm :: "u32 \<Rightarrow> u32 \<Rightarrow> u32 \<Rightarrow> (u32, 'z kmem_scheme) km" where
  "deallocuvm pgdir oldsz newsz =
     (if newsz \<ge> oldsz then ret oldsz
      else kthen (deallocuvm_loop pgdir (PGROUNDUP newsz) oldsz) (ret newsz))"

function allocuvm_loop :: "u32 \<Rightarrow> u32 \<Rightarrow> u32 \<Rightarrow> u32 \<Rightarrow> (u32, 'z kmem_scheme) km" where
  "allocuvm_loop pgdir a oldsz newsz =
     (if a < newsz then
        if unat a + 4096 \<ge> 2 ^ 32 then fault ''address wraps''
        else kbind kalloc (\<lambda>mm.
          if mm = 0 then
            kthen (cprintf ''allocuvm out of memory\<newline>'' [])
            (kthen (deallocuvm pgdir newsz oldsz) (ret 0))
          else
            kthen (kmod (\<lambda>s. s\<lparr>mem := memset (mem s) mm 0 PGSIZE\<rparr>))
            (kbind (mappages pgdir a PGSIZE (V2P mm) (PTE_W OR PTE_U)) (\<lambda>r.
             if r < 0 then
               kthen (cprintf ''allocuvm out of memory (2)\<newline>'' [])
               (kthen (deallocuvm pgdir newsz oldsz) (kthen (kfree mm) (ret 0)))
             else allocuvm_loop pgdir (a + PGSIZE) oldsz newsz)))
      else ret newsz)"
  by pat_completeness auto
termination
  by (relation "measure (\<lambda>(pgdir, a, oldsz, newsz). 2 ^ 32 - unat a)")
    (auto simp: PGSIZE_def unat_word_ariths)

declare allocuvm_loop.simps [simp del]

definition allocuvm :: "u32 \<Rightarrow> u32 \<Rightarrow> u32 \<Rightarrow> (u32, 'z kmem_scheme) km" where
  "allocuvm pgdir oldsz newsz =
     (if newsz \<ge> KERNBASE then ret 0
      else if newsz < oldsz then ret oldsz
      else allocuvm_loop pgdir (PGROUNDUP oldsz) oldsz newsz)"

definition freevm :: "u32 \<Rightarrow> (unit, 'z kmem_scheme) km" where
  "freevm pgdir =
     (if pgdir = 0 then panic ''freevm: no pgdir''
      else
        kbind (deallocuvm pgdir KERNBASE 0) (\<lambda>_.
        kthen (kfor [0..<1024] (\<lambda>i.
          kbind (rd32 (pgdir + 4 * word_of_nat i)) (\<lambda>e.
          kwhen (e AND PTE_P \<noteq> 0) (kfree (P2V (PTE_ADDR e))))))
        (kfree pgdir)))"

definition clearpteu :: "u32 \<Rightarrow> u32 \<Rightarrow> (unit, 'z kmem_scheme) km" where
  "clearpteu pgdir uva =
     kbind (walkpgdir pgdir uva False) (\<lambda>pte.
     if pte = 0 then panic ''clearpteu''
     else kbind (rd32 pte) (\<lambda>e. wr32 pte (e AND NOT PTE_U)))"

function copyuvm_loop :: "u32 \<Rightarrow> u32 \<Rightarrow> u32 \<Rightarrow> u32 \<Rightarrow> (u32, 'z kmem_scheme) km" where
  "copyuvm_loop pgdir d i sz =
     (if i < sz then
        if unat i + 4096 \<ge> 2 ^ 32 then fault ''address wraps''
        else kbind (walkpgdir pgdir i False) (\<lambda>pte.
          if pte = 0 then panic ''copyuvm: pte should exist''
          else kbind (rd32 pte) (\<lambda>e.
            if e AND PTE_P = 0 then panic ''copyuvm: page not present''
            else kbind kalloc (\<lambda>mm.
              if mm = 0 then kthen (freevm d) (ret 0)
              else
                kthen (kmod (\<lambda>s. s\<lparr>mem := memmove (mem s) mm (P2V (PTE_ADDR e)) PGSIZE\<rparr>))
                (kbind (mappages d i PGSIZE (V2P mm) (PTE_FLAGS e)) (\<lambda>r.
                 if r < 0 then kthen (freevm d) (ret 0)
                 else copyuvm_loop pgdir d (i + PGSIZE) sz)))))
      else ret d)"
  by pat_completeness auto
termination
  by (relation "measure (\<lambda>(pgdir, d, i, sz). 2 ^ 32 - unat i)")
    (auto simp: PGSIZE_def unat_word_ariths)

declare copyuvm_loop.simps [simp del]

definition copyuvm :: "u32 \<Rightarrow> u32 \<Rightarrow> (u32, 'z vm_scheme) km" where
  "copyuvm pgdir sz =
     kbind setupkvm (\<lambda>d. if d = 0 then ret 0 else copyuvm_loop pgdir d 0 sz)"

definition uva2ka :: "u32 \<Rightarrow> u32 \<Rightarrow> (u32, 'z kmem_scheme) km" where
  "uva2ka pgdir uva =
     kbind (walkpgdir pgdir uva False) (\<lambda>pte.
     if pte = 0 then fault ''null pte''
     else kbind (rd32 pte) (\<lambda>e.
     if e AND PTE_P = 0 then ret 0
     else if e AND PTE_U = 0 then ret 0
     else ret (P2V (PTE_ADDR e))))"

lemma page_offset_less: "unat (va - PGROUNDDOWN va) < 4096"
proof -
  have "PGROUNDDOWN va \<le> va"
    by (simp add: word_le_nat_alt unat_PGROUNDDOWN)
  then have "unat (va - PGROUNDDOWN va) = unat va mod 4096"
    by (simp add: unat_sub unat_PGROUNDDOWN minus_div_mult_eq_mod)
  then show ?thesis by simp
qed

text \<open>\<^verbatim>\<open>copyout(pgdir, va, p, len)\<close> for the \<^verbatim>\<open>len\<close> bytes at \<^verbatim>\<open>p\<close>.\<close>

function copyout :: "u32 \<Rightarrow> u32 \<Rightarrow> u8 list \<Rightarrow> (int, 'z kmem_scheme) km" where
  "copyout pgdir va p =
     (if p \<noteq> [] then
        let va0 = PGROUNDDOWN va in
        kbind (uva2ka pgdir va0) (\<lambda>pa0.
        if pa0 = 0 then ret (- 1)
        else
          let n = min (4096 - unat (va - va0)) (length p) in
          kthen (kmod (\<lambda>s. s\<lparr>mem := put_bytes (mem s) (pa0 + (va - va0)) (take n p)\<rparr>))
          (copyout pgdir (va0 + PGSIZE) (drop n p)))
      else ret 0)"
  by pat_completeness auto
termination
proof (relation "measure (\<lambda>(pgdir, va, p). length p)", simp, goal_cases)
  case (1 pgdir va p x xa xb)
  then have "0 < xb" using page_offset_less[of va] by (simp add: zero_less_diff)
  then show ?case using 1 by simp
qed

declare copyout.simps [simp del]

section \<open>User addresses in the kernel\<close>

text \<open>
  The kernel accesses the memory of the running process at its user addresses.  \<open>mmu\<close> is the translation of the
  hardware through the page directory in \<^verbatim>\<open>%cr3\<close>, in supervisor mode with write protection on; physical memory is
  at its kernel addresses.  An access without a mapping is a page fault inside the kernel.
\<close>

definition mmu :: "'z vm_scheme \<Rightarrow> bool \<Rightarrow> u32 \<Rightarrow> u32 option" where
  "mmu s w va =
     (let pde = load32 (mem s) (P2V (cr3 s (mycpu s)) + 4 * PDX va) in
      if pde AND PTE_P = 0 \<or> w \<and> pde AND PTE_W = 0 then None
      else
        let pte = load32 (mem s) (P2V (PTE_ADDR pde) + 4 * PTX va) in
        if pte AND PTE_P = 0 \<or> w \<and> pte AND PTE_W = 0 then None
        else Some (P2V (PTE_ADDR pte) + (va AND 0xFFF)))"

definition user_rd8 :: "u32 \<Rightarrow> (u8, 'z vm_scheme) km" where
  "user_rd8 va =
     kbind (kget (\<lambda>s. mmu s False va)) (\<lambda>pa.
     case pa of None \<Rightarrow> fault ''page fault'' | Some a \<Rightarrow> kget (\<lambda>s. mem s a))"

definition user_wr8 :: "u32 \<Rightarrow> u8 \<Rightarrow> (unit, 'z vm_scheme) km" where
  "user_wr8 va b =
     kbind (kget (\<lambda>s. mmu s True va)) (\<lambda>pa.
     case pa of None \<Rightarrow> fault ''page fault'' | Some a \<Rightarrow> kmod (\<lambda>s. s\<lparr>mem := (mem s)(a := b)\<rparr>))"

primrec user_rd :: "u32 \<Rightarrow> nat \<Rightarrow> (u8 list, 'z vm_scheme) km" where
  "user_rd va 0 = ret []"
| "user_rd va (Suc n) = kbind (user_rd8 va) (\<lambda>b. kbind (user_rd (va + 1) n) (\<lambda>bs. ret (b # bs)))"

primrec user_wr :: "u32 \<Rightarrow> u8 list \<Rightarrow> (unit, 'z vm_scheme) km" where
  "user_wr va [] = ret ()"
| "user_wr va (b # bs) = kthen (user_wr8 va b) (user_wr (va + 1) bs)"

definition user_rd32 :: "u32 \<Rightarrow> (u32, 'z vm_scheme) km" where
  "user_rd32 va = kbind (user_rd va 4) (\<lambda>bs. ret (get32 bs 0))"

end
