(* ===== verification/Proc.thy ===== *)
theory Proc
  imports Vm "HOL-Library.Multiset"
begin

text \<open>
  The process table and the primitives every blocking operation uses (\<^verbatim>\<open>proc.c\<close>): \<^verbatim>\<open>allocproc\<close>,
  \<^verbatim>\<open>sched\<close>, \<^verbatim>\<open>yield\<close>, \<^verbatim>\<open>sleep\<close>, \<^verbatim>\<open>wakeup\<close>, \<^verbatim>\<open>kill\<close>, \<^verbatim>\<open>growproc\<close>, the listing functions and
  \<^verbatim>\<open>sortProcessFIFO\<close>.  A pointer to a \<^verbatim>\<open>struct proc\<close> is an index into the table.  \<^verbatim>\<open>swtch\<close> to the
  scheduler ends a computation with the outcome \<open>Switched\<close>; what the process does when the
  scheduler resumes it is the second half of the operation (\<open>sched_resume\<close>, \<open>sleep_tidy\<close>).  The
  field \<open>kintena\<close> is the local variable \<^verbatim>\<open>intena\<close> that \<^verbatim>\<open>sched\<close> keeps on the kernel stack.
\<close>

section \<open>State\<close>

datatype procstate = UNUSED | EMBRYO | SLEEPING | RUNNABLE | RUNNING | ZOMBIE

text \<open>The addresses processes sleep on.\<close>

datatype chan =
    ChProc nat | ChTicks | ChLog | ChBuf nat | ChSleep sleepid | ChPipeR u32 | ChPipeW u32 | ChInput

record proc =
  sz :: u32
  pgdir :: u32
  kstack :: u32
  state :: procstate
  pid :: int
  parent :: "nat option"
  tf :: u32
  pcontext :: u32
  chan :: "chan option"
  killed :: bool
  ofile :: "nat option list"
  cwd :: "nat option"
  pname :: "u8 list"
  ctime :: u32
  etime :: u32
  rtime :: u32
  processCounter :: int
  childCTime :: "u32 list"
  childRTime :: "u32 list"
  childETime :: "u32 list"
  childPiority :: "int list"
  allChildSize :: nat
  piority :: int
  kintena :: bool

datatype policy = RR | FRR | GRT | Q3

definition HIGH_PIORITY :: int where "HIGH_PIORITY = 2"
definition MEDIUM_PIORITY :: int where "MEDIUM_PIORITY = 1"
definition LOW_PIORITY :: int where "LOW_PIORITY = 0"
definition NPROC :: nat where "NPROC = 64"
definition QUANTA :: int where "QUANTA = 5"

record ptable = vm +
  procs :: "proc list"
  initproc :: "nat option"
  nextpid :: int
  policyChooser :: policy
  GRTExists :: bool
  FRRExists :: bool
  printRunningProcIsValid :: int
  ticks :: u32
  sym_trapret :: u32
  sym_forkret :: u32

abbreviation upd_proc :: "nat \<Rightarrow> (proc \<Rightarrow> proc) \<Rightarrow> 'z ptable_scheme \<Rightarrow> 'z ptable_scheme" where
  "upd_proc i f s \<equiv> s\<lparr>procs := upd_nth i f (procs s)\<rparr>"

abbreviation curproc :: "'z ptable_scheme \<Rightarrow> nat option" where
  "curproc s \<equiv> cproc (this_cpu s)"

text \<open>Use of the per-CPU variable \<^verbatim>\<open>proc\<close> as a pointer.\<close>

definition with_proc :: "(nat \<Rightarrow> ('a, 'z ptable_scheme) km) \<Rightarrow> ('a, 'z ptable_scheme) km" where
  "with_proc f = kbind (kget curproc) (\<lambda>c. case c of None \<Rightarrow> fault ''proc'' | Some p \<Rightarrow> f p)"

section \<open>Scheduling primitives\<close>

definition pinit :: "(unit, 'z ptable_scheme) km" where
  "pinit = initlock LkPtable ''ptable''"

definition sched :: "(unit, 'z ptable_scheme) km" where
  "sched =
     kbind (kget (holding LkPtable)) (\<lambda>h.
     if \<not> h then panic ''sched ptable.lock''
     else kbind (kget this_cpu) (\<lambda>c.
     if ncli c \<noteq> 1 then panic ''sched locks''
     else with_proc (\<lambda>p.
     kbind (kget (\<lambda>s. state (procs s ! p))) (\<lambda>st.
     if st = RUNNING then panic ''sched running''
     else if ifl c then panic ''sched interruptible''
     else (\<lambda>s. Switched (upd_proc p (\<lambda>q. q\<lparr>kintena := intena c\<rparr>) s))))))"

text \<open>\<^verbatim>\<open>cpu->intena = intena\<close>, after the scheduler switched back to this process.\<close>

definition sched_resume :: "(unit, 'z ptable_scheme) km" where
  "sched_resume =
     with_proc (\<lambda>p.
     kbind (kget (\<lambda>s. kintena (procs s ! p))) (\<lambda>i.
     kmod (upd_cpu (\<lambda>c. c\<lparr>intena := i\<rparr>))))"

definition yield :: "(unit, 'z ptable_scheme) km" where
  "yield =
     kbind (kget policyChooser) (\<lambda>pol.
     if pol = GRT then ret ()
     else with_proc (\<lambda>p.
     kbind (kget (\<lambda>s. procs s ! p)) (\<lambda>q.
     if piority q = HIGH_PIORITY \<and> pol = Q3 then ret ()
     else if processCounter q < QUANTA
     then kmod (upd_proc p (\<lambda>q. q\<lparr>processCounter := processCounter q + 1\<rparr>))
     else
       kthen (kmod (upd_proc p (\<lambda>q. q\<lparr>processCounter := 0\<rparr>)))
       (kthen (acquire LkPtable)
       (kthen (kmod (upd_proc p (\<lambda>q. q\<lparr>state := RUNNABLE\<rparr>)))
       (kthen sched (release LkPtable)))))))"

definition sleep_enter :: "chan \<Rightarrow> lockid \<Rightarrow> (unit, 'z ptable_scheme) km" where
  "sleep_enter c lk =
     kbind (kget curproc) (\<lambda>cp. case cp of
       None \<Rightarrow> panic ''sleep''
     | Some p \<Rightarrow>
         kthen (kwhen (lk \<noteq> LkPtable) (kthen (acquire LkPtable) (release lk)))
         (kthen (kmod (upd_proc p (\<lambda>q. q\<lparr>chan := Some c, state := SLEEPING\<rparr>)))
          sched))"

definition sleep_tidy :: "lockid \<Rightarrow> (unit, 'z ptable_scheme) km" where
  "sleep_tidy lk =
     kthen (with_proc (\<lambda>p. kmod (upd_proc p (\<lambda>q. q\<lparr>chan := None\<rparr>))))
     (kwhen (lk \<noteq> LkPtable) (kthen (release LkPtable) (acquire lk)))"

definition sleep :: "chan \<Rightarrow> lockid \<Rightarrow> (unit, 'z ptable_scheme) km" where
  "sleep c lk = kthen (sleep_enter c lk) (sleep_tidy lk)"

definition wakeup1 :: "chan \<Rightarrow> (unit, 'z ptable_scheme) km" where
  "wakeup1 c =
     kmod (\<lambda>s. s\<lparr>procs := map (\<lambda>q. if state q = SLEEPING \<and> chan q = Some c
                                then q\<lparr>state := RUNNABLE\<rparr> else q) (procs s)\<rparr>)"

definition wakeup :: "chan \<Rightarrow> (unit, 'z ptable_scheme) km" where
  "wakeup c = kthen (acquire LkPtable) (kthen (wakeup1 c) (release LkPtable))"

definition kill :: "int \<Rightarrow> (int, 'z ptable_scheme) km" where
  "kill n =
     kthen (acquire LkPtable)
     (kbind (kget (\<lambda>s. first_index (\<lambda>q. pid q = n) (procs s))) (\<lambda>found.
      case found of
        Some i \<Rightarrow>
          kthen (kmod (upd_proc i (\<lambda>q. q\<lparr>killed := True,
                 state := (if state q = SLEEPING then RUNNABLE else state q)\<rparr>)))
          (kthen (release LkPtable) (ret 0))
      | None \<Rightarrow> kthen (release LkPtable) (ret (- 1))))"

section \<open>First-in first-out order\<close>

text \<open>The index \<^verbatim>\<open>minIndex\<close> after the inner loop: the last runnable entry behind \<open>i\<close> that is older than
  entry \<open>i\<close>.\<close>

definition fifo_min :: "proc list \<Rightarrow> nat \<Rightarrow> nat" where
  "fifo_min ps i =
     foldl (\<lambda>m j. if state (ps ! j) \<noteq> RUNNABLE then m
                  else if ctime (ps ! j) < ctime (ps ! i) then j else m) i [Suc i..<length ps]"

definition swap_nth :: "nat \<Rightarrow> nat \<Rightarrow> 'a list \<Rightarrow> 'a list" where
  "swap_nth i j xs = xs[i := xs ! j, j := xs ! i]"

definition fifo_pass :: "nat \<Rightarrow> proc list \<Rightarrow> proc list" where
  "fifo_pass i ps = (if state (ps ! i) \<noteq> RUNNABLE then ps else swap_nth i (fifo_min ps i) ps)"

definition sortProcessFIFO :: "(unit, 'z ptable_scheme) km" where
  "sortProcessFIFO = kmod (\<lambda>s. s\<lparr>procs := fold fifo_pass [0..<length (procs s)] (procs s)\<rparr>)"

section \<open>Allocation\<close>

definition TRAPFRAME_SIZE :: u32 where "TRAPFRAME_SIZE = 76"
definition CONTEXT_SIZE :: u32 where "CONTEXT_SIZE = 20"
definition CONTEXT_EIP :: u32 where "CONTEXT_EIP = 16"

text \<open>The part of \<^verbatim>\<open>allocproc\<close> after the table lock is released: the kernel stack, with room for the
  trap frame, the return address \<^verbatim>\<open>trapret\<close> and a context that starts at \<^verbatim>\<open>forkret\<close>.\<close>

definition alloc_kstack :: "nat \<Rightarrow> (nat option, 'z ptable_scheme) km" where
  "alloc_kstack p =
     kbind kalloc (\<lambda>k.
     kthen (kmod (upd_proc p (\<lambda>q. q\<lparr>kstack := k\<rparr>)))
     (if k = 0 then kthen (kmod (upd_proc p (\<lambda>q. q\<lparr>state := UNUSED\<rparr>))) (ret None)
      else
        let sp1 = k + KSTACKSIZE - TRAPFRAME_SIZE;
            sp2 = sp1 - 4;
            sp3 = sp2 - CONTEXT_SIZE
        in
          kthen (kmod (upd_proc p (\<lambda>q. q\<lparr>tf := sp1\<rparr>)))
          (kbind (kget sym_trapret) (\<lambda>trapret.
          kthen (wr32 sp2 trapret)
          (kthen (kmod (upd_proc p (\<lambda>q. q\<lparr>pcontext := sp3\<rparr>)))
          (kthen (kmod (\<lambda>s. s\<lparr>mem := memset (mem s) sp3 0 CONTEXT_SIZE\<rparr>))
          (kbind (kget sym_forkret) (\<lambda>forkret.
          kthen (wr32 (sp3 + CONTEXT_EIP) forkret)
          (ret (Some p))))))))))"

definition allocproc :: "(nat option, 'z ptable_scheme) km" where
  "allocproc =
     kthen (acquire LkPtable)
     (kbind (kget (\<lambda>s. first_index (\<lambda>q. state q = UNUSED) (procs s))) (\<lambda>found.
      case found of
        None \<Rightarrow> kthen (release LkPtable) (ret None)
      | Some p \<Rightarrow>
          kthen (kmod (\<lambda>s. upd_proc p (\<lambda>q. q\<lparr>state := EMBRYO, pid := nextpid s, rtime := 0,
                     ctime := ticks s, allChildSize := 0\<rparr>) (s\<lparr>nextpid := nextpid s + 1\<rparr>)))
          (kbind (kget policyChooser) (\<lambda>pol.
          kthen (if pol = FRR then sortProcessFIFO
                 else if pol = Q3 then kmod (upd_proc p (\<lambda>q. q\<lparr>piority := HIGH_PIORITY\<rparr>))
                 else ret ())
          (kthen (release LkPtable) (alloc_kstack p))))))"

definition growproc :: "u32 \<Rightarrow> (int, 'z ptable_scheme) km" where
  "growproc n =
     with_proc (\<lambda>p.
     kbind (kget (\<lambda>s. procs s ! p)) (\<lambda>q.
     kbind (if sint n > 0 then allocuvm (pgdir q) (sz q) (sz q + n)
            else if sint n < 0 then deallocuvm (pgdir q) (sz q) (sz q + n)
            else ret (sz q)) (\<lambda>r.
     if n \<noteq> 0 \<and> r = 0 then ret (- 1)
     else
       kthen (kmod (upd_proc p (\<lambda>q. q\<lparr>sz := r\<rparr>)))
       (kthen (switchuvm (kstack q) (pgdir q)) (ret 0)))))"

section \<open>Listings\<close>

definition printAllRunningProcesses :: "(unit, 'z ptable_scheme) km" where
  "printAllRunningProcesses =
     kbind (kget printRunningProcIsValid) (\<lambda>v.
     kwhen (v = 1)
       (kthen (cprintf ''\<newline>$$$$$$$$Running Processes are:'' [])
       (kbind (kget procs) (\<lambda>ps.
        kthen (kfor ps (\<lambda>q. kwhen (pid q \<noteq> 0) (cprintf ''<%d>'' [AInt (word_of_int (pid q))])))
        (cprintf ''\<newline>'' [])))))"

fun state_name :: "procstate \<Rightarrow> string" where
  "state_name UNUSED = ''unused''"
| "state_name EMBRYO = ''embryo''"
| "state_name SLEEPING = ''sleep ''"
| "state_name RUNNABLE = ''runble''"
| "state_name RUNNING = ''run   ''"
| "state_name ZOMBIE = ''zombie''"

text \<open>The return addresses found by following saved frame pointers; unused entries are 0.\<close>

fun caller_frames :: "memory \<Rightarrow> u32 \<Rightarrow> nat \<Rightarrow> u32 list" where
  "caller_frames m ebp 0 = []"
| "caller_frames m ebp (Suc n) =
     (if ebp = 0 \<or> ebp < KERNBASE \<or> ebp = 0xFFFFFFFF then replicate (Suc n) 0
      else load32 m (ebp + 4) # caller_frames m (load32 m ebp) n)"

definition getcallerpcs :: "memory \<Rightarrow> u32 \<Rightarrow> u32 list" where
  "getcallerpcs m v = caller_frames m (v - 8) 10"

definition CONTEXT_EBP :: u32 where "CONTEXT_EBP = 12"

definition procdump :: "(unit, 'z ptable_scheme) km" where
  "procdump =
     kbind (kget procs) (\<lambda>ps.
     kfor ps (\<lambda>q.
       if state q = UNUSED then ret ()
       else
         kthen (cprintf ''%d %s %s'' [AInt (word_of_int (pid q)), AStr (Some (bytes (state_name (state q)))),
                                    AStr (Some (pname q))])
         (kthen (kwhen (state q = SLEEPING)
            (kbind (kget mem) (\<lambda>m.
             let pc = getcallerpcs m (load32 m (pcontext q + CONTEXT_EBP) + 8) in
             kfor (takeWhile (\<lambda>a. a \<noteq> 0) pc) (\<lambda>a. cprintf '' %p'' [AInt a]))))
          (cprintf ''\<newline>'' []))))"

section \<open>First-in first-out order permutes the runnable entries\<close>

lemma fifo_foldl_index:
  "(foldl (\<lambda>m j. if state (ps ! j) \<noteq> RUNNABLE then m else if ctime (ps ! j) < ctime (ps ! i) then j else m) i js) \<in>
     insert i {j \<in> set js. state (ps ! j) = RUNNABLE}"
  by (induction js rule: rev_induct) auto

lemma fifo_min_cases:
  "fifo_min ps i = i \<or> i < fifo_min ps i \<and> fifo_min ps i < length ps \<and> state (ps ! fifo_min ps i) = RUNNABLE"
  using fifo_foldl_index[of ps i "[Suc i..<length ps]"] by (auto simp: fifo_min_def)

lemma fifo_pass_facts:
  assumes "i < length ps"
  shows "mset (fifo_pass i ps) = mset ps" "length (fifo_pass i ps) = length ps"
    "state (ps ! j) \<noteq> RUNNABLE \<Longrightarrow> fifo_pass i ps ! j = ps ! j"
    "state (fifo_pass i ps ! j) = RUNNABLE \<longleftrightarrow> state (ps ! j) = RUNNABLE"
proof -
  have m: "fifo_min ps i < length ps" "state (ps ! i) = RUNNABLE \<Longrightarrow> state (ps ! fifo_min ps i) = RUNNABLE"
    using fifo_min_cases[of ps i] assms by auto
  have "mset (ps[i := ps ! fifo_min ps i, fifo_min ps i := ps ! i]) = mset ps" using m(1) assms by (rule mset_swap)
  then show "mset (fifo_pass i ps) = mset ps" by (simp add: fifo_pass_def swap_nth_def)
  show "length (fifo_pass i ps) = length ps" by (simp add: fifo_pass_def swap_nth_def)
  show "state (ps ! j) \<noteq> RUNNABLE \<Longrightarrow> fifo_pass i ps ! j = ps ! j"
    "state (fifo_pass i ps ! j) = RUNNABLE \<longleftrightarrow> state (ps ! j) = RUNNABLE"
    using m assms by (cases "j = i"; cases "j = fifo_min ps i"; auto simp: fifo_pass_def swap_nth_def)+
qed

lemma fifo_fold_facts:
  "set is \<subseteq> {..<length ps} \<Longrightarrow> mset (fold fifo_pass is ps) = mset ps \<and> length (fold fifo_pass is ps) = length ps \<and>
     (\<forall>j. (state (fold fifo_pass is ps ! j) = RUNNABLE \<longleftrightarrow> state (ps ! j) = RUNNABLE) \<and>
          (state (ps ! j) \<noteq> RUNNABLE \<longrightarrow> fold fifo_pass is ps ! j = ps ! j))"
proof (induction "is" arbitrary: ps)
  case (Cons i "is")
  then show ?case using fifo_pass_facts[of i ps] Cons.IH[of "fifo_pass i ps"] by auto
qed simp

text \<open>C10. \<^verbatim>\<open>sortProcessFIFO\<close> returns with a permutation of the process table in which every entry that is not runnable
  has stayed in its place.\<close>

theorem fifo_permutes_runnable:
  "\<exists>t. sortProcessFIFO s = Ret () t \<and> mset (procs t) = mset (procs s) \<and>
     map (\<lambda>q. if state q = RUNNABLE then None else Some q) (procs t) =
     map (\<lambda>q. if state q = RUNNABLE then None else Some q) (procs s)"
proof -
  have "set [0..<length (procs s)] \<subseteq> {..<length (procs s)}" by auto
  from fifo_fold_facts[OF this] show ?thesis by (auto simp: sortProcessFIFO_def intro!: nth_equalityI)
qed

section \<open>Giving up the CPU\<close>

text \<open>An empty entry of the static table.\<close>

definition idle_proc :: proc where
  "idle_proc = \<lparr>sz = 0, pgdir = 0, kstack = 0, state = UNUSED, pid = 0, parent = None, tf = 0, pcontext = 0, chan = None,
     killed = False, ofile = replicate 16 None, cwd = None, pname = replicate 16 0, ctime = 0, etime = 0, rtime = 0,
     processCounter = 0, childCTime = replicate 64 0, childRTime = replicate 64 0, childETime = replicate 64 0,
     childPiority = replicate 64 0, allChildSize = 0, piority = 0, kintena = False\<rparr>"

text \<open>A process that runs outside every critical section.\<close>

definition on_cpu :: "nat \<Rightarrow> 'z ptable_scheme \<Rightarrow> bool" where
  "on_cpu p s \<longleftrightarrow> quiet s \<and> curproc s = Some p \<and> p < length (procs s)"

lemma upd_nth_twice [simp]: "upd_nth i f (upd_nth i g xs) = upd_nth i (\<lambda>x. f (g x)) xs"
  by (cases "i < length xs") (simp_all add: upd_nth_def list_update_beyond)

lemma sched_switches:
  assumes "holding LkPtable s" and "ncli (this_cpu s) = 1" and "\<not> ifl (this_cpu s)" and "curproc s = Some p"
    and "state (procs s ! p) \<noteq> RUNNING"
  shows "sched s = Switched (upd_proc p (\<lambda>q. q\<lparr>kintena := intena (this_cpu s)\<rparr>) s)"
  using assms by (simp add: sched_def with_proc_def keval)

definition preemptible :: "nat \<Rightarrow> 'z ptable_scheme \<Rightarrow> bool" where
  "preemptible p s \<longleftrightarrow> policyChooser s \<noteq> GRT \<and> (policyChooser s = Q3 \<longrightarrow> piority (procs s ! p) \<noteq> HIGH_PIORITY)"

lemma yield_counts:
  assumes "on_cpu p s" and "preemptible p s" and "processCounter (procs s ! p) < QUANTA"
  shows "yield s = Ret () (upd_proc p (\<lambda>q. q\<lparr>processCounter := processCounter q + 1\<rparr>) s)"
  using assms by (auto simp: yield_def with_proc_def keval on_cpu_def preemptible_def)

lemma yield_switches:
  assumes "on_cpu p s" and "preemptible p s" and "QUANTA \<le> processCounter (procs s ! p)"
  shows "\<exists>t. yield s = Switched t \<and> holding LkPtable t \<and>
    procs t = upd_nth p (\<lambda>q. q\<lparr>processCounter := 0, state := RUNNABLE, kintena := True\<rparr>) (procs s)"
proof -
  let ?s = "upd_proc p (\<lambda>q. q\<lparr>processCounter := 0\<rparr>) s"
  have f: "lk_free LkPtable ?s" and c: "cpu_idle (this_cpu s)" and p: "curproc s = Some p" "p < length (procs s)"
    using assms(1) by (simp_all add: on_cpu_def quiet_def lk_free_def)
  let ?t = "upd_proc p (\<lambda>q. q\<lparr>state := RUNNABLE\<rparr>) (lk_take LkPtable ?s)"
  have "sched ?t = Switched (upd_proc p (\<lambda>q. q\<lparr>kintena := intena (this_cpu ?t)\<rparr>) ?t)"
    using c p by (intro sched_switches) (simp_all add: holding_def lk_take_def cpu_idle_def)
  then show ?thesis
    using assms p c f by (auto simp: yield_def with_proc_def keval preemptible_def acquire_free lk_take_def holding_def cpu_idle_def)
qed

lemma yields_count:
  fixes s :: "'z ptable_scheme"
  assumes "on_cpu p s" and "preemptible p s" and "processCounter (procs s ! p) = 0"
  shows "int n \<le> QUANTA \<Longrightarrow> kfor [0..<n] (\<lambda>_. yield) s = Ret () (upd_proc p (\<lambda>q. q\<lparr>processCounter := int n\<rparr>) s)"
proof (induction n)
  case 0
  have "upd_nth p (\<lambda>q. q\<lparr>processCounter := 0\<rparr>) (procs s) = procs s"
    using assms(3) list_update_id[of "procs s" p] by (cases "procs s ! p") (simp add: upd_nth_def)
  then show ?case by simp
next
  case (Suc n)
  let ?t = "upd_proc p (\<lambda>q. q\<lparr>processCounter := int n\<rparr>) s"
  have "on_cpu p ?t" "preemptible p ?t" "processCounter (procs ?t ! p) < QUANTA"
    using assms Suc.prems by (auto simp: on_cpu_def preemptible_def quiet_def lk_free_def)
  from yield_counts[OF this] show ?case
    using Suc assms(1) by (simp add: kfor_append kthen_apply add.commute)
qed


text \<open>A table with one running process, on an otherwise idle machine.\<close>

definition one_running :: "policy \<Rightarrow> ptable" where
  "one_running pol =
     \<lparr>locks = \<lambda>_. \<lparr>locked = 0, lkname = [], lkcpu = None\<rparr>,
      cpus = \<lambda>_. \<lparr>ncli = 0, intena = True, ifl = True, cproc = Some 0\<rparr>, mycpu = 0,
      panicked = False, cons_locking = True, uart = False, uart_out = [], crt = \<lambda>_. 0, crtpos = 0,
      mem = \<lambda>_. 0, use_lock = True, freelist = 0, kern_end = 0x80110000,
      kpgdir = 0, cr3 = \<lambda>_. 0, esp0 = \<lambda>_. 0, sym_data = 0,
      procs = idle_proc\<lparr>state := RUNNING, pid := 1, pgdir := 0x80400000\<rparr> # replicate 63 idle_proc,
      initproc = Some 0, nextpid = 2, policyChooser = pol, GRTExists = False, FRRExists = False,
      printRunningProcIsValid = 0, ticks = 7, sym_trapret = 0, sym_forkret = 0\<rparr>"


lemma sleep_switches:
  fixes s :: "'z ptable_scheme"
  assumes "on_cpu p s" and "lk \<noteq> LkPtable"
  shows "sleep c lk (lk_take lk s) = Switched ((lk_take LkPtable s)
     \<lparr>procs := upd_nth p (\<lambda>q. q\<lparr>chan := Some c, state := SLEEPING, kintena := True\<rparr>) (procs s)\<rparr>)"
proof -
  have q: "quiet s" and p: "curproc s = Some p" "p < length (procs s)" using assms(1) by (simp_all add: on_cpu_def)
  then have c: "ncli (this_cpu s) = 0" "ifl (this_cpu s)" "intena (this_cpu s)" by (simp_all add: quiet_def cpu_idle_def)
  let ?a = "lk_take LkPtable (lk_take lk s)"
  have a: "acquire LkPtable (lk_take lk s) = Ret () ?a" using q assms(2) by (intro acquire_free) simp
  have "release lk ?a = Ret () (?a\<lparr>locks := (locks ?a)(lk := (locks ?a lk)\<lparr>lkcpu := None, locked := 0\<rparr>),
             cpus := (cpus ?a)(mycpu ?a := popped (this_cpu ?a))\<rparr>)"
    using assms(2) c by (intro release_held) (simp_all add: holding_def)
  moreover have "(locks s)(lk := taken (mycpu s) (locks s lk), LkPtable := taken (mycpu s) (locks s LkPtable),
      lk := (taken (mycpu s) (locks s lk))\<lparr>lkcpu := None, locked := 0\<rparr>) = (locks s)(LkPtable := taken (mycpu s) (locks s LkPtable))"
    using assms(2) quiet_free[OF q, of lk] by (auto simp: fun_eq_iff)
  ultimately have r: "release lk ?a = Ret () (lk_take LkPtable s)"
    using assms(2) q by (simp add: lk_take_def)
  let ?t = "upd_proc p (\<lambda>q. q\<lparr>chan := Some c, state := SLEEPING\<rparr>) (lk_take LkPtable s)"
  have "sched ?t = Switched (upd_proc p (\<lambda>q. q\<lparr>kintena := intena (this_cpu ?t)\<rparr>) ?t)"
    using c p by (intro sched_switches) (simp_all add: holding_def lk_take_def)
  then show ?thesis
    using a r p c assms(2) by (simp add: sleep_def sleep_enter_def keval lk_take_def)
qed



end
