(* ===== verification/Sleeplock.thy ===== *)
theory Sleeplock
  imports Proc
begin

text \<open>
  Sleep locks (\<^verbatim>\<open>sleeplock.c\<close>): one per buffer and one per cached inode.  \<^verbatim>\<open>acquiresleep\<close> on a held lock
  puts the process to sleep, which ends the computation with \<open>Switched\<close>; after a wakeup the process
  is at the head of the loop again (\<open>acquiresleep_loop\<close>).
\<close>

record sleeplock =
  slocked :: bool
  slname :: string
  slpid :: int

record sleepers = ptable +
  slocks :: "sleepid \<Rightarrow> sleeplock"

abbreviation upd_slock :: "sleepid \<Rightarrow> (sleeplock \<Rightarrow> sleeplock) \<Rightarrow> 'z sleepers_scheme \<Rightarrow> 'z sleepers_scheme" where
  "upd_slock l f s \<equiv> s\<lparr>slocks := (slocks s)(l := f (slocks s l))\<rparr>"

section \<open>Operations\<close>

definition initsleeplock :: "sleepid \<Rightarrow> string \<Rightarrow> (unit, 'z sleepers_scheme) km" where
  "initsleeplock l nm =
     kthen (initlock (LkSleep l) ''sleep lock'')
     (kmod (upd_slock l (\<lambda>_. \<lparr>slocked = False, slname = nm, slpid = 0\<rparr>)))"

definition acquiresleep_loop :: "sleepid \<Rightarrow> (unit, 'z sleepers_scheme) km" where
  "acquiresleep_loop l =
     kbind (kget (\<lambda>s. slocked (slocks s l))) (\<lambda>b.
     if b then sleep (ChSleep l) (LkSleep l)
     else
       kthen (kmod (upd_slock l (\<lambda>k. k\<lparr>slocked := True\<rparr>)))
       (kthen (with_proc (\<lambda>p. kmod (\<lambda>s. upd_slock l (\<lambda>k. k\<lparr>slpid := pid (procs s ! p)\<rparr>) s)))
        (release (LkSleep l))))"

definition acquiresleep :: "sleepid \<Rightarrow> (unit, 'z sleepers_scheme) km" where
  "acquiresleep l = kthen (acquire (LkSleep l)) (acquiresleep_loop l)"

definition acquiresleep_resume :: "sleepid \<Rightarrow> (unit, 'z sleepers_scheme) km" where
  "acquiresleep_resume l =
     kthen sched_resume (kthen (sleep_tidy (LkSleep l)) (acquiresleep_loop l))"

definition releasesleep :: "sleepid \<Rightarrow> (unit, 'z sleepers_scheme) km" where
  "releasesleep l =
     kthen (acquire (LkSleep l))
     (kthen (kmod (upd_slock l (\<lambda>k. k\<lparr>slocked := False, slpid := 0\<rparr>)))
     (kthen (wakeup (ChSleep l))
      (release (LkSleep l))))"

definition holdingsleep :: "sleepid \<Rightarrow> (bool, 'z sleepers_scheme) km" where
  "holdingsleep l =
     kthen (acquire (LkSleep l))
     (kbind (kget (\<lambda>s. slocked (slocks s l))) (\<lambda>r.
      kthen (release (LkSleep l)) (ret r)))"

section \<open>Uncontended use\<close>

text \<open>The table after a wakeup.\<close>

definition wake :: "chan \<Rightarrow> proc list \<Rightarrow> proc list" where
  "wake c ps = map (\<lambda>q. if state q = SLEEPING \<and> chan q = Some c then q\<lparr>state := RUNNABLE\<rparr> else q) ps"

lemma length_wake [simp]: "length (wake c ps) = length ps"
  by (simp add: wake_def)

lemma nth_wake: "i < length ps \<Longrightarrow> wake c ps ! i =
    (if state (ps ! i) = SLEEPING \<and> chan (ps ! i) = Some c then (ps ! i)\<lparr>state := RUNNABLE\<rparr> else ps ! i)"
  by (simp add: wake_def)

lemma wakeup1_eq: "wakeup1 c s = Ret () (s\<lparr>procs := wake c (procs s)\<rparr>)"
  by (simp add: wakeup1_def wake_def)

lemma wakeup_eq:
  "lk_free LkPtable s \<Longrightarrow> cpu_stable (this_cpu s) \<Longrightarrow> wakeup c s = Ret () (s\<lparr>procs := wake c (procs s)\<rparr>)"
  by (simp add: wakeup_def wakeup1_eq lock_eval)

text \<open>\<open>sleep\<close> never returns to its caller within the same computation.\<close>

lemma sched_not_Ret: "sched s \<noteq> Ret x t"
  by (auto simp: sched_def with_proc_def keval split: option.splits)

lemma sleep_not_Ret: "sleep c lk s \<noteq> Ret x t"
  by (auto simp: sched_not_Ret sleep_def sleep_enter_def dest!: kthen_RetD kbind_RetD split: option.splits)

lemma acquiresleep_free:
  assumes "lk_free (LkSleep l) s" and "cpu_stable (this_cpu s)" and "\<not> slocked (slocks s l)"
    and "curproc s = Some p"
  shows "acquiresleep l s =
    Ret () (upd_slock l (\<lambda>k. k\<lparr>slocked := True, slpid := pid (procs s ! p)\<rparr>) s)"
  using assms
  by (simp add: acquiresleep_def acquiresleep_loop_def with_proc_def lock_eval)

lemma releasesleep_eq:
  assumes "lk_free (LkSleep l) s" and "lk_free LkPtable s" and "cpu_stable (this_cpu s)"
  shows "releasesleep l s = Ret () ((upd_slock l (\<lambda>k. k\<lparr>slocked := False, slpid := 0\<rparr>) s)
     \<lparr>procs := wake (ChSleep l) (procs s)\<rparr>)"
  using assms
  by (simp add: releasesleep_def wakeup_eq lock_eval lk_free_def)

lemma holdingsleep_eq:
  assumes "lk_free (LkSleep l) s" and "cpu_stable (this_cpu s)"
  shows "holdingsleep l s = Ret (slocked (slocks s l)) s"
  using assms by (simp add: holdingsleep_def lock_eval)

end
