(* ===== verification/Bio.thy ===== *)
theory Bio
  imports Sleeplock
begin

text \<open>
  The buffer cache (\<^verbatim>\<open>bio.c\<close>) over the disk held in memory (\<^verbatim>\<open>memide.c\<close>).  Buffers are the entries of
  a list; entry \<open>NBUF\<close> is \<^verbatim>\<open>bcache.head\<close>.  The recently-used list is kept in their \<^verbatim>\<open>prev\<close> and
  \<^verbatim>\<open>next\<close> fields, as in the code, and related to an abstract list of buffers.  The flags \<^verbatim>\<open>B_VALID\<close>
  and \<^verbatim>\<open>B_DIRTY\<close> are two booleans.  \<open>dtrace\<close> records the blocks written to the disk, oldest first.
\<close>

section \<open>State\<close>

type_synonym block = "u8 list"

definition BSIZE :: nat where "BSIZE = 512"
definition NBUF :: nat where "NBUF = 30"

record buf =
  bvalid :: bool
  bdirty :: bool
  bdev :: u32
  blockno :: u32
  refcnt :: u32
  bprev :: nat
  bnext :: nat
  bdata :: block

record bcache = sleepers +
  disk :: "block list"
  dtrace :: "(nat \<times> block) list"
  bufs :: "buf list"

abbreviation upd_buf :: "nat \<Rightarrow> (buf \<Rightarrow> buf) \<Rightarrow> 'z bcache_scheme \<Rightarrow> 'z bcache_scheme" where
  "upd_buf b f s \<equiv> s\<lparr>bufs := upd_nth b f (bufs s)\<rparr>"

abbreviation getbuf :: "nat \<Rightarrow> 'z bcache_scheme \<Rightarrow> buf" where
  "getbuf b s \<equiv> bufs s ! b"

section \<open>Disk\<close>

definition iderw :: "nat \<Rightarrow> (unit, 'z bcache_scheme) km" where
  "iderw b =
     kbind (holdingsleep (SlBuf b)) (\<lambda>h.
     if \<not> h then panic ''iderw: buf not locked''
     else kbind (kget (getbuf b)) (\<lambda>q.
     if bvalid q \<and> \<not> bdirty q then panic ''iderw: nothing to do''
     else if bdev q \<noteq> 1 then panic ''iderw: request not for disk 1''
     else kbind (kget (\<lambda>s. length (disk s))) (\<lambda>disksize.
     if unat (blockno q) \<ge> disksize then panic ''iderw: block out of range''
     else
       kthen (if bdirty q
              then kmod (\<lambda>s. (upd_buf b (\<lambda>q. q\<lparr>bdirty := False\<rparr>) s)
                     \<lparr>disk := (disk s)[unat (blockno q) := bdata q],
                      dtrace := dtrace s @ [(unat (blockno q), bdata q)]\<rparr>)
              else kmod (\<lambda>s. upd_buf b (\<lambda>q. q\<lparr>bdata := disk s ! unat (blockno q)\<rparr>) s))
       (kmod (upd_buf b (\<lambda>q. q\<lparr>bvalid := True\<rparr>))))))"

section \<open>Operations\<close>

text \<open>\<^verbatim>\<open>b->next = head.next; b->prev = &head; head.next->prev = b; head.next = b\<close>\<close>

definition link_front :: "nat \<Rightarrow> buf list \<Rightarrow> buf list" where
  "link_front b bs =
     (let n = bnext (bs ! NBUF);
          bs = upd_nth b (\<lambda>q. q\<lparr>bnext := n\<rparr>) bs;
          bs = upd_nth b (\<lambda>q. q\<lparr>bprev := NBUF\<rparr>) bs;
          bs = upd_nth (bnext (bs ! NBUF)) (\<lambda>q. q\<lparr>bprev := b\<rparr>) bs
      in upd_nth NBUF (\<lambda>q. q\<lparr>bnext := b\<rparr>) bs)"

text \<open>\<^verbatim>\<open>b->next->prev = b->prev; b->prev->next = b->next\<close>\<close>

definition unlink_buf :: "nat \<Rightarrow> buf list \<Rightarrow> buf list" where
  "unlink_buf b bs =
     (let bs = upd_nth (bnext (bs ! b)) (\<lambda>q. q\<lparr>bprev := bprev (bs ! b)\<rparr>) bs
      in upd_nth (bprev (bs ! b)) (\<lambda>q. q\<lparr>bnext := bnext (bs ! b)\<rparr>) bs)"

definition binit :: "(unit, 'z bcache_scheme) km" where
  "binit =
     kthen (initlock LkBcache ''bcache'')
     (kthen (kmod (upd_buf NBUF (\<lambda>q. q\<lparr>bprev := NBUF, bnext := NBUF\<rparr>)))
      (kfor [0..<NBUF] (\<lambda>b.
        kthen (initsleeplock (SlBuf b) ''buffer'')
        (kmod (\<lambda>s. s\<lparr>bufs := link_front b (bufs s)\<rparr>)))))"

text \<open>The two scans of \<^verbatim>\<open>bget\<close>, from \<^verbatim>\<open>head.next\<close> forward and from \<^verbatim>\<open>head.prev\<close> backward.  The list has
  at most \<open>NBUF\<close> entries, so the fuel \<open>NBUF + 1\<close> is never used up on a well-formed list.\<close>

fun scan_fwd :: "nat \<Rightarrow> (buf \<Rightarrow> bool) \<Rightarrow> buf list \<Rightarrow> nat \<Rightarrow> nat option option" where
  "scan_fwd 0 P bs b = None"
| "scan_fwd (Suc n) P bs b =
     (if b = NBUF then Some None
      else if P (bs ! b) then Some (Some b)
      else scan_fwd n P bs (bnext (bs ! b)))"

fun scan_bwd :: "nat \<Rightarrow> (buf \<Rightarrow> bool) \<Rightarrow> buf list \<Rightarrow> nat \<Rightarrow> nat option option" where
  "scan_bwd 0 P bs b = None"
| "scan_bwd (Suc n) P bs b =
     (if b = NBUF then Some None
      else if P (bs ! b) then Some (Some b)
      else scan_bwd n P bs (bprev (bs ! b)))"

declare scan_fwd.simps [simp del] scan_bwd.simps [simp del]

definition bget :: "u32 \<Rightarrow> u32 \<Rightarrow> (nat, 'z bcache_scheme) km" where
  "bget dev bno =
     kthen (acquire LkBcache)
     (kbind (kget bufs) (\<lambda>bs.
      case scan_fwd (Suc NBUF) (\<lambda>q. bdev q = dev \<and> blockno q = bno) bs (bnext (bs ! NBUF)) of
        None \<Rightarrow> (\<lambda>_. Spin)
      | Some (Some b) \<Rightarrow>
          kthen (kmod (upd_buf b (\<lambda>q. q\<lparr>refcnt := refcnt q + 1\<rparr>)))
          (kthen (release LkBcache)
          (kthen (acquiresleep (SlBuf b)) (ret b)))
      | Some None \<Rightarrow>
          (case scan_bwd (Suc NBUF) (\<lambda>q. refcnt q = 0 \<and> \<not> bdirty q) bs (bprev (bs ! NBUF)) of
             None \<Rightarrow> (\<lambda>_. Spin)
           | Some (Some b) \<Rightarrow>
               kthen (kmod (upd_buf b (\<lambda>q. q\<lparr>bdev := dev, blockno := bno, bvalid := False,
                                             bdirty := False, refcnt := 1\<rparr>)))
               (kthen (release LkBcache)
               (kthen (acquiresleep (SlBuf b)) (ret b)))
           | Some None \<Rightarrow> panic ''bget: no buffers'')))"

definition bread :: "u32 \<Rightarrow> u32 \<Rightarrow> (nat, 'z bcache_scheme) km" where
  "bread dev bno =
     kbind (bget dev bno) (\<lambda>b.
     kbind (kget (getbuf b)) (\<lambda>q.
     kthen (kwhen (\<not> bvalid q) (iderw b)) (ret b)))"

definition bwrite :: "nat \<Rightarrow> (unit, 'z bcache_scheme) km" where
  "bwrite b =
     kbind (holdingsleep (SlBuf b)) (\<lambda>h.
     if \<not> h then panic ''bwrite''
     else kthen (kmod (upd_buf b (\<lambda>q. q\<lparr>bdirty := True\<rparr>))) (iderw b))"

definition brelse :: "nat \<Rightarrow> (unit, 'z bcache_scheme) km" where
  "brelse b =
     kbind (holdingsleep (SlBuf b)) (\<lambda>h.
     if \<not> h then panic ''brelse''
     else
       kthen (releasesleep (SlBuf b))
       (kthen (acquire LkBcache)
       (kthen (kmod (upd_buf b (\<lambda>q. q\<lparr>refcnt := refcnt q - 1\<rparr>)))
       (kbind (kget (getbuf b)) (\<lambda>q.
        kthen (kwhen (refcnt q = 0) (kmod (\<lambda>s. s\<lparr>bufs := link_front b (unlink_buf b (bufs s))\<rparr>)))
        (release LkBcache))))))"

text \<open>Stores into \<^verbatim>\<open>b->data\<close> by the holder of the buffer.\<close>

definition set_data :: "nat \<Rightarrow> (block \<Rightarrow> block) \<Rightarrow> (unit, 'z bcache_scheme) km" where
  "set_data b f = kmod (upd_buf b (\<lambda>q. q\<lparr>bdata := f (bdata q)\<rparr>))"

section \<open>The recently-used list\<close>

text \<open>\<open>chain bs a xs z\<close>: the nodes \<open>a\<close>, \<open>xs\<close>, \<open>z\<close> follow each other through \<^verbatim>\<open>next\<close> and, backwards,
  through \<^verbatim>\<open>prev\<close>.\<close>

fun chain :: "buf list \<Rightarrow> nat \<Rightarrow> nat list \<Rightarrow> nat \<Rightarrow> bool" where
  "chain bs a [] z \<longleftrightarrow> bnext (bs ! a) = z \<and> bprev (bs ! z) = a"
| "chain bs a (x # xs) z \<longleftrightarrow> bnext (bs ! a) = x \<and> bprev (bs ! x) = a \<and> chain bs x xs z"

definition lru :: "buf list \<Rightarrow> nat list \<Rightarrow> bool" where
  "lru bs xs \<longleftrightarrow> length bs = Suc NBUF \<and> distinct xs \<and> (\<forall>i \<in> set xs. i < NBUF) \<and> chain bs NBUF xs NBUF"

lemma chain_append: "chain bs a (xs @ y # ys) z \<longleftrightarrow> chain bs a xs y \<and> chain bs y ys z"
  by (induction xs arbitrary: a) auto

lemma chain_first: "chain bs a xs z \<Longrightarrow> bnext (bs ! a) = hd (xs @ [z])"
  by (cases xs) auto

lemma chain_last: "chain bs a xs z \<Longrightarrow> bprev (bs ! z) = last (a # xs)"
  by (induction xs arbitrary: a) auto

text \<open>Only the links inside the segment matter.\<close>

lemma chain_cong:
  "(\<And>i. i \<in> insert a (set xs) \<Longrightarrow> bnext (cs ! i) = bnext (bs ! i)) \<Longrightarrow>
   (\<And>i. i \<in> insert z (set xs) \<Longrightarrow> bprev (cs ! i) = bprev (bs ! i)) \<Longrightarrow>
   chain cs a xs z = chain bs a xs z"
  by (induction xs arbitrary: a) auto

lemma scan_fwd_find:
  "chain bs a xs NBUF \<Longrightarrow> NBUF \<notin> set xs \<Longrightarrow> length xs < n \<Longrightarrow>
   scan_fwd n P bs (bnext (bs ! a)) = Some (List.find (\<lambda>i. P (bs ! i)) xs)"
proof (induction xs arbitrary: a n)
  case Nil
  then show ?case by (cases n) (auto simp: scan_fwd.simps)
next
  case (Cons x xs)
  then show ?case by (cases n) (auto simp: scan_fwd.simps)
qed

lemma scan_bwd_find:
  "chain bs NBUF xs z \<Longrightarrow> NBUF \<notin> set xs \<Longrightarrow> length xs < n \<Longrightarrow>
   scan_bwd n P bs (bprev (bs ! z)) = Some (List.find (\<lambda>i. P (bs ! i)) (rev xs))"
proof (induction xs arbitrary: z n rule: rev_induct)
  case Nil
  then show ?case by (cases n) (auto simp: scan_bwd.simps)
next
  case (snoc x xs)
  then show ?case by (cases n) (auto simp: chain_append scan_bwd.simps)
qed

lemma unlink_buf_links:
  assumes "bnext (bs ! b) = n" "bprev (bs ! b) = p" "n \<noteq> b" "n < length bs" "p < length bs"
  shows "i < length bs \<Longrightarrow> bnext (unlink_buf b bs ! i) = (if i = p then n else bnext (bs ! i))"
    and "i < length bs \<Longrightarrow> bprev (unlink_buf b bs ! i) = (if i = n then p else bprev (bs ! i))"
  using assms by (auto simp: unlink_buf_def Let_def upd_nth_nth)

lemma link_front_links:
  assumes "bnext (bs ! NBUF) = n" "b \<noteq> NBUF" "b < length bs" "NBUF < length bs" "n \<noteq> b" "n < length bs"
  shows "i < length bs \<Longrightarrow> bnext (link_front b bs ! i) =
      (if i = NBUF then b else if i = b then n else bnext (bs ! i))"
    and "i < length bs \<Longrightarrow> bprev (link_front b bs ! i) =
      (if i = n then b else if i = b then NBUF else bprev (bs ! i))"
  using assms by (auto simp: link_front_def Let_def upd_nth_nth)

lemma length_links [simp]: "length (unlink_buf b bs) = length bs" "length (link_front b bs) = length bs"
  by (simp_all add: unlink_buf_def link_front_def Let_def)

text \<open>Relinking changes no other field.\<close>

definition core :: "buf \<Rightarrow> buf" where
  "core q = q\<lparr>bprev := 0, bnext := 0\<rparr>"

lemma core_simps [simp]:
  "core (q\<lparr>bprev := x\<rparr>) = core q" "core (q\<lparr>bnext := x\<rparr>) = core q"
  by (simp_all add: core_def)

lemma core_eqD:
  "core q = core r \<Longrightarrow> bvalid q = bvalid r \<and> bdirty q = bdirty r \<and> bdev q = bdev r \<and> blockno q = blockno r \<and>
     refcnt q = refcnt r \<and> bdata q = bdata r"
  by (cases q; cases r) (simp add: core_def)

lemma map_upd_nth_same: "(\<And>x. g (f x) = g x) \<Longrightarrow> map g (upd_nth i f xs) = map g xs"
  by (auto simp: list_eq_iff_nth_eq upd_nth_nth)

lemma core_links [simp]: "map core (unlink_buf b bs) = map core bs" "map core (link_front b bs) = map core bs"
  by (simp_all add: unlink_buf_def link_front_def Let_def map_upd_nth_same)

lemma chain_unlink:
  assumes "chain bs a (as @ b # cs) z" and "distinct (as @ b # cs)" and "a \<notin> set (as @ b # cs)"
    and "z \<notin> set (as @ b # cs)" and "\<forall>i \<in> insert a (insert z (set (as @ b # cs))). i < length bs"
  shows "chain (unlink_buf b bs) a (as @ cs) z"
  using assms
proof (induction as arbitrary: a)
  case Nil
  show ?case
  proof (cases cs)
    case cs: Nil
    have "bnext (bs ! b) = z" "bprev (bs ! b) = a" using Nil.prems cs by simp_all
    from unlink_buf_links[OF this] show ?thesis using Nil.prems cs by simp
  next
    case (Cons c ds)
    have "bnext (bs ! b) = c" "bprev (bs ! b) = a" using Nil.prems Cons by simp_all
    note l = unlink_buf_links[OF this]
    have "chain (unlink_buf b bs) c ds z = chain bs c ds z"
      using Nil.prems Cons by (intro chain_cong; subst l; auto)
    then show ?thesis using Nil.prems Cons by (simp add: l)
  qed
next
  case (Cons x as)
  have ch: "chain (unlink_buf b bs) x (as @ cs) z" using Cons.prems by (intro Cons.IH) auto
  define n where "n = hd (cs @ [z])"
  define p where "p = last (x # as)"
  have "chain bs x as b" "chain bs b cs z" using Cons.prems(1) by (simp_all add: chain_append)
  then have e: "bnext (bs ! b) = n" "bprev (bs ! b) = p"
    unfolding n_def p_def using chain_first chain_last by blast+
  have np: "n \<in> insert z (set cs)" "p \<in> set (x # as)"
    unfolding n_def p_def using last_in_set[of "x # as"] by (cases cs; simp)+
  then have "n \<noteq> b" "n < length bs" "p < length bs" "a \<noteq> p" "x \<noteq> n" using Cons.prems by auto
  then show ?case using ch Cons.prems unlink_buf_links[OF e] by simp
qed

lemma lru_unlink: "lru bs (as @ b # cs) \<Longrightarrow> lru (unlink_buf b bs) (as @ cs)"
  unfolding lru_def by (fastforce intro!: chain_unlink)

lemma lru_link_front:
  assumes "lru bs xs" and "b < NBUF" and "b \<notin> set xs"
  shows "lru (link_front b bs) (b # xs)"
proof -
  have len: "length bs = Suc NBUF" and ch: "chain bs NBUF xs NBUF" and xs: "\<forall>i \<in> set xs. i < NBUF" "distinct xs"
    using assms(1) by (auto simp: lru_def)
  define n where "n = hd (xs @ [NBUF])"
  have nx: "bnext (bs ! NBUF) = n" unfolding n_def using chain_first[OF ch] .
  have n: "n \<in> insert NBUF (set xs)" unfolding n_def by (cases xs) auto
  then have nb: "b \<noteq> NBUF" "b < length bs" "NBUF < length bs" "n \<noteq> b" "n < length bs"
    using assms len xs by auto
  note l = link_front_links[OF nx nb]
  have "chain (link_front b bs) b xs NBUF"
  proof (cases xs)
    case Nil
    then show ?thesis using nb by (simp add: l n_def)
  next
    case (Cons x ys)
    have "chain (link_front b bs) x ys NBUF = chain bs x ys NBUF"
      using Cons assms xs len nb by (intro chain_cong; subst l; auto simp: n_def)
    then show ?thesis using Cons ch nb xs len by (simp add: l n_def)
  qed
  then show ?thesis using assms len xs nb by (simp add: lru_def l)
qed

section \<open>Cache invariant\<close>

text \<open>One process uses the cache and holds the buffers \<open>H\<close>.  A clean buffer nobody holds agrees with the
  disk; no block is cached twice; a buffer is referenced and locked exactly while it is held.\<close>

definition buf_ok :: "block list \<Rightarrow> bool \<Rightarrow> buf \<Rightarrow> bool" where
  "buf_ok dk held q \<longleftrightarrow>
     length (bdata q) = BSIZE \<and> refcnt q = (if held then 1 else 0) \<and> (bdirty q \<longrightarrow> bvalid q) \<and>
     (bdev q = 1 \<and> unat (blockno q) < length dk \<or> bdev q = 0 \<and> \<not> bvalid q) \<and>
     (bvalid q \<and> \<not> bdirty q \<and> \<not> held \<longrightarrow> bdata q = dk ! unat (blockno q))"

definition caches :: "buf \<Rightarrow> nat \<Rightarrow> bool" where
  "caches q n \<longleftrightarrow> bdev q = 1 \<and> unat (blockno q) = n"

lemma caches_fun: "caches q m \<Longrightarrow> caches q n \<Longrightarrow> m = n"
  by (simp add: caches_def)

definition cache_ok :: "nat set \<Rightarrow> 'z bcache_scheme \<Rightarrow> bool" where
  "cache_ok H s \<longleftrightarrow>
     (\<exists>xs. lru (bufs s) xs \<and> set xs = {0..<NBUF}) \<and> H \<subseteq> {0..<NBUF} \<and>
     (\<forall>i < NBUF. buf_ok (disk s) (i \<in> H) (getbuf i s) \<and> slocked (slocks s (SlBuf i)) = (i \<in> H)) \<and>
     (\<forall>i < NBUF. \<forall>j < NBUF. \<forall>n. caches (getbuf i s) n \<longrightarrow> caches (getbuf j s) n \<longrightarrow> i = j) \<and>
     (\<forall>d \<in> set (disk s). length d = BSIZE)"

text \<open>What a process needs to run file system code: no spin lock held, and it is a process.\<close>

definition fs_ready :: "'z ptable_scheme \<Rightarrow> bool" where
  "fs_ready s \<longleftrightarrow> (\<forall>l. lk_free l s) \<and> cpu_stable (this_cpu s) \<and> curproc s \<noteq> None"

text \<open>The current contents of a block: the cached copy if there is a valid one, else the disk's.\<close>

definition content :: "'z bcache_scheme \<Rightarrow> nat \<Rightarrow> block" where
  "content s n =
     (case first_index (\<lambda>q. caches q n \<and> bvalid q) (take NBUF (bufs s)) of
        Some i \<Rightarrow> bdata (getbuf i s) | None \<Rightarrow> disk s ! n)"

lemma cache_ok_length: "cache_ok H s \<Longrightarrow> length (bufs s) = Suc NBUF"
  by (auto simp: cache_ok_def lru_def)

lemma cache_ok_unique:
  "cache_ok H s \<Longrightarrow> i < NBUF \<Longrightarrow> j < NBUF \<Longrightarrow> caches (getbuf i s) n \<Longrightarrow> caches (getbuf j s) n \<Longrightarrow> i = j"
  by (auto simp: cache_ok_def)

lemma cache_ok_buf: "cache_ok H s \<Longrightarrow> i < NBUF \<Longrightarrow> buf_ok (disk s) (i \<in> H) (getbuf i s)"
  by (auto simp: cache_ok_def)

lemma content_cached:
  assumes "cache_ok H s" and "i < NBUF" and "caches (getbuf i s) n" and "bvalid (getbuf i s)"
  shows "content s n = bdata (getbuf i s)"
proof -
  have len: "length (bufs s) = Suc NBUF" using cache_ok_length[OF assms(1)] .
  then obtain j where j: "first_index (\<lambda>q. caches q n \<and> bvalid q) (take NBUF (bufs s)) = Some j"
    using first_index_exists[of i "take NBUF (bufs s)" "\<lambda>q. caches q n \<and> bvalid q"] assms by auto
  then have "j < NBUF" "caches (getbuf j s) n"
    using first_index_SomeD[OF j] len by auto
  then have "j = i" using cache_ok_unique[OF assms(1) _ assms(2) _ assms(3)] by blast
  with j show ?thesis by (simp add: content_def)
qed

lemma content_uncached:
  assumes "\<And>i. i < NBUF \<Longrightarrow> caches (getbuf i s) n \<Longrightarrow> \<not> bvalid (getbuf i s)"
    and "length (bufs s) = Suc NBUF"
  shows "content s n = disk s ! n"
proof -
  have "first_index (\<lambda>q. caches q n \<and> bvalid q) (take NBUF (bufs s)) = None"
    using assms by (auto simp: in_set_conv_nth)
  then show ?thesis unfolding content_def by (simp only: option.case)
qed

section \<open>Looking up and recycling buffers\<close>

definition slhold :: "nat \<Rightarrow> 'z bcache_scheme \<Rightarrow> sleepid \<Rightarrow> sleeplock" where
  "slhold i s = (slocks s)(SlBuf i := (slocks s (SlBuf i))
     \<lparr>slocked := True, slpid := pid (procs s ! the (curproc s))\<rparr>)"

lemma fs_ready_proc: "fs_ready s \<Longrightarrow> \<exists>p. curproc s = Some p"
  by (auto simp: fs_ready_def)

lemma fs_readyD [simp]: "fs_ready s \<Longrightarrow> lk_free l s" "fs_ready s \<Longrightarrow> cpu_stable (this_cpu s)"
  by (simp_all add: fs_ready_def)

lemma fs_ready_upd [simp]:
  "fs_ready (s\<lparr>bufs := b\<rparr>) = fs_ready s" "fs_ready (s\<lparr>disk := d\<rparr>) = fs_ready s"
  "fs_ready (s\<lparr>dtrace := w\<rparr>) = fs_ready s"
  for s :: "'z bcache_scheme"
  by (simp_all add: fs_ready_def lk_free_def)

lemma fs_ready_upd_sleep [simp]: "fs_ready (s\<lparr>slocks := l\<rparr>) = fs_ready s" for s :: "'z sleepers_scheme"
  by (simp add: fs_ready_def lk_free_def)

lemma fs_ready_upd_procs [simp]: "fs_ready (s\<lparr>procs := ps\<rparr>) = fs_ready s" for s :: "'z ptable_scheme"
  by (simp add: fs_ready_def lk_free_def)

lemma acquiresleep_ready:
  assumes "fs_ready s" and "\<not> slocked (slocks s l)"
  shows "acquiresleep l s =
    Ret () (upd_slock l (\<lambda>k. k\<lparr>slocked := True, slpid := pid (procs s ! the (curproc s))\<rparr>) s)"
proof -
  obtain p where "curproc s = Some p" using fs_ready_proc[OF assms(1)] by blast
  then show ?thesis using assms acquiresleep_free[of l s p] by simp
qed

lemma bget_scan_fwd:
  assumes "lru (bufs s) xs"
  shows "scan_fwd (Suc NBUF) P (bufs s) (bnext (getbuf NBUF s)) = Some (List.find (\<lambda>i. P (getbuf i s)) xs)"
    and "scan_bwd (Suc NBUF) P (bufs s) (bprev (getbuf NBUF s)) = Some (List.find (\<lambda>i. P (getbuf i s)) (rev xs))"
proof -
  have "NBUF \<notin> set xs" "chain (bufs s) NBUF xs NBUF" "distinct xs" "set xs \<subseteq> {0..<NBUF}"
    using assms by (auto simp: lru_def)
  moreover from this have "length xs < Suc NBUF"
    using card_mono[of "{0..<NBUF}" "set xs"] by (simp add: distinct_card)
  ultimately show
    "scan_fwd (Suc NBUF) P (bufs s) (bnext (getbuf NBUF s)) = Some (List.find (\<lambda>i. P (getbuf i s)) xs)"
    "scan_bwd (Suc NBUF) P (bufs s) (bprev (getbuf NBUF s)) = Some (List.find (\<lambda>i. P (getbuf i s)) (rev xs))"
    using scan_fwd_find scan_bwd_find by blast+
qed

lemma bget_hit:
  assumes "lru (bufs s) xs" and "fs_ready s"
    and "List.find (\<lambda>i. bdev (getbuf i s) = dev \<and> blockno (getbuf i s) = bno) xs = Some i"
    and "\<not> slocked (slocks s (SlBuf i))"
  shows "bget dev bno s = Ret i (s\<lparr>bufs := upd_nth i (\<lambda>q. q\<lparr>refcnt := refcnt q + 1\<rparr>) (bufs s),
     slocks := slhold i s\<rparr>)"
  using assms bget_scan_fwd[OF assms(1)]
  by (simp add: bget_def lock_eval acquiresleep_ready slhold_def)

lemma bget_miss:
  assumes "lru (bufs s) xs" and "fs_ready s"
    and "List.find (\<lambda>i. bdev (getbuf i s) = dev \<and> blockno (getbuf i s) = bno) xs = None"
    and "List.find (\<lambda>i. refcnt (getbuf i s) = 0 \<and> \<not> bdirty (getbuf i s)) (rev xs) = Some i"
    and "\<not> slocked (slocks s (SlBuf i))"
  shows "bget dev bno s = Ret i (s\<lparr>bufs := upd_nth i (\<lambda>q. q\<lparr>bdev := dev, blockno := bno, bvalid := False,
       bdirty := False, refcnt := 1\<rparr>) (bufs s), slocks := slhold i s\<rparr>)"
  using assms bget_scan_fwd[OF assms(1)]
  by (simp add: bget_def lock_eval acquiresleep_ready slhold_def del: find_None_iff find_Some_iff)

text \<open>When every buffer is in use or dirty, the cache gives up.\<close>

lemma bget_no_buffers:
  assumes "lru (bufs s) xs" and "fs_ready s"
    and "List.find (\<lambda>i. bdev (getbuf i s) = dev \<and> blockno (getbuf i s) = bno) xs = None"
    and "List.find (\<lambda>i. refcnt (getbuf i s) = 0 \<and> \<not> bdirty (getbuf i s)) (rev xs) = None"
  shows "bget dev bno s = Panic ''bget: no buffers''"
  using assms bget_scan_fwd[OF assms(1)] by (simp add: bget_def lock_eval)

section \<open>The cache as a block store\<close>

text \<open>The blocks with changes that are not on the disk yet.\<close>

definition dirties :: "'z bcache_scheme \<Rightarrow> nat set" where
  "dirties s = {n. \<exists>i < NBUF. caches (getbuf i s) n \<and> bdirty (getbuf i s)}"

lemma lru_cong:
  assumes "\<And>i. i < length bs \<Longrightarrow> bnext (cs ! i) = bnext (bs ! i) \<and> bprev (cs ! i) = bprev (bs ! i)"
    and "length cs = length bs"
  shows "lru cs xs = lru bs xs"
proof -
  have "chain cs NBUF xs NBUF = chain bs NBUF xs NBUF" if "length bs = Suc NBUF" "\<forall>i \<in> set xs. i < NBUF"
    using that assms(1) by (intro chain_cong) (auto simp: less_Suc_eq)
  then show ?thesis using assms(2) by (auto simp: lru_def)
qed

lemma finite_dirties [simp]: "finite (dirties s)"
proof (rule finite_subset)
  show "dirties s \<subseteq> (\<lambda>i. unat (blockno (getbuf i s))) ` {0..<NBUF}"
    by (auto simp: dirties_def caches_def)
qed simp

text \<open>Where fewer blocks than buffers are dirty or held, some buffer can be recycled.\<close>

lemma free_buffer:
  assumes "cache_ok H s" and "card (dirties s) + card H < NBUF"
  shows "\<exists>i < NBUF. i \<notin> H \<and> \<not> bdirty (getbuf i s)"
proof (rule ccontr)
  let ?D = "{i. i < NBUF \<and> bdirty (getbuf i s)}"
  let ?f = "\<lambda>i. unat (blockno (getbuf i s))"
  assume "\<not> ?thesis"
  then have "{0..<NBUF} \<subseteq> H \<union> ?D" by auto
  moreover have fin: "finite H" using assms(1) finite_subset by (auto simp: cache_ok_def)
  ultimately have "NBUF \<le> card (H \<union> ?D)" by (metis card_atLeastLessThan card_mono diff_zero finite_Collect_conjI finite_Collect_less_nat finite_UnI)
  also have "\<dots> \<le> card H + card ?D" by (rule card_Un_le)
  finally have le: "NBUF \<le> card H + card ?D" .
  have c: "caches (getbuf i s) (?f i)" if "i \<in> ?D" for i
    using that cache_ok_buf[OF assms(1), of i] by (auto simp: buf_ok_def caches_def)
  then have "inj_on ?f ?D" by (intro inj_onI) (metis (no_types, lifting) assms(1) cache_ok_unique mem_Collect_eq)
  then have "card ?D = card (?f ` ?D)" by (simp add: card_image)
  also have "\<dots> \<le> card (dirties s)" using c by (intro card_mono finite_dirties) (auto simp: dirties_def)
  finally show False using le assms(2) by linarith
qed

text \<open>Changing one buffer, keeping its links.\<close>

lemma cache_ok_upd:
  assumes "cache_ok H s" and "i < NBUF" and "H' - {i} = H - {i}" and "H' \<subseteq> {0..<NBUF}"
    and "bnext q = bnext (getbuf i s)" "bprev q = bprev (getbuf i s)"
    and "buf_ok dk (i \<in> H') q"
    and "\<And>j n. j < NBUF \<Longrightarrow> j \<noteq> i \<Longrightarrow> caches q n \<Longrightarrow> \<not> caches (getbuf j s) n"
    and "\<And>j. j < NBUF \<Longrightarrow> j \<noteq> i \<Longrightarrow> slocked (sl (SlBuf j)) = slocked (slocks s (SlBuf j))"
    and "slocked (sl (SlBuf i)) = (i \<in> H')"
    and "\<And>j. j < NBUF \<Longrightarrow> j \<noteq> i \<Longrightarrow> buf_ok dk (j \<in> H) (getbuf j s)" and "\<forall>d \<in> set dk. length d = BSIZE"
    and "bufs t = (bufs s)[i := q]" "slocks t = sl" "disk t = dk"
  shows "cache_ok H' t"
proof -
  have len: "length (bufs s) = Suc NBUF" using cache_ok_length[OF assms(1)] .
  have lru: "lru (bufs t) xs = lru (bufs s) xs" for xs
    using assms(2,5,6,13) len by (intro lru_cong) (auto simp: nth_list_update)
  have H: "j \<in> H' \<longleftrightarrow> j \<in> H" if "j \<noteq> i" for j using assms(3) that by blast
  have gi: "getbuf i t = q" and gj: "\<And>j. j \<noteq> i \<Longrightarrow> getbuf j t = getbuf j s"
    using len assms(2,13) by simp_all
  have "buf_ok (disk t) (k \<in> H') (getbuf k t) \<and> slocked (slocks t (SlBuf k)) = (k \<in> H')" if k: "k < NBUF" for k
  proof (cases "k = i")
    case True
    then show ?thesis using assms(7,10,14,15) gi by simp
  next
    case False
    moreover have "slocked (slocks s (SlBuf k)) = (k \<in> H)" using assms(1) k by (simp add: cache_ok_def)
    ultimately show ?thesis using assms(9,11,14,15) gj H k by simp
  qed
  moreover have "j = k" if "j < NBUF" "k < NBUF" "caches (getbuf j t) n" "caches (getbuf k t) n" for j k n
    using that assms(8)[of j n] assms(8)[of k n] gi gj[of j] gj[of k] cache_ok_unique[OF assms(1), of j k n]
    by (cases "j = i"; cases "k = i") auto
  moreover have "\<exists>xs. lru (bufs t) xs \<and> set xs = {0..<NBUF}" using assms(1) lru by (simp add: cache_ok_def)
  ultimately show ?thesis using assms(4,12,15) unfolding cache_ok_def by blast
qed

lemma content_eq:
  assumes "cache_ok H s"
  shows "i < NBUF \<Longrightarrow> caches (getbuf i s) n \<Longrightarrow> content s n = (if bvalid (getbuf i s) then bdata (getbuf i s) else disk s ! n)"
    and "(\<And>i. i < NBUF \<Longrightarrow> \<not> caches (getbuf i s) n) \<Longrightarrow> content s n = disk s ! n"
proof -
  assume i: "i < NBUF" "caches (getbuf i s) n"
  show "content s n = (if bvalid (getbuf i s) then bdata (getbuf i s) else disk s ! n)"
  proof (cases "bvalid (getbuf i s)")
    case True
    then show ?thesis using content_cached[OF assms i] by simp
  next
    case False
    have "\<not> bvalid (getbuf j s)" if "j < NBUF" "caches (getbuf j s) n" for j
      using False cache_ok_unique[OF assms that(1) i(1) that(2) i(2)] by simp
    then show ?thesis using False content_uncached[OF _ cache_ok_length[OF assms]] by simp
  qed
next
  assume "\<And>i. i < NBUF \<Longrightarrow> \<not> caches (getbuf i s) n"
  then show "content s n = disk s ! n" using content_uncached[OF _ cache_ok_length[OF assms]] by blast
qed

text \<open>A block whose buffer is clean and not held reads as on the disk.\<close>

lemma content_clean:
  assumes "cache_ok H s" and "n \<notin> dirties s" and "\<And>i. i \<in> H \<Longrightarrow> \<not> caches (getbuf i s) n"
  shows "content s n = disk s ! n"
proof (cases "\<exists>i < NBUF. caches (getbuf i s) n")
  case True
  then obtain i where i: "i < NBUF" "caches (getbuf i s) n" by blast
  then have "\<not> bdirty (getbuf i s)" "i \<notin> H" using assms by (auto simp: dirties_def)
  then show ?thesis
    using content_eq(1)[OF assms(1) i] cache_ok_buf[OF assms(1) i(1)] i(2) by (auto simp: buf_ok_def caches_def)
next
  case False
  then show ?thesis using content_eq(2)[OF assms(1)] by blast
qed

lemma iderw_read:
  assumes "fs_ready s" and "slocked (slocks s (SlBuf b))" and "\<not> bvalid (getbuf b s)" and "\<not> bdirty (getbuf b s)"
    and "caches (getbuf b s) n" and "n < length (disk s)" and "b < length (bufs s)"
  shows "iderw b s = Ret () (s\<lparr>bufs := (bufs s)[b := (getbuf b s)\<lparr>bdata := disk s ! n, bvalid := True\<rparr>]\<rparr>)"
  using assms by (simp add: iderw_def holdingsleep_eq keval caches_def upd_nth_def)

lemma iderw_write:
  assumes "fs_ready s" and "slocked (slocks s (SlBuf b))" and "bdirty (getbuf b s)"
    and "caches (getbuf b s) n" and "n < length (disk s)" and "b < length (bufs s)"
  shows "iderw b s = Ret () (s\<lparr>bufs := (bufs s)[b := (getbuf b s)\<lparr>bdirty := False, bvalid := True\<rparr>],
     disk := (disk s)[n := bdata (getbuf b s)], dtrace := dtrace s @ [(n, bdata (getbuf b s))]\<rparr>)"
  using assms by (simp add: iderw_def holdingsleep_eq keval caches_def upd_nth_def)

text \<open>The buffer \<^verbatim>\<open>bget\<close> returns, and its state there.\<close>

definition got :: "nat \<Rightarrow> u32 \<Rightarrow> buf \<Rightarrow> buf" where
  "got n bno q = (if caches q n then q\<lparr>refcnt := 1\<rparr>
     else q\<lparr>bdev := 1, blockno := bno, bvalid := False, bdirty := False, refcnt := 1\<rparr>)"

lemma find_SomeD: "List.find P xs = Some x \<Longrightarrow> x \<in> set xs \<and> P x"
  by (induction xs) (auto split: if_splits)

lemma bget_spec:
  assumes "cache_ok H s" and "fs_ready s" and "unat bno = n" and "n < length (disk s)"
    and "\<And>i. i \<in> H \<Longrightarrow> \<not> caches (getbuf i s) n"
    and "n \<in> dirties s \<or> card (dirties s) + card H < NBUF"
  shows "\<exists>i < NBUF. i \<notin> H \<and> bget 1 bno s = Ret i (s\<lparr>bufs := (bufs s)[i := got n bno (getbuf i s)], slocks := slhold i s\<rparr>) \<and>
     (caches (getbuf i s) n \<or> \<not> bdirty (getbuf i s) \<and> (\<forall>j < NBUF. \<not> caches (getbuf j s) n))"
proof -
  obtain xs where xs: "lru (bufs s) xs" "set xs = {0..<NBUF}" using assms(1) by (auto simp: cache_ok_def)
  have len: "length (bufs s) = Suc NBUF" using cache_ok_length[OF assms(1)] .
  let ?P = "\<lambda>i. bdev (getbuf i s) = 1 \<and> blockno (getbuf i s) = bno"
  have P: "?P i \<longleftrightarrow> caches (getbuf i s) n" for i using assms(3) by (auto simp: caches_def word_unat_eq_iff)
  show ?thesis
  proof (cases "List.find ?P xs")
    case (Some i)
    then have i: "i < NBUF" "caches (getbuf i s) n" using find_SomeD[OF Some] xs P by auto
    then have "i \<notin> H" "refcnt (getbuf i s) = 0" "\<not> slocked (slocks s (SlBuf i))"
      using assms(1,5) cache_ok_buf[OF assms(1) i(1)] by (auto simp: buf_ok_def cache_ok_def)
    then show ?thesis
      using bget_hit[OF xs(1) assms(2) Some] i by (intro exI[of _ i]) (simp add: got_def upd_nth_def)
  next
    case None
    then have unc: "\<And>j. j < NBUF \<Longrightarrow> \<not> caches (getbuf j s) n" using xs P by (auto simp: find_None_iff)
    then have "n \<notin> dirties s" by (auto simp: dirties_def)
    then obtain j where j: "j < NBUF" "j \<notin> H" "\<not> bdirty (getbuf j s)" using free_buffer assms(1,6) by blast
    let ?Q = "\<lambda>i. refcnt (getbuf i s) = 0 \<and> \<not> bdirty (getbuf i s)"
    have "?Q j" using cache_ok_buf[OF assms(1) j(1)] j by (simp add: buf_ok_def)
    then obtain i where i: "List.find ?Q (rev xs) = Some i"
      using j xs by (cases "List.find ?Q (rev xs)") (auto simp: find_None_iff)
    then have iq: "?Q i" "i \<in> set (rev xs)" using find_SomeD by fast+
    then have iN: "i < NBUF" using xs by simp
    then have "i \<notin> H" "\<not> slocked (slocks s (SlBuf i))"
      using iq cache_ok_buf[OF assms(1) iN] assms(1) by (auto simp: buf_ok_def cache_ok_def split: if_splits)
    then show ?thesis
      using bget_miss[OF xs(1) assms(2) None i] iN iq unc by (intro exI[of _ i]) (simp add: got_def upd_nth_def)
  qed
qed

lemma dirties_upd:
  assumes "cache_ok H s" and "i < NBUF" and "bufs t = (bufs s)[i := q]"
  shows "dirties t = {m. caches q m \<and> bdirty q} \<union> (dirties s - {m. caches (getbuf i s) m})"
proof -
  have g: "getbuf i t = q" "\<And>j. j \<noteq> i \<Longrightarrow> getbuf j t = getbuf j s"
    using assms(2,3) cache_ok_length[OF assms(1)] by simp_all
  show ?thesis
  proof (intro set_eqI iffI)
    fix m assume "m \<in> dirties t"
    then obtain j where j: "j < NBUF" "caches (getbuf j t) m" "bdirty (getbuf j t)" by (auto simp: dirties_def)
    show "m \<in> {m. caches q m \<and> bdirty q} \<union> (dirties s - {m. caches (getbuf i s) m})"
    proof (cases "j = i")
      case False
      then have "\<not> caches (getbuf i s) m" using j g cache_ok_unique[OF assms(1) j(1) assms(2), of m] by auto
      then show ?thesis using j g(2)[OF False] by (auto simp: dirties_def)
    qed (use j g in simp)
  next
    fix m assume "m \<in> {m. caches q m \<and> bdirty q} \<union> (dirties s - {m. caches (getbuf i s) m})"
    then consider "caches q m" "bdirty q" | j where "j < NBUF" "j \<noteq> i" "caches (getbuf j s) m" "bdirty (getbuf j s)"
      by (auto simp: dirties_def)
    then show "m \<in> dirties t" using g assms(2) by cases (auto simp: dirties_def)
  qed
qed

lemma content_upd:
  assumes "cache_ok H s" and "cache_ok H' t" and "i < NBUF" and "bufs t = (bufs s)[i := q]"
  shows "caches q m \<Longrightarrow> content t m = (if bvalid q then bdata q else disk t ! m)"
    and "\<not> caches q m \<Longrightarrow> caches (getbuf i s) m \<Longrightarrow> content t m = disk t ! m"
    and "\<not> caches q m \<Longrightarrow> \<not> caches (getbuf i s) m \<Longrightarrow> disk t ! m = disk s ! m \<Longrightarrow> content t m = content s m"
proof -
  have g: "getbuf i t = q" "\<And>j. j \<noteq> i \<Longrightarrow> getbuf j t = getbuf j s"
    using assms(3,4) cache_ok_length[OF assms(1)] by simp_all
  show "caches q m \<Longrightarrow> content t m = (if bvalid q then bdata q else disk t ! m)"
    using content_eq(1)[OF assms(2,3)] g by simp
  assume n: "\<not> caches q m"
  have gt: "caches (getbuf j t) m \<longleftrightarrow> j \<noteq> i \<and> caches (getbuf j s) m" for j using g n by (cases "j = i") auto
  show "content t m = disk t ! m" if "caches (getbuf i s) m"
    using content_eq(2)[OF assms(2), of m] gt that cache_ok_unique[OF assms(1) _ assms(3), of _ m] by blast
  show "content t m = content s m" if o: "\<not> caches (getbuf i s) m" and d: "disk t ! m = disk s ! m"
  proof (cases "\<exists>j < NBUF. caches (getbuf j s) m")
    case True
    then obtain j where j: "j < NBUF" "caches (getbuf j s) m" by blast
    then have "j \<noteq> i" using o by auto
    then show ?thesis
      using content_eq(1)[OF assms(2) j(1)] content_eq(1)[OF assms(1) j] gt j g(2) d by simp
  next
    case False
    then show ?thesis using content_eq(2)[OF assms(2), of m] content_eq(2)[OF assms(1), of m] gt d by auto
  qed
qed

definition loaded :: "block list \<Rightarrow> nat \<Rightarrow> buf \<Rightarrow> buf" where
  "loaded dk n q = (if bvalid q then q else q\<lparr>bdata := dk ! n, bvalid := True\<rparr>)"

lemma got_loaded_simps [simp]:
  "bnext (got n bno q) = bnext q" "bprev (got n bno q) = bprev q" "refcnt (got n bno q) = 1"
  "bnext (loaded dk n q) = bnext q" "bprev (loaded dk n q) = bprev q" "refcnt (loaded dk n q) = refcnt q"
  "bdev (loaded dk n q) = bdev q" "blockno (loaded dk n q) = blockno q" "bdirty (loaded dk n q) = bdirty q"
  "bvalid (loaded dk n q)" "caches (loaded dk n q) m = caches q m"
  by (simp_all add: got_def loaded_def caches_def)

lemma caches_got: "unat bno = n \<Longrightarrow> caches (got n bno q) m \<longleftrightarrow> m = n"
  by (auto simp: got_def caches_def)

lemma bread_eq:
  assumes "cache_ok H s" and "fs_ready s" and "unat bno = n" and "n < length (disk s)"
    and "\<And>i. i \<in> H \<Longrightarrow> \<not> caches (getbuf i s) n"
    and "n \<in> dirties s \<or> card (dirties s) + card H < NBUF"
  shows "\<exists>i < NBUF. i \<notin> H \<and>
     bread 1 bno s = Ret i (s\<lparr>bufs := (bufs s)[i := loaded (disk s) n (got n bno (getbuf i s))], slocks := slhold i s\<rparr>) \<and>
     (caches (getbuf i s) n \<or> \<not> bdirty (getbuf i s) \<and> (\<forall>j < NBUF. \<not> caches (getbuf j s) n))"
proof -
  obtain i where i: "i < NBUF" "i \<notin> H"
    "bget 1 bno s = Ret i (s\<lparr>bufs := (bufs s)[i := got n bno (getbuf i s)], slocks := slhold i s\<rparr>)"
    "caches (getbuf i s) n \<or> \<not> bdirty (getbuf i s) \<and> (\<forall>j < NBUF. \<not> caches (getbuf j s) n)"
    using bget_spec[OF assms] by blast
  let ?t = "s\<lparr>bufs := (bufs s)[i := got n bno (getbuf i s)], slocks := slhold i s\<rparr>"
  have len: "i < length (bufs s)" using i(1) cache_ok_length[OF assms(1)] by simp
  show ?thesis
  proof (cases "bvalid (got n bno (getbuf i s))")
    case True
    then show ?thesis using i len by (intro exI[of _ i]) (simp add: bread_def keval loaded_def)
  next
    case False
    have "\<not> bdirty (got n bno (getbuf i s))"
      using False cache_ok_buf[OF assms(1) i(1)] by (auto simp: got_def buf_ok_def split: if_splits)
    then have "iderw i ?t = Ret () (?t\<lparr>bufs := (bufs s)[i := loaded (disk s) n (got n bno (getbuf i s))]\<rparr>)"
      using iderw_read[of ?t i n] False assms(2,3,4) len by (simp add: slhold_def caches_got loaded_def)
    then show ?thesis using i len False by (intro exI[of _ i]) (simp add: bread_def keval)
  qed
qed

lemma bread_spec:
  assumes "cache_ok H s" and "fs_ready s" and "unat bno = n" and "n < length (disk s)"
    and "\<And>i. i \<in> H \<Longrightarrow> \<not> caches (getbuf i s) n"
    and "n \<in> dirties s \<or> card (dirties s) + card H < NBUF"
  shows "\<exists>i t. bread 1 bno s = Ret i t \<and> i < NBUF \<and> i \<notin> H \<and> cache_ok (insert i H) t \<and> fs_ready t \<and>
     t = s\<lparr>bufs := bufs t, slocks := slocks t\<rparr> \<and>
     caches (getbuf i t) n \<and> bvalid (getbuf i t) \<and> bdata (getbuf i t) = content s n \<and>
     (bdirty (getbuf i t) \<longleftrightarrow> n \<in> dirties s) \<and>
     (\<forall>j < NBUF. j \<noteq> i \<longrightarrow> getbuf j t = getbuf j s) \<and> dirties t = dirties s \<and>
     (\<forall>m. content t m = content s m)"
proof -
  obtain i where i: "i < NBUF" "i \<notin> H"
    and r: "bread 1 bno s = Ret i (s\<lparr>bufs := (bufs s)[i := loaded (disk s) n (got n bno (getbuf i s))], slocks := slhold i s\<rparr>)"
    and old: "caches (getbuf i s) n \<or> \<not> bdirty (getbuf i s) \<and> (\<forall>j < NBUF. \<not> caches (getbuf j s) n)"
    using bread_eq[OF assms] by blast
  define q where "q = loaded (disk s) n (got n bno (getbuf i s))"
  define t where "t = s\<lparr>bufs := (bufs s)[i := q], slocks := slhold i s\<rparr>"
  have len: "length (bufs s) = Suc NBUF" using cache_ok_length[OF assms(1)] .
  have gi: "getbuf i t = q" and gj: "\<And>j. j \<noteq> i \<Longrightarrow> getbuf j t = getbuf j s"
    using i len by (simp_all add: t_def)
  have bi: "buf_ok (disk s) False (getbuf i s)" using cache_ok_buf[OF assms(1) i(1)] i(2) by simp
  have dl: "length (disk s ! n) = BSIZE" using assms(1,4) by (simp add: cache_ok_def)
  have qc: "caches q m \<longleftrightarrow> m = n" for m using assms(3) by (simp add: q_def caches_got)
  have qok: "buf_ok (disk s) True q"
    using bi dl assms(3,4) by (auto simp: buf_ok_def q_def loaded_def got_def caches_def)
  have data: "bdata q = content s n"
    using old bi content_eq(1)[OF assms(1), of i n] content_eq(2)[OF assms(1), of n] i(1)
    by (auto simp: q_def loaded_def got_def buf_ok_def caches_def)
  have ok: "cache_ok (insert i H) t"
  proof (rule cache_ok_upd[OF assms(1) i(1), where q = q and dk = "disk s" and sl = "slhold i s"])
    show "\<And>j m. j < NBUF \<Longrightarrow> j \<noteq> i \<Longrightarrow> caches q m \<Longrightarrow> \<not> caches (getbuf j s) m"
      using old cache_ok_unique[OF assms(1) _ i(1)] by (auto simp: qc)
    show "\<And>j. j < NBUF \<Longrightarrow> j \<noteq> i \<Longrightarrow> buf_ok (disk s) (j \<in> H) (getbuf j s)" using cache_ok_buf[OF assms(1)] by blast
  qed (use assms(1) i qok in \<open>auto simp: q_def slhold_def t_def cache_ok_def\<close>)
  have dq: "bdirty q \<longleftrightarrow> n \<in> dirties s"
    using old i(1) cache_ok_unique[OF assms(1) _ i(1)] by (auto simp: q_def got_def dirties_def)
  have bt: "bufs t = (bufs s)[i := q]" "disk t = disk s" by (simp_all add: t_def)
  have "dirties t = dirties s"
    using dirties_upd[OF assms(1) i(1) bt(1)] old dq by (auto simp: qc dirties_def dest: caches_fun cache_ok_unique[OF assms(1) _ i(1)])
  moreover have "content t m = content s m" for m
  proof (cases "m = n")
    case True
    then show ?thesis using content_upd(1)[OF assms(1) ok i(1) bt(1)] qc data by (simp add: q_def)
  next
    case False
    then have nq: "\<not> caches q m" using qc by simp
    show ?thesis
    proof (cases "caches (getbuf i s) m")
      case True
      then have "\<not> bdirty (getbuf i s)" using old False by (auto simp: caches_def)
      then have "content s m = disk s ! m"
        using content_eq(1)[OF assms(1) i(1) True] bi True by (auto simp: buf_ok_def caches_def)
      then show ?thesis using content_upd(2)[OF assms(1) ok i(1) bt(1) nq True] bt by simp
    qed (use content_upd(3)[OF assms(1) ok i(1) bt(1) nq] bt in simp)
  qed
  ultimately show ?thesis
    using r i ok gi gj data dq qc[of n] assms(2)
    by (intro exI[of _ i] exI[of _ t]) (simp add: q_def t_def)
qed

lemma dirties_iff:
  "cache_ok H s \<Longrightarrow> i < NBUF \<Longrightarrow> caches (getbuf i s) m \<Longrightarrow> m \<in> dirties s \<longleftrightarrow> bdirty (getbuf i s)"
  by (auto simp: dirties_def dest: cache_ok_unique)

lemma dirties_same:
  assumes "cache_ok H s" and "i < NBUF" and "bufs t = (bufs s)[i := q]"
    and "\<And>m. caches q m = caches (getbuf i s) m" and "bdirty q = bdirty (getbuf i s)"
  shows "dirties t = dirties s"
  using dirties_upd[OF assms(1-3)] dirties_iff[OF assms(1,2)] assms(4,5) by auto

lemma held_buf:
  assumes "cache_ok H s" and "i \<in> H"
  shows "i < NBUF" "i < length (bufs s)" "slocked (slocks s (SlBuf i))" "buf_ok (disk s) True (getbuf i s)"
  using assms cache_ok_buf[OF assms(1), of i] cache_ok_length[OF assms(1)] by (auto simp: cache_ok_def)

text \<open>Storing into a held buffer changes the block's contents.\<close>

lemma set_data_spec:
  assumes "cache_ok H s" and "i \<in> H" and "caches (getbuf i s) n" and "bvalid (getbuf i s)"
    and "length (f (bdata (getbuf i s))) = BSIZE"
    and "t = s\<lparr>bufs := (bufs s)[i := (getbuf i s)\<lparr>bdata := f (bdata (getbuf i s))\<rparr>]\<rparr>"
  shows "set_data i f s = Ret () t" "cache_ok H t" "dirties t = dirties s"
    "content t m = (if m = n then f (content s n) else content s m)"
proof -
  note h = held_buf[OF assms(1,2)]
  define q where "q = (getbuf i s)\<lparr>bdata := f (bdata (getbuf i s))\<rparr>"
  have q: "caches q k = caches (getbuf i s) k" "bdirty q = bdirty (getbuf i s)" for k by (simp_all add: q_def caches_def)
  have bt: "bufs t = (bufs s)[i := q]" "disk t = disk s" using assms(6) by (simp_all add: q_def)
  show "set_data i f s = Ret () t" using assms(6) by (simp add: set_data_def upd_nth_def)
  show ok: "cache_ok H t"
  proof (rule cache_ok_upd[OF assms(1) h(1), where q = q and dk = "disk s" and sl = "slocks s"])
    show "\<And>j m. j < NBUF \<Longrightarrow> j \<noteq> i \<Longrightarrow> caches q m \<Longrightarrow> \<not> caches (getbuf j s) m"
      using q cache_ok_unique[OF assms(1) _ h(1)] by blast
    show "\<And>j. j < NBUF \<Longrightarrow> j \<noteq> i \<Longrightarrow> buf_ok (disk s) (j \<in> H) (getbuf j s)" using cache_ok_buf[OF assms(1)] by blast
    show "buf_ok (disk s) (i \<in> H) q" using h(4) assms(2,5) by (auto simp: buf_ok_def q_def)
  qed (use assms h in \<open>auto simp: q_def cache_ok_def\<close>)
  show "dirties t = dirties s"
    using dirties_same[OF assms(1) h(1) bt(1)] q by simp
  show "content t m = (if m = n then f (content s n) else content s m)"
    using content_upd[OF assms(1) ok h(1) bt(1), of m] bt(2) q(1) assms(3,4)
      content_eq(1)[OF assms(1) h(1) assms(3)]
    by (cases "m = n") (auto simp: q_def dest: caches_fun)
qed

lemma bwrite_spec:
  assumes "cache_ok H s" and "fs_ready s" and "i \<in> H" and "caches (getbuf i s) n" and "bvalid (getbuf i s)"
    and "t = s\<lparr>bufs := (bufs s)[i := (getbuf i s)\<lparr>bdirty := False, bvalid := True\<rparr>],
           disk := (disk s)[n := content s n], dtrace := dtrace s @ [(n, content s n)]\<rparr>"
  shows "bwrite i s = Ret () t" "cache_ok H t" "dirties t = dirties s - {n}"
    "content t m = content s m"
proof -
  note h = held_buf[OF assms(1,3)]
  have c: "content s n = bdata (getbuf i s)" using content_eq(1)[OF assms(1) h(1) assms(4)] assms(5) by simp
  have n: "n < length (disk s)" using h(4) assms(4) by (auto simp: buf_ok_def caches_def)
  define q where "q = (getbuf i s)\<lparr>bdirty := False, bvalid := True\<rparr>"
  have q: "caches q k = caches (getbuf i s) k" "\<not> bdirty q" "bvalid q" "bdata q = content s n" for k
    by (simp_all add: q_def caches_def c)
  have bt: "bufs t = (bufs s)[i := q]" "disk t = (disk s)[n := content s n]" using assms(6) by (simp_all add: q_def)
  let ?u = "upd_buf i (\<lambda>q. q\<lparr>bdirty := True\<rparr>) s"
  show "bwrite i s = Ret () t"
    using iderw_write[of ?u i n] assms h n c
    by (simp add: bwrite_def holdingsleep_eq keval upd_nth_def caches_def)
  show ok: "cache_ok H t"
  proof (rule cache_ok_upd[OF assms(1) h(1), where q = q and dk = "(disk s)[n := content s n]" and sl = "slocks s"])
    show "\<And>j m. j < NBUF \<Longrightarrow> j \<noteq> i \<Longrightarrow> caches q m \<Longrightarrow> \<not> caches (getbuf j s) m"
      using q cache_ok_unique[OF assms(1) _ h(1)] by blast
    show "buf_ok ((disk s)[n := content s n]) (j \<in> H) (getbuf j s)" if "j < NBUF" "j \<noteq> i" for j
    proof -
      have "\<not> caches (getbuf j s) n" using that cache_ok_unique[OF assms(1) _ h(1) _ assms(4)] by blast
      then show ?thesis using cache_ok_buf[OF assms(1) that(1)] by (auto simp: buf_ok_def caches_def)
    qed
    show "buf_ok ((disk s)[n := content s n]) (i \<in> H) q" using h(4) assms(3,5) by (auto simp: buf_ok_def q_def)
    have "length (content s n) = BSIZE" using h(4) c by (simp add: buf_ok_def)
    then show "\<forall>d \<in> set ((disk s)[n := content s n]). length d = BSIZE"
      using assms(1) set_update_subset_insert[of "disk s" n "content s n"] by (auto simp: cache_ok_def)
  qed (use assms h in \<open>auto simp: q_def cache_ok_def\<close>)
  show "dirties t = dirties s - {n}"
    using dirties_upd[OF assms(1) h(1) bt(1)] q assms(4) by (auto dest: caches_fun)
  show "content t m = content s m"
    using content_upd[OF assms(1) ok h(1) bt(1), of m] q assms(4) bt(2)
    by (cases "m = n") (auto dest: caches_fun)
qed

text \<open>Relinking a buffer at the front of the recently-used list.\<close>

lemma core_nth: "map core bs = map core cs \<Longrightarrow> i < length bs \<Longrightarrow> core (bs ! i) = core (cs ! i)"
  by (metis length_map nth_map)

lemma caches_core: "core q = core r \<Longrightarrow> caches q n = caches r n"
  by (auto simp: caches_def dest: core_eqD)

lemma buf_ok_core: "core q = core r \<Longrightarrow> buf_ok dk h q = buf_ok dk h r"
  by (auto simp: buf_ok_def dest: core_eqD)

lemma relink_spec:
  assumes "cache_ok H s" and "i < NBUF" and "bufs t = link_front i (unlink_buf i (bufs s))"
    and "slocks t = slocks s" "disk t = disk s"
  shows "cache_ok H t" "dirties t = dirties s" "content t m = content s m"
    and "j < NBUF \<Longrightarrow> core (getbuf j t) = core (getbuf j s)"
proof -
  have len: "length (bufs s) = Suc NBUF" using cache_ok_length[OF assms(1)] .
  have c: "core (getbuf j t) = core (getbuf j s)" if "j < NBUF" for j
    using core_nth[of "bufs t" "bufs s" j] assms(3) len that by simp
  then show "j < NBUF \<Longrightarrow> core (getbuf j t) = core (getbuf j s)" .
  obtain xs where xs: "lru (bufs s) xs" "set xs = {0..<NBUF}" using assms(1) by (auto simp: cache_ok_def)
  then obtain as cs where sp: "xs = as @ i # cs" using assms(2) split_list[of i xs] by auto
  then have "i \<notin> set (as @ cs)" using xs(1) by (auto simp: lru_def)
  then have "lru (bufs t) (i # as @ cs)"
    using lru_link_front[OF lru_unlink assms(2)] xs(1) sp assms(3) by simp
  moreover have "set (i # as @ cs) = {0..<NBUF}" using xs(2) sp by auto
  ultimately have l: "\<exists>ys. lru (bufs t) ys \<and> set ys = {0..<NBUF}" by blast
  then show ok: "cache_ok H t"
    using assms(1,4,5) caches_core[OF c] buf_ok_core[OF c] unfolding cache_ok_def by simp
  have "caches (getbuf j t) k \<and> bdirty (getbuf j t) \<longleftrightarrow> caches (getbuf j s) k \<and> bdirty (getbuf j s)"
    if "j < NBUF" for j k
    using caches_core[OF c[OF that]] core_eqD[OF c[OF that]] by simp
  then show "dirties t = dirties s" by (auto simp: dirties_def)
  show "content t m = content s m"
  proof (cases "\<exists>j < NBUF. caches (getbuf j s) m")
    case True
    then obtain j where j: "j < NBUF" "caches (getbuf j s) m" by blast
    then show ?thesis
      using content_eq(1)[OF ok, of j] content_eq(1)[OF assms(1), of j] caches_core[OF c[OF j(1)]] core_eqD[OF c[OF j(1)]]
        assms(5) by simp
  next
    case False
    then show ?thesis
      using content_eq(2)[OF ok, of m] content_eq(2)[OF assms(1), of m] caches_core[OF c] assms(5) by auto
  qed
qed

definition woken :: "proc list \<Rightarrow> proc list \<Rightarrow> bool" where
  "woken ps qs \<longleftrightarrow> list_all2 (\<lambda>p q. q = p \<or> state p = SLEEPING \<and> q = p\<lparr>state := RUNNABLE\<rparr>) ps qs"

lemma woken_refl [simp]: "woken ps ps"
  by (simp add: woken_def list_all2_same)

lemma woken_trans: "woken ps qs \<Longrightarrow> woken qs rs \<Longrightarrow> woken ps rs"
  unfolding woken_def list_all2_conv_all_nth by fastforce

lemma woken_wake: "woken ps (wake c ps)"
  by (simp add: woken_def wake_def list_all2_map2 list_all2_same)

lemma brelse_spec:
  assumes "cache_ok H s" and "fs_ready s" and "i \<in> H" and "caches (getbuf i s) n"
    and "bdirty (getbuf i s) \<or> content s n = disk s ! n" and "bvalid (getbuf i s)"
  shows "\<exists>t. brelse i s = Ret () t \<and> cache_ok (H - {i}) t \<and> fs_ready t \<and>
     t = s\<lparr>bufs := bufs t, slocks := slocks t, procs := procs t\<rparr> \<and> woken (procs s) (procs t) \<and>
     (\<forall>j < NBUF. j \<noteq> i \<longrightarrow> core (getbuf j t) = core (getbuf j s)) \<and> dirties t = dirties s \<and>
     (\<forall>m. content t m = content s m)"
proof -
  note h = held_buf[OF assms(1,3)]
  define q where "q = (getbuf i s)\<lparr>refcnt := 0\<rparr>"
  define sl where "sl = (slocks s)(SlBuf i := (slocks s (SlBuf i))\<lparr>slocked := False, slpid := 0\<rparr>)"
  define u where "u = s\<lparr>bufs := (bufs s)[i := q], slocks := sl, procs := wake (ChSleep (SlBuf i)) (procs s)\<rparr>"
  define t where "t = u\<lparr>bufs := link_front i (unlink_buf i (bufs u))\<rparr>"
  have q: "caches q k = caches (getbuf i s) k" "bdirty q = bdirty (getbuf i s)" "bvalid q" for k
    using assms(6) by (simp_all add: q_def caches_def)
  have bu: "bufs u = (bufs s)[i := q]" "disk u = disk s" by (simp_all add: u_def)
  have "refcnt (getbuf i s) = 1" using h(4) by (simp add: buf_ok_def)
  then have r: "brelse i s = Ret () t"
    using assms(2) h
    by (simp add: brelse_def holdingsleep_eq releasesleep_eq upd_nth_def t_def u_def sl_def q_def lock_eval)
  have c: "content s n = bdata (getbuf i s)" using content_eq(1)[OF assms(1) h(1) assms(4)] assms(6) by simp
  have ok: "cache_ok (H - {i}) u"
  proof (rule cache_ok_upd[OF assms(1) h(1), where q = q and dk = "disk s" and sl = sl])
    show "\<And>j m. j < NBUF \<Longrightarrow> j \<noteq> i \<Longrightarrow> caches q m \<Longrightarrow> \<not> caches (getbuf j s) m"
      using q cache_ok_unique[OF assms(1) _ h(1)] by blast
    show "\<And>j. j < NBUF \<Longrightarrow> j \<noteq> i \<Longrightarrow> buf_ok (disk s) (j \<in> H) (getbuf j s)" using cache_ok_buf[OF assms(1)] by blast
    show "buf_ok (disk s) (i \<in> H - {i}) q" using h(4) assms(4,5) c by (auto simp: buf_ok_def q_def caches_def)
  qed (use assms h in \<open>auto simp: q_def cache_ok_def sl_def u_def\<close>)
  have du: "dirties u = dirties s" using dirties_same[OF assms(1) h(1) bu(1)] q by simp
  have cu: "content u m = content s m" for m
    using content_upd[OF assms(1) ok h(1) bu(1), of m] bu(2) q assms(4,6) c
    by (cases "m = n") (auto simp: q_def dest: caches_fun)
  have "bufs t = link_front i (unlink_buf i (bufs u))" "slocks t = slocks u" "disk t = disk u" by (simp_all add: t_def)
  note rl = relink_spec[OF ok h(1) this]
  have "core (getbuf j t) = core (getbuf j s)" if "j < NBUF" "j \<noteq> i" for j
    using rl(4)[OF that(1)] that bu(1) by simp
  moreover have "fs_ready t" using assms(2) by (simp add: t_def u_def)
  ultimately show ?thesis
    using r rl(1-3) du cu woken_wake[of "procs s"]
    by (intro exI[of _ t]) (simp add: t_def u_def)
qed

section \<open>The cache as an interface\<close>

text \<open>The disk after a sequence of block writes.\<close>

definition apply_writes :: "(nat \<times> block) list \<Rightarrow> block list \<Rightarrow> block list" where
  "apply_writes ws dsk = fold (\<lambda>(n, d) ds. ds[n := d]) ws dsk"

lemma apply_writes_simps [simp]:
  "apply_writes [] dsk = dsk"
  "apply_writes ((n, d) # ws) dsk = apply_writes ws (dsk[n := d])"
  "apply_writes (vs @ ws) dsk = apply_writes ws (apply_writes vs dsk)"
  by (simp_all add: apply_writes_def)

lemma length_apply_writes [simp]: "length (apply_writes ws dsk) = length dsk"
  by (induction ws arbitrary: dsk) auto

lemma apply_writes_other: "n \<notin> fst ` set ws \<Longrightarrow> apply_writes ws dsk ! n = dsk ! n"
  by (induction ws arbitrary: dsk) auto

text \<open>What the log and the file system rely on.  \<open>inv H s\<close>: the cache is usable and the client holds the
  buffers \<open>H\<close>; \<open>blk s i n\<close>: buffer \<open>i\<close> holds block \<open>n\<close>; \<open>view\<close>: the current contents of the
  blocks; \<open>unsynced\<close>: the blocks pinned with changes the disk does not have; \<open>rest\<close>: everything the
  cache does not touch.\<close>

locale block_cache =
  fixes inv :: "nat set \<Rightarrow> 's \<Rightarrow> bool"
    and blk :: "'s \<Rightarrow> nat \<Rightarrow> nat \<Rightarrow> bool"
    and view :: "'s \<Rightarrow> nat \<Rightarrow> block"
    and unsynced :: "'s \<Rightarrow> nat set"
    and dk :: "'s \<Rightarrow> block list"
    and tr :: "'s \<Rightarrow> (nat \<times> block) list"
    and rest :: "'s \<Rightarrow> 's"
    and rd :: "u32 \<Rightarrow> (nat, 's) km"
    and wr rel :: "nat \<Rightarrow> (unit, 's) km"
    and setd :: "nat \<Rightarrow> (block \<Rightarrow> block) \<Rightarrow> (unit, 's) km"
    and bytes_of :: "nat \<Rightarrow> 's \<Rightarrow> block"
  assumes data_view: "inv H s \<Longrightarrow> i \<in> H \<Longrightarrow> blk s i n \<Longrightarrow> bytes_of i s = view s n"
    and view_length: "inv H s \<Longrightarrow> n < length (dk s) \<Longrightarrow> length (view s n) = BSIZE"
    and view_clean: "inv {} s \<Longrightarrow> n \<notin> unsynced s \<Longrightarrow> view s n = dk s ! n"
    and held_in_range: "inv H s \<Longrightarrow> i \<in> H \<Longrightarrow> blk s i n \<Longrightarrow> n < length (dk s)"
    and blk_fun: "blk s i m \<Longrightarrow> blk s i n \<Longrightarrow> m = n"
    and rd_law: "inv H s \<Longrightarrow> unat b < length (dk s) \<Longrightarrow> (\<And>i. i \<in> H \<Longrightarrow> \<not> blk s i (unat b)) \<Longrightarrow>
      (\<And>i. i \<in> H \<Longrightarrow> \<exists>n. blk s i n) \<Longrightarrow>
      unat b \<in> unsynced s \<or> card (unsynced s) + card H < NBUF \<Longrightarrow>
      \<exists>i t. rd b s = Ret i t \<and> i \<notin> H \<and> inv (insert i H) t \<and> blk t i (unat b) \<and>
        (\<forall>j \<in> H. \<forall>m. blk t j m = blk s j m) \<and> view t = view s \<and> unsynced t = unsynced s \<and>
        dk t = dk s \<and> tr t = tr s \<and> rest t = rest s"
    and setd_law: "inv H s \<Longrightarrow> i \<in> H \<Longrightarrow> blk s i n \<Longrightarrow> length (f (view s n)) = BSIZE \<Longrightarrow>
      \<exists>t. setd i f s = Ret () t \<and> inv H t \<and> blk t = blk s \<and> view t = (view s)(n := f (view s n)) \<and>
        unsynced t = unsynced s \<and> dk t = dk s \<and> tr t = tr s \<and> rest t = rest s"
    and wr_law: "inv H s \<Longrightarrow> i \<in> H \<Longrightarrow> blk s i n \<Longrightarrow>
      \<exists>t. wr i s = Ret () t \<and> inv H t \<and> blk t = blk s \<and> view t = view s \<and>
        unsynced t = unsynced s - {n} \<and> dk t = (dk s)[n := view s n] \<and> tr t = tr s @ [(n, view s n)] \<and>
        rest t = rest s"
    and rel_law: "inv H s \<Longrightarrow> i \<in> H \<Longrightarrow> blk s i n \<Longrightarrow> n \<in> unsynced s \<or> view s n = dk s ! n \<Longrightarrow>
      \<exists>t. rel i s = Ret () t \<and> inv (H - {i}) t \<and> (\<forall>j \<in> H - {i}. \<forall>m. blk t j m = blk s j m) \<and>
        view t = view s \<and> unsynced t = unsynced s \<and> dk t = dk s \<and> tr t = tr s \<and> rest t = rest s"
begin

text \<open>The outcome of an operation that leaves no buffer held: new contents, and the blocks written.\<close>

definition settles :: "'s \<Rightarrow> (nat \<Rightarrow> block) \<Rightarrow> nat set \<Rightarrow> (nat \<times> block) list \<Rightarrow> 's \<Rightarrow> bool" where
  "settles s v u ws t \<longleftrightarrow> inv {} t \<and> view t = v \<and> unsynced t = u \<and>
     dk t = apply_writes ws (dk s) \<and> tr t = tr s @ ws \<and> rest t = rest s"

lemma settles_trans:
  "settles s v u ws t \<Longrightarrow> settles t v' u' ws' w \<Longrightarrow> settles s v' u' (ws @ ws') w"
  by (simp add: settles_def)

text \<open>Read a block: bread, use the data, brelse.\<close>

lemma read_settles:
  assumes "inv {} s" and "unat b < length (dk s)" and "unat b \<in> unsynced s \<or> card (unsynced s) < NBUF"
  shows "runs (kbind (rd b) (\<lambda>i. kbind (kget (bytes_of i)) (\<lambda>d. kthen (rel i) (ret d)))) s
           (\<lambda>d t. d = view s (unat b) \<and> settles s (view s) (unsynced s) [] t)"
proof -
  obtain i t where t: "rd b s = Ret i t" "inv {i} t" "blk t i (unat b)" "view t = view s"
      "unsynced t = unsynced s" "dk t = dk s" "tr t = tr s" "rest t = rest s"
    using rd_law[of "{}" s b] assms by auto
  have "unat b \<in> unsynced t \<or> view t (unat b) = dk t ! unat b"
    using view_clean[OF assms(1), of "unat b"] t by auto
  then obtain u where "rel i t = Ret () u" "inv {} u" "view u = view t" "unsynced u = unsynced t"
      "dk u = dk t" "tr u = tr t" "rest u = rest t"
    using rel_law[OF t(2) _ t(3)] by auto
  then show ?thesis
    using t data_view[OF t(2) _ t(3)] by (simp add: runs_def keval settles_def)
qed

text \<open>Read, change and write back a block that is not pinned.\<close>

lemma write_settles:
  assumes "inv {} s" and "unat b < length (dk s)" and "card (unsynced s) < NBUF" and "unat b \<notin> unsynced s"
    and "length (f (view s (unat b))) = BSIZE"
  shows "runs (kbind (rd b) (\<lambda>i. kthen (setd i f) (kthen (wr i) (rel i)))) s
     (\<lambda>_ t. settles s ((view s)(unat b := f (view s (unat b)))) (unsynced s) [(unat b, f (view s (unat b)))] t)"
proof -
  let ?n = "unat b"
  obtain i t where t: "rd b s = Ret i t" "inv {i} t" "blk t i ?n" "view t = view s"
      "unsynced t = unsynced s" "dk t = dk s" "tr t = tr s" "rest t = rest s"
    using rd_law[of "{}" s b] assms by auto
  obtain u where u: "setd i f t = Ret () u" "inv {i} u" "blk u = blk t" "view u = (view t)(?n := f (view t ?n))"
      "unsynced u = unsynced t" "dk u = dk t" "tr u = tr t" "rest u = rest t"
    using setd_law[OF t(2) _ t(3), of f] assms(5) t(4) by auto
  obtain v where v: "wr i u = Ret () v" "inv {i} v" "blk v = blk u" "view v = view u"
      "unsynced v = unsynced u - {?n}" "dk v = (dk u)[?n := view u ?n]" "tr v = tr u @ [(?n, view u ?n)]" "rest v = rest u"
    using wr_law[OF u(2), of i ?n] u(3) t(3) by auto
  obtain w where w: "rel i v = Ret () w" "inv {} w" "view w = view v" "unsynced w = unsynced v"
      "dk w = dk v" "tr w = tr v" "rest w = rest v"
    using rel_law[OF v(2), of i ?n] v(3,6) u(3,6) t(3,6) v(4) assms(2) by auto
  have "runs (kbind (rd b) (\<lambda>i. kthen (setd i f) (kthen (wr i) (rel i)))) s (\<lambda>_ t. t = w)"
    using t(1) u(1) v(1) w(1) by (simp add: runs_simps)
  then show ?thesis
    by (rule runs_mono) (use w v u t assms(4) in \<open>simp add: settles_def\<close>)
qed

end

text \<open>The model's own cache provides the interface.\<close>

definition bio_inv :: "nat set \<Rightarrow> 'z bcache_scheme \<Rightarrow> bool" where
  "bio_inv H s \<longleftrightarrow> cache_ok H s \<and> fs_ready s"

definition bio_blk :: "'z bcache_scheme \<Rightarrow> nat \<Rightarrow> nat \<Rightarrow> bool" where
  "bio_blk s i n \<longleftrightarrow> i < NBUF \<and> caches (getbuf i s) n \<and> bvalid (getbuf i s)"

definition bio_rest :: "'z bcache_scheme \<Rightarrow> 'z bcache_scheme" where
  "bio_rest s = s\<lparr>bufs := [], slocks := \<lambda>_. \<lparr>slocked = False, slname = [], slpid = 0\<rparr>, disk := [], dtrace := [],
     procs := map (\<lambda>p. p\<lparr>state := UNUSED\<rparr>) (procs s)\<rparr>"

lemma woken_states: "woken ps qs \<Longrightarrow> map (\<lambda>p. p\<lparr>state := UNUSED\<rparr>) qs = map (\<lambda>p. p\<lparr>state := UNUSED\<rparr>) ps"
  unfolding woken_def by (induction rule: list_all2_induct) auto

lemma content_length:
  assumes "cache_ok H s" and "n < length (disk s)"
  shows "length (content s n) = BSIZE"
proof (cases "\<exists>i < NBUF. caches (getbuf i s) n")
  case True
  then obtain i where "i < NBUF" "caches (getbuf i s) n" by blast
  then show ?thesis
    using content_eq(1)[OF assms(1)] cache_ok_buf[OF assms(1)] assms by (auto simp: buf_ok_def cache_ok_def)
next
  case False
  then show ?thesis using content_eq(2)[OF assms(1), of n] assms by (auto simp: cache_ok_def)
qed

lemma bio_rest_bread: "t = s\<lparr>bufs := bufs t, slocks := slocks t\<rparr> \<Longrightarrow> disk t = disk s \<and> dtrace t = dtrace s \<and> bio_rest t = bio_rest s"
proof -
  assume "t = s\<lparr>bufs := bufs t, slocks := slocks t\<rparr>"
  then obtain b l where "t = s\<lparr>bufs := b, slocks := l\<rparr>" by blast
  then show ?thesis by (simp add: bio_rest_def)
qed

lemma bio_rest_brelse:
  assumes "t = s\<lparr>bufs := bufs t, slocks := slocks t, procs := procs t\<rparr>" and "woken (procs s) (procs t)"
  shows "disk t = disk s \<and> dtrace t = dtrace s \<and> bio_rest t = bio_rest s"
proof -
  obtain b l ps where t: "t = s\<lparr>bufs := b, slocks := l, procs := ps\<rparr>" using assms(1) by blast
  then show ?thesis using woken_states[OF assms(2)] by (simp add: bio_rest_def)
qed

interpretation bio: block_cache bio_inv bio_blk content dirties disk dtrace bio_rest "bread 1" bwrite brelse set_data
  "\<lambda>i s. bdata (getbuf i s)"
proof (unfold_locales, goal_cases)
  case (1 H s i n)
  then show ?case using content_eq(1)[of H s i n] by (auto simp: bio_inv_def bio_blk_def)
next
  case (2 H s n)
  then show ?case using content_length by (auto simp: bio_inv_def)
next
  case (3 s n)
  then show ?case using content_clean[of "{}" s n] by (auto simp: bio_inv_def)
next
  case (4 H s i n)
  then show ?case using held_buf(4)[of H s i] by (auto simp: bio_inv_def bio_blk_def buf_ok_def caches_def)
next
  case (5 s i m n)
  then show ?case using caches_fun by (auto simp: bio_blk_def)
next
  case (6 H s b)
  have "\<not> caches (getbuf i s) (unat b)" if "i \<in> H" for i
    using 6(3)[OF that] 6(4)[OF that] by (auto simp: bio_blk_def)
  then obtain i t where t: "bread 1 b s = Ret i t" "i < NBUF" "i \<notin> H" "cache_ok (insert i H) t" "fs_ready t"
      "t = s\<lparr>bufs := bufs t, slocks := slocks t\<rparr>" "caches (getbuf i t) (unat b)" "bvalid (getbuf i t)"
      "\<forall>j < NBUF. j \<noteq> i \<longrightarrow> getbuf j t = getbuf j s" "dirties t = dirties s" "\<forall>m. content t m = content s m"
    using bread_spec[of H s b "unat b"] 6 by (auto simp: bio_inv_def)
  have "bio_blk t j m = bio_blk s j m" if "j \<in> H" for j m
    using t(3,9) that by (auto simp: bio_blk_def)
  then show ?case
    using bio_rest_bread[OF t(6)] t(1-5,7,8,10,11) by (intro exI[of _ i] exI[of _ t]) (simp add: bio_inv_def bio_blk_def fun_eq_iff)
next
  case (7 H s i n f)
  define t where "t = s\<lparr>bufs := (bufs s)[i := (getbuf i s)\<lparr>bdata := f (bdata (getbuf i s))\<rparr>]\<rparr>"
  have pre: "cache_ok H s" "i \<in> H" "caches (getbuf i s) n" "bvalid (getbuf i s)" "i < NBUF"
    using 7 by (auto simp: bio_inv_def bio_blk_def)
  have c: "content s n = bdata (getbuf i s)" using content_eq(1)[OF pre(1,5,3)] pre(4) by simp
  note sp = set_data_spec[where f = f, OF pre(1-4) _ t_def]
  have "i < length (bufs s)" using held_buf[OF pre(1,2)] by simp
  then have "bio_blk t = bio_blk s"
    by (auto simp: fun_eq_iff bio_blk_def t_def nth_list_update caches_def)
  then show ?case
    using sp c 7 by (intro exI[of _ t]) (simp add: bio_inv_def fun_eq_iff t_def bio_rest_def)
next
  case (8 H s i n)
  define t where "t = s\<lparr>bufs := (bufs s)[i := (getbuf i s)\<lparr>bdirty := False, bvalid := True\<rparr>],
           disk := (disk s)[n := content s n], dtrace := dtrace s @ [(n, content s n)]\<rparr>"
  have pre: "cache_ok H s" "fs_ready s" "i \<in> H" "caches (getbuf i s) n" "bvalid (getbuf i s)" "i < NBUF"
    using 8 by (auto simp: bio_inv_def bio_blk_def)
  note sp = bwrite_spec[OF pre(1-5) t_def]
  have "i < length (bufs s)" using held_buf[OF pre(1,3)] by simp
  then have "bio_blk t = bio_blk s"
    using pre(5) by (auto simp: fun_eq_iff bio_blk_def t_def nth_list_update caches_def)
  then show ?case
    using sp pre(2) by (intro exI[of _ t]) (simp add: bio_inv_def fun_eq_iff t_def bio_rest_def)
next
  case (9 H s i n)
  have pre: "cache_ok H s" "fs_ready s" "i \<in> H" "caches (getbuf i s) n" "bvalid (getbuf i s)" "i < NBUF"
    using 9 by (auto simp: bio_inv_def bio_blk_def)
  have "bdirty (getbuf i s) \<or> content s n = disk s ! n"
    using 9(4) dirties_iff[OF pre(1,6,4)] by simp
  from brelse_spec[OF pre(1-4) this pre(5)] obtain t where t: "brelse i s = Ret () t" "cache_ok (H - {i}) t" "fs_ready t"
      "t = s\<lparr>bufs := bufs t, slocks := slocks t, procs := procs t\<rparr>" "woken (procs s) (procs t)"
      "\<forall>j < NBUF. j \<noteq> i \<longrightarrow> core (getbuf j t) = core (getbuf j s)" "dirties t = dirties s" "\<forall>m. content t m = content s m"
    by blast
  have "bio_blk t j m = bio_blk s j m" if "j \<in> H - {i}" for j m
  proof (cases "j < NBUF")
    case True
    then have "core (getbuf j t) = core (getbuf j s)" using t(6) that by simp
    from caches_core[OF this] core_eqD[OF this] show ?thesis by (simp add: bio_blk_def)
  qed (simp add: bio_blk_def)
  then show ?case
    using bio_rest_brelse[OF t(4,5)] t(1-3,7,8) by (intro exI[of _ t]) (simp add: bio_inv_def fun_eq_iff)
qed

end
