(* ===== verification/Log.thy ===== *)
theory Log
  imports Bio
begin

text \<open>
  The write-ahead log (\<^verbatim>\<open>log.c\<close>) and the superblock reader it starts from (\<^verbatim>\<open>readsb\<close> of \<^verbatim>\<open>fs.c\<close>).
  The log occupies the blocks from \<open>lstart\<close>: a header block with the numbers of the logged blocks,
  then their contents.  Every write to the disk is recorded in \<open>dtrace\<close>, so a crash after the
  \<open>k\<close>-th write of an operation leaves the disk with the first \<open>k\<close> of them done.
\<close>

section \<open>Superblock\<close>

record superblock =
  sb_size :: u32
  nblocks :: u32
  ninodes :: u32
  nlog :: u32
  logstart :: u32
  inodestart :: u32
  bmapstart :: u32

definition decode_sb :: "block \<Rightarrow> superblock" where
  "decode_sb d = \<lparr>sb_size = get32 d 0, nblocks = get32 d 4, ninodes = get32 d 8, nlog = get32 d 12,
     logstart = get32 d 16, inodestart = get32 d 20, bmapstart = get32 d 24\<rparr>"

definition readsb :: "u32 \<Rightarrow> (superblock, 'z bcache_scheme) km" where
  "readsb dev =
     kbind (bread dev 1) (\<lambda>bp.
     kbind (kget (\<lambda>s. bdata (getbuf bp s))) (\<lambda>d.
     kthen (brelse bp) (ret (decode_sb d))))"

section \<open>State\<close>

definition LOGSIZE :: nat where "LOGSIZE = 30"
definition MAXOPBLOCKS :: int where "MAXOPBLOCKS = 10"

record logst = bcache +
  lstart :: int
  lsize :: int
  outstanding :: int
  committing :: bool
  ldev :: u32
  lhn :: int
  lhblock :: "u32 list"

definition lh_block :: "nat \<Rightarrow> (u32, 'z logst_scheme) km" where
  "lh_block i = (if i < LOGSIZE then kget (\<lambda>s. lhblock s ! i) else fault ''lh.block'')"

section \<open>Operations\<close>

definition install_trans :: "(unit, 'z logst_scheme) km" where
  "install_trans =
     kbind (kget lhn) (\<lambda>n.
     kfor [0..<nat n] (\<lambda>tail.
       kbind (lh_block tail) (\<lambda>dst.
       kbind (kget (\<lambda>s. (ldev s, word_of_int (lstart s + int tail + 1)))) (\<lambda>(dev, src).
       kbind (bread dev src) (\<lambda>lbuf.
       kbind (bread dev dst) (\<lambda>dbuf.
       kbind (kget (\<lambda>s. bdata (getbuf lbuf s))) (\<lambda>d.
       kthen (set_data dbuf (\<lambda>_. d))
       (kthen (bwrite dbuf)
       (kthen (brelse lbuf) (brelse dbuf)))))))))) "

definition read_head :: "(unit, 'z logst_scheme) km" where
  "read_head =
     kbind (kget (\<lambda>s. (ldev s, word_of_int (lstart s)))) (\<lambda>(dev, b).
     kbind (bread dev b) (\<lambda>bp.
     kbind (kget (\<lambda>s. bdata (getbuf bp s))) (\<lambda>lh.
     kthen (kmod (\<lambda>s. s\<lparr>lhn := sint (get32 lh 0)\<rparr>))
     (kthen (kfor [0..<nat (sint (get32 lh 0))] (\<lambda>i.
        if i < LOGSIZE then kmod (\<lambda>s. s\<lparr>lhblock := (lhblock s)[i := get32 lh (4 + 4 * i)]\<rparr>)
        else fault ''lh.block''))
      (brelse bp)))))"

definition write_head :: "(unit, 'z logst_scheme) km" where
  "write_head =
     kbind (kget (\<lambda>s. (ldev s, word_of_int (lstart s)))) (\<lambda>(dev, b).
     kbind (bread dev b) (\<lambda>bp.
     kbind (kget lhn) (\<lambda>n.
     kthen (set_data bp (patch 0 (le32 (word_of_int n))))
     (kthen (kfor [0..<nat n] (\<lambda>i.
        kbind (lh_block i) (\<lambda>v. set_data bp (patch (4 + 4 * i) (le32 v)))))
     (kthen (bwrite bp) (brelse bp))))))"

definition recover_from_log :: "(unit, 'z logst_scheme) km" where
  "recover_from_log =
     kthen read_head
     (kthen install_trans
     (kthen (kmod (\<lambda>s. s\<lparr>lhn := 0\<rparr>))
      write_head))"

definition initlog :: "u32 \<Rightarrow> (unit, 'z logst_scheme) km" where
  "initlog dev =
     (if 4 + 4 * LOGSIZE \<ge> BSIZE then panic ''initlog: too big logheader''
      else
        kthen (initlock LkLog ''log'')
        (kbind (readsb dev) (\<lambda>sb.
         kthen (kmod (\<lambda>s. s\<lparr>lstart := sint (logstart sb), lsize := sint (nlog sb), ldev := dev\<rparr>))
         recover_from_log)))"

text \<open>\<^verbatim>\<open>begin_op\<close>; a process that has to wait is at the head of the loop again when it resumes.\<close>

definition begin_op_loop :: "(unit, 'z logst_scheme) km" where
  "begin_op_loop =
     kbind (kget (\<lambda>s. (committing s, lhn s, outstanding s))) (\<lambda>(c, n, out).
     if c then sleep ChLog LkLog
     else if n + (out + 1) * MAXOPBLOCKS > int LOGSIZE then sleep ChLog LkLog
     else kthen (kmod (\<lambda>s. s\<lparr>outstanding := outstanding s + 1\<rparr>)) (release LkLog))"

definition begin_op :: "(unit, 'z logst_scheme) km" where
  "begin_op = kthen (acquire LkLog) begin_op_loop"

definition write_log :: "(unit, 'z logst_scheme) km" where
  "write_log =
     kbind (kget lhn) (\<lambda>n.
     kfor [0..<nat n] (\<lambda>tail.
       kbind (lh_block tail) (\<lambda>src.
       kbind (kget (\<lambda>s. (ldev s, word_of_int (lstart s + int tail + 1)))) (\<lambda>(dev, dst).
       kbind (bread dev dst) (\<lambda>to.
       kbind (bread dev src) (\<lambda>from.
       kbind (kget (\<lambda>s. bdata (getbuf from s))) (\<lambda>d.
       kthen (set_data to (\<lambda>_. d))
       (kthen (bwrite to)
       (kthen (brelse from) (brelse to))))))))))"

definition commit :: "(unit, 'z logst_scheme) km" where
  "commit =
     kbind (kget lhn) (\<lambda>n.
     kwhen (n > 0)
       (kthen write_log
       (kthen write_head
       (kthen install_trans
       (kthen (kmod (\<lambda>s. s\<lparr>lhn := 0\<rparr>))
        write_head)))))"

definition end_op :: "(unit, 'z logst_scheme) km" where
  "end_op =
     kthen (acquire LkLog)
     (kthen (kmod (\<lambda>s. s\<lparr>outstanding := outstanding s - 1\<rparr>))
     (kbind (kget committing) (\<lambda>c.
      if c then panic ''log.committing''
      else kbind (kget outstanding) (\<lambda>out.
      kthen (if out = 0 then kmod (\<lambda>s. s\<lparr>committing := True\<rparr>) else wakeup ChLog)
      (kthen (release LkLog)
      (kwhen (out = 0)
        (kthen commit
        (kthen (acquire LkLog)
        (kthen (kmod (\<lambda>s. s\<lparr>committing := False\<rparr>))
        (kthen (wakeup ChLog)
         (release LkLog)))))))))))"

text \<open>The index the absorption loop of \<^verbatim>\<open>log_write\<close> ends with.\<close>

definition log_slot :: "u32 \<Rightarrow> int \<Rightarrow> u32 list \<Rightarrow> nat" where
  "log_slot bno n blk =
     (case first_index (\<lambda>x. x = bno) (take (nat n) blk) of Some i \<Rightarrow> i | None \<Rightarrow> nat n)"

definition log_write :: "nat \<Rightarrow> (unit, 'z logst_scheme) km" where
  "log_write b =
     kbind (kget (\<lambda>s. (lhn s, lsize s, outstanding s))) (\<lambda>(n, sze, out).
     if n \<ge> int LOGSIZE \<or> n \<ge> sze - 1 then panic ''too big a transaction''
     else if out < 1 then panic ''log_write outside of trans''
     else
       kthen (acquire LkLog)
       (kbind (kget (\<lambda>s. (lhn s, lhblock s, blockno (getbuf b s)))) (\<lambda>(n, blk, bno).
        kthen (kmod (\<lambda>s. s\<lparr>lhblock := blk[log_slot bno n blk := bno],
                          lhn := (if int (log_slot bno n blk) = n then n + 1 else n)\<rparr>))
        (kthen (kmod (upd_buf b (\<lambda>q. q\<lparr>bdirty := True\<rparr>)))
         (release LkLog)))))"

section \<open>Copying a block through the cache\<close>

context block_cache
begin

text \<open>Two buffers held at once, the second one written with the contents of the first.\<close>

lemma copy_settles:
  assumes "inv {} s" and "unat a < length (dk s)" and "unat b < length (dk s)" and "unat a \<noteq> unat b"
    and "unat a \<in> unsynced s \<or> card (unsynced s) < NBUF"
    and "unat b \<in> unsynced s \<or> card (unsynced s) + 1 < NBUF"
  shows "runs (kbind (rd a) (\<lambda>l. kbind (rd b) (\<lambda>d. kbind (kget (bytes_of l)) (\<lambda>x.
      kthen (setd d (\<lambda>_. x)) (kthen (wr d) (kthen (rel l) (rel d))))))) s
    (\<lambda>_ t. settles s ((view s)(unat b := view s (unat a))) (unsynced s - {unat b}) [(unat b, view s (unat a))] t)"
proof -
  let ?a = "unat a" and ?b = "unat b"
  obtain l t where t: "rd a s = Ret l t" "inv {l} t" "blk t l ?a" "view t = view s"
      "unsynced t = unsynced s" "dk t = dk s" "tr t = tr s" "rest t = rest s"
    using rd_law[of "{}" s a] assms by auto
  have nb: "\<not> blk t l ?b" using assms(4) t(3) data_view held_in_range blk_fun by blast
  obtain d u where u: "rd b t = Ret d u" "d \<noteq> l" "inv {d, l} u" "blk u d ?b" "blk u l ?a" "view u = view s"
      "unsynced u = unsynced s" "dk u = dk s" "tr u = tr s" "rest u = rest s"
    using rd_law[of "{l}" t b] assms t nb by auto
  have x: "bytes_of l u = view s ?a" using data_view[OF u(3) _ u(5)] u(6) by simp
  have len: "length (view s ?a) = BSIZE" using view_length[OF assms(1,2)] .
  obtain v where v: "setd d (\<lambda>_. view s ?a) u = Ret () v" "inv {d, l} v" "blk v = blk u"
      "view v = (view s)(?b := view s ?a)" "unsynced v = unsynced s" "dk v = dk s" "tr v = tr s" "rest v = rest s"
    using setd_law[OF u(3) _ u(4), of "\<lambda>_. view s ?a"] len u by auto
  obtain w where w: "wr d v = Ret () w" "inv {d, l} w" "blk w = blk u" "view w = view v" "unsynced w = unsynced s - {?b}"
      "dk w = (dk s)[?b := view s ?a]" "tr w = tr s @ [(?b, view s ?a)]" "rest w = rest s"
    using wr_law[OF v(2), of d ?b] u(4) v by auto
  have "?a \<in> unsynced w \<or> view w ?a = dk w ! ?a"
    using view_clean[OF assms(1), of ?a] w v assms(4) by auto
  then obtain y where y: "rel l w = Ret () y" "inv {d} y" "blk y d ?b" "view y = view w" "unsynced y = unsynced w"
      "dk y = dk w" "tr y = tr w" "rest y = rest w"
    using rel_law[OF w(2), of l ?a] w(3) u(2,4,5) by (auto simp: insert_Diff_if)
  obtain z where z: "rel d y = Ret () z" "inv {} z" "view z = view y" "unsynced z = unsynced y"
      "dk z = dk y" "tr z = tr y" "rest z = rest y"
    using rel_law[OF y(2), of d ?b] y w v assms(3) by auto
  have "runs (kbind (rd a) (\<lambda>l. kbind (rd b) (\<lambda>d. kbind (kget (bytes_of l)) (\<lambda>x.
      kthen (setd d (\<lambda>_. x)) (kthen (wr d) (kthen (rel l) (rel d))))))) s (\<lambda>_ t. t = z)"
    using t(1) u(1) v(1) w(1) y(1) z(1) x by (simp add: runs_simps)
  then show ?thesis
    by (rule runs_mono) (use z y w v in \<open>simp add: settles_def\<close>)
qed

text \<open>The same with the destination read first, as \<^verbatim>\<open>write_log\<close> does.\<close>

lemma copy_to_settles:
  assumes "inv {} s" and "unat a < length (dk s)" and "unat b < length (dk s)" and "unat a \<noteq> unat b"
    and "unat b \<in> unsynced s \<or> card (unsynced s) < NBUF"
    and "unat a \<in> unsynced s \<or> card (unsynced s) + 1 < NBUF"
  shows "runs (kbind (rd b) (\<lambda>d. kbind (rd a) (\<lambda>l. kbind (kget (bytes_of l)) (\<lambda>x.
      kthen (setd d (\<lambda>_. x)) (kthen (wr d) (kthen (rel l) (rel d))))))) s
    (\<lambda>_ t. settles s ((view s)(unat b := view s (unat a))) (unsynced s - {unat b}) [(unat b, view s (unat a))] t)"
proof -
  let ?a = "unat a" and ?b = "unat b"
  obtain d t where t: "rd b s = Ret d t" "inv {d} t" "blk t d ?b" "view t = view s"
      "unsynced t = unsynced s" "dk t = dk s" "tr t = tr s" "rest t = rest s"
    using rd_law[of "{}" s b] assms by auto
  have nb: "\<not> blk t d ?a" using assms(4) t(3) blk_fun by blast
  obtain l u where u: "rd a t = Ret l u" "l \<noteq> d" "inv {l, d} u" "blk u l ?a" "blk u d ?b" "view u = view s"
      "unsynced u = unsynced s" "dk u = dk s" "tr u = tr s" "rest u = rest s"
    using rd_law[of "{d}" t a] assms t nb by auto
  have x: "bytes_of l u = view s ?a" using data_view[OF u(3) _ u(4)] u(6) by simp
  have len: "length (view s ?a) = BSIZE" using view_length[OF assms(1,2)] .
  obtain v where v: "setd d (\<lambda>_. view s ?a) u = Ret () v" "inv {l, d} v" "blk v = blk u"
      "view v = (view s)(?b := view s ?a)" "unsynced v = unsynced s" "dk v = dk s" "tr v = tr s" "rest v = rest s"
    using setd_law[OF u(3) _ u(5), of "\<lambda>_. view s ?a"] len u by auto
  obtain w where w: "wr d v = Ret () w" "inv {l, d} w" "blk w = blk u" "view w = view v" "unsynced w = unsynced s - {?b}"
      "dk w = (dk s)[?b := view s ?a]" "tr w = tr s @ [(?b, view s ?a)]" "rest w = rest s"
    using wr_law[OF v(2), of d ?b] u(5) v by auto
  have "?a \<in> unsynced w \<or> view w ?a = dk w ! ?a"
    using view_clean[OF assms(1), of ?a] w v assms(4) by auto
  then obtain y where y: "rel l w = Ret () y" "inv {d} y" "blk y d ?b" "view y = view w" "unsynced y = unsynced w"
      "dk y = dk w" "tr y = tr w" "rest y = rest w"
    using rel_law[OF w(2), of l ?a] w(3) u(2,4,5) by (auto simp: insert_Diff_if)
  obtain z where z: "rel d y = Ret () z" "inv {} z" "view z = view y" "unsynced z = unsynced y"
      "dk z = dk y" "tr z = tr y" "rest z = rest y"
    using rel_law[OF y(2), of d ?b] y w v assms(3) by auto
  have "runs (kbind (rd b) (\<lambda>d. kbind (rd a) (\<lambda>l. kbind (kget (bytes_of l)) (\<lambda>x.
      kthen (setd d (\<lambda>_. x)) (kthen (wr d) (kthen (rel l) (rel d))))))) s (\<lambda>_ t. t = z)"
    using t(1) u(1) v(1) w(1) y(1) z(1) x by (simp add: runs_simps)
  then show ?thesis
    by (rule runs_mono) (use z y w v in \<open>simp add: settles_def\<close>)
qed

end

section \<open>The copying loops\<close>

text \<open>What the loops need of the log: its place on the disk and the logged blocks \<open>h 0, ..., h (n-1)\<close>, all
  different and outside the log.\<close>

definition log_at :: "nat \<Rightarrow> nat \<Rightarrow> (nat \<Rightarrow> nat) \<Rightarrow> 'z logst_scheme \<Rightarrow> bool" where
  "log_at S n h s \<longleftrightarrow> ldev s = 1 \<and> lstart s = int S \<and> lhn s = int n \<and> n \<le> LOGSIZE \<and>
     length (lhblock s) = LOGSIZE \<and> (\<forall>i < n. h i = unat (lhblock s ! i)) \<and>
     S + n < length (disk s) \<and> length (disk s) < 2 ^ 31 \<and> inj_on h {..<n} \<and>
     (\<forall>i < n. h i < length (disk s) \<and> (h i < S \<or> S + n < h i))"

lemma log_atD:
  assumes "log_at S n h s"
  shows "ldev s = 1" "lstart s = int S" "lhn s = int n" "n \<le> LOGSIZE" "S + n < length (disk s)"
    "length (disk s) < 2 ^ 31" "inj_on h {..<n}" "length (lhblock s) = LOGSIZE"
    "i < n \<Longrightarrow> unat (lhblock s ! i) = h i" "i < n \<Longrightarrow> h i < length (disk s)" "i < n \<Longrightarrow> h i < S \<or> S + n < h i"
  using assms unfolding log_at_def by metis+

lemma bio_rest_log [simp]:
  fixes s :: "'z logst_scheme"
  shows "lhn (bio_rest s) = lhn s" "lhblock (bio_rest s) = lhblock s" "lstart (bio_rest s) = lstart s"
    "ldev (bio_rest s) = ldev s" "lsize (bio_rest s) = lsize s" "outstanding (bio_rest s) = outstanding s"
    "committing (bio_rest s) = committing s"
  by (simp_all add: bio_rest_def)

lemma log_at_settles:
  fixes s t :: "'z logst_scheme"
  assumes "log_at S n h s" and "bio.settles s v u ws t"
  shows "log_at S n h t"
proof -
  have e: "lhn t = lhn s" "lhblock t = lhblock s" "lstart t = lstart s" "ldev t = ldev s"
    using assms(2) by (metis bio.settles_def bio_rest_log)+
  have "length (disk t) = length (disk s)" using assms(2) by (simp add: bio.settles_def)
  then show ?thesis using assms(1) unfolding log_at_def e by metis
qed

definition upd_view :: "(nat \<Rightarrow> nat) \<Rightarrow> (nat \<Rightarrow> block) \<Rightarrow> nat \<Rightarrow> (nat \<Rightarrow> block) \<Rightarrow> nat \<Rightarrow> block" where
  "upd_view h f n v = fold (\<lambda>i w. w(h i := f i)) [0..<n] v"

lemma upd_view_simps [simp]: "upd_view h f 0 v = v" "upd_view h f (Suc n) v = (upd_view h f n v)(h n := f n)"
  by (simp_all add: upd_view_def)

lemma upd_view_other: "(\<And>i. i < n \<Longrightarrow> m \<noteq> h i) \<Longrightarrow> upd_view h f n v m = v m"
  by (induction n) auto

lemma upd_view_at: "inj_on h {..<n} \<Longrightarrow> i < n \<Longrightarrow> upd_view h f n v (h i) = f i"
  by (induction n) (auto simp: less_Suc_eq inj_on_def lessThan_Suc)

lemma unat_word_of_int_nat: "k < 2 ^ 31 \<Longrightarrow> unat (word_of_int (int k) :: u32) = k"
  by (simp add: unat_of_nat take_bit_nat_eq_self)

lemma unat_log_block: "S + i + 1 < 2 ^ 31 \<Longrightarrow> unat (word_of_int (int S + int i + 1) :: u32) = S + i + 1"
  using unat_word_of_int_nat[of "S + i + 1"] by (simp add: add.commute)

lemma pinned_room:
  assumes "inj_on h {..<n}" and "k < n" and "D = {} \<or> D = h ` {..<n} \<and> n < NBUF"
  shows "h k \<in> D - h ` {..<k} \<or> card (D - h ` {..<k}) + 1 < NBUF" "card (D - h ` {..<k}) < NBUF"
proof -
  have "card (D - h ` {..<k}) \<le> card D" using assms(3) by (intro card_mono) auto
  moreover have "card (h ` {..<n}) \<le> n" using card_image_le[of "{..<n}" h] by simp
  ultimately show "card (D - h ` {..<k}) < NBUF" using assms(3) by (auto simp: NBUF_def)
  have "h k \<notin> h ` {..<k}" using assms(1,2) by (auto dest!: inj_onD[OF assms(1)])
  then show "h k \<in> D - h ` {..<k} \<or> card (D - h ` {..<k}) + 1 < NBUF"
    using assms(2,3) by (auto simp: NBUF_def)
qed

lemma install_trans_settles:
  fixes s :: "'z logst_scheme"
  assumes "log_at S n h s" and "bio_inv {} s"
    and "dirties s = {} \<or> dirties s = h ` {..<n} \<and> n < NBUF"
  shows "runs install_trans s (\<lambda>_ t.
     bio.settles s (upd_view h (\<lambda>i. content s (S + i + 1)) n (content s)) {}
       (map (\<lambda>i. (h i, content s (S + i + 1))) [0..<n]) t)"
proof -
  let ?f = "\<lambda>i. content s (S + i + 1)"
  let ?I = "\<lambda>k t. bio.settles s (upd_view h ?f k (content s)) (dirties s - h ` {..<k}) (map (\<lambda>i. (h i, ?f i)) [0..<k]) t"
  have n: "lhn s = int n" "nat (int n) = n" using assms(1) by (simp_all add: log_at_def)
  have inj: "inj_on h {..<n}" using assms(1) by (simp add: log_at_def)
  have "runs (kfor [0..<n] (\<lambda>tail.
       kbind (lh_block tail) (\<lambda>dst.
       kbind (kget (\<lambda>s. (ldev s, word_of_int (lstart s + int tail + 1)))) (\<lambda>(dev, src).
       kbind (bread dev src) (\<lambda>lbuf.
       kbind (bread dev dst) (\<lambda>dbuf.
       kbind (kget (\<lambda>s. bdata (getbuf lbuf s))) (\<lambda>d.
       kthen (set_data dbuf (\<lambda>_. d))
       (kthen (bwrite dbuf)
       (kthen (brelse lbuf) (brelse dbuf)))))))))) s (\<lambda>_ t. ?I n t)"
  proof (rule runs_kfor_upt)
    show "?I 0 s" using assms(2) by (simp add: bio.settles_def)
    fix k and t :: "'z logst_scheme" assume k: "k < n" and I: "?I k t"
    have la: "log_at S n h t" using log_at_settles[OF assms(1) I] .
    let ?dst = "lhblock t ! k" and ?src = "word_of_int (lstart t + int k + 1) :: u32"
    note D = log_atD[OF la]
    have d: "unat ?dst = h k" and src: "unat ?src = S + k + 1"
      using D(9)[OF k] D(2,5,6) k unat_log_block[of S k] by simp_all
    have t: "bio_inv {} t" "dirties t = dirties s - h ` {..<k}" "length (disk t) = length (disk s)"
      "content t = upd_view h ?f k (content s)"
      using I by (simp_all add: bio.settles_def)
    have sv: "content t (S + k + 1) = ?f k"
    proof -
      have "S + k + 1 \<noteq> h i" if "i < k" for i using D(11)[of i] that k by linarith
      then show ?thesis unfolding t(4) by (simp add: upd_view_other)
    qed
    have hk: "h k \<in> dirties t \<or> card (dirties t) + 1 < NBUF" "card (dirties t) < NBUF"
      using pinned_room[OF inj k assms(3)] unfolding t(2) by simp_all
    have "runs (kbind (bread 1 ?src) (\<lambda>lbuf. kbind (bread 1 ?dst) (\<lambda>dbuf.
       kbind (kget (\<lambda>s. bdata (getbuf lbuf s))) (\<lambda>d.
       kthen (set_data dbuf (\<lambda>_. d)) (kthen (bwrite dbuf) (kthen (brelse lbuf) (brelse dbuf))))))) t
      (\<lambda>_ u. bio.settles t ((content t)(h k := ?f k)) (dirties t - {h k}) [(h k, ?f k)] u)"
      using bio.copy_settles[of t ?src ?dst] t(1) D(5) D(10,11)[OF k] k hk unfolding d src sv by auto
    then show "runs (kbind (lh_block k) (\<lambda>dst.
       kbind (kget (\<lambda>s. (ldev s, word_of_int (lstart s + int k + 1)))) (\<lambda>(dev, src).
       kbind (bread dev src) (\<lambda>lbuf.
       kbind (bread dev dst) (\<lambda>dbuf.
       kbind (kget (\<lambda>s. bdata (getbuf lbuf s))) (\<lambda>d.
       kthen (set_data dbuf (\<lambda>_. d))
       (kthen (bwrite dbuf)
       (kthen (brelse lbuf) (brelse dbuf))))))))) t (\<lambda>_ u. ?I (Suc k) u)"
    proof -
      have step: "?I (Suc k) u" if "bio.settles t ((content t)(h k := ?f k)) (dirties t - {h k}) [(h k, ?f k)] u" for u
      proof -
        have "dirties t - {h k} = dirties s - h ` {..<Suc k}" unfolding t(2) by (auto simp: lessThan_Suc)
        then show ?thesis using bio.settles_trans[OF I that] unfolding t(4) by simp
      qed
      have "k < LOGSIZE" "ldev t = 1" using la k by (simp_all add: log_at_def)
      then show ?thesis
        using runs_mono[OF \<open>runs _ t _\<close> step] by (simp add: runs_kbind lh_block_def)
    qed
  qed simp
  then show ?thesis
    using assms(3) by (auto simp: install_trans_def runs_kbind n)
qed

lemma write_log_settles:
  fixes s :: "'z logst_scheme"
  assumes "log_at S n h s" and "bio_inv {} s" and "dirties s = h ` {..<n}" and "n < NBUF"
  shows "runs write_log s (\<lambda>_ t.
     bio.settles s (upd_view (\<lambda>i. S + i + 1) (\<lambda>i. content s (h i)) n (content s)) (dirties s)
       (map (\<lambda>i. (S + i + 1, content s (h i))) [0..<n]) t)"
proof -
  let ?f = "\<lambda>i. content s (h i)" and ?g = "\<lambda>i. S + i + 1"
  let ?I = "\<lambda>k t. bio.settles s (upd_view ?g ?f k (content s)) (dirties s) (map (\<lambda>i. (?g i, ?f i)) [0..<k]) t"
  have n: "lhn s = int n" "nat (int n) = n" using log_atD(3)[OF assms(1)] by simp_all
  have card: "card (dirties s) < NBUF" unfolding assms(3) using card_image_le[of "{..<n}" h] assms(4) by simp
  have "runs (kfor [0..<n] (\<lambda>tail.
       kbind (lh_block tail) (\<lambda>src.
       kbind (kget (\<lambda>s. (ldev s, word_of_int (lstart s + int tail + 1)))) (\<lambda>(dev, dst).
       kbind (bread dev dst) (\<lambda>to.
       kbind (bread dev src) (\<lambda>from.
       kbind (kget (\<lambda>s. bdata (getbuf from s))) (\<lambda>d.
       kthen (set_data to (\<lambda>_. d))
       (kthen (bwrite to)
       (kthen (brelse from) (brelse to)))))))))) s (\<lambda>_ t. ?I n t)"
  proof (rule runs_kfor_upt)
    show "?I 0 s" using assms(2) by (simp add: bio.settles_def)
    fix k and t :: "'z logst_scheme" assume k: "k < n" and I: "?I k t"
    have la: "log_at S n h t" using log_at_settles[OF assms(1) I] .
    note D = log_atD[OF la]
    let ?src = "lhblock t ! k" and ?dst = "word_of_int (lstart t + int k + 1) :: u32"
    have src: "unat ?src = h k" and dst: "unat ?dst = S + k + 1"
      using D(9)[OF k] D(2,5,6) k unat_log_block[of S k] by simp_all
    have t: "bio_inv {} t" "dirties t = dirties s" "content t = upd_view ?g ?f k (content s)"
      using I by (simp_all add: bio.settles_def)
    have sv: "content t (h k) = ?f k"
    proof -
      have "h k \<noteq> ?g i" if "i < k" for i using D(11)[OF k] that k by linarith
      then show ?thesis unfolding t(3) by (simp add: upd_view_other)
    qed
    have nd: "S + k + 1 \<notin> dirties s" unfolding assms(3) using D(11) k by fastforce
    have hd: "h k \<in> dirties s" unfolding assms(3) using k by simp
    have copy: "runs (kbind (bread 1 ?dst) (\<lambda>to. kbind (bread 1 ?src) (\<lambda>from.
       kbind (kget (\<lambda>s. bdata (getbuf from s))) (\<lambda>d.
       kthen (set_data to (\<lambda>_. d)) (kthen (bwrite to) (kthen (brelse from) (brelse to))))))) t
      (\<lambda>_ u. bio.settles t ((content t)(S + k + 1 := ?f k)) (dirties s) [(S + k + 1, ?f k)] u)"
      using bio.copy_to_settles[of t ?src ?dst] t(1) D(5) D(10,11)[OF k] k card hd nd
      unfolding src dst sv t(2) by auto
    have step: "?I (Suc k) u" if "bio.settles t ((content t)(S + k + 1 := ?f k)) (dirties s) [(S + k + 1, ?f k)] u" for u
      using bio.settles_trans[OF I that] unfolding t(3) by simp
    have "k < LOGSIZE" "ldev t = 1" using D(1,4) k by simp_all
    then show "runs (kbind (lh_block k) (\<lambda>src.
       kbind (kget (\<lambda>s. (ldev s, word_of_int (lstart s + int k + 1)))) (\<lambda>(dev, dst).
       kbind (bread dev dst) (\<lambda>to.
       kbind (bread dev src) (\<lambda>from.
       kbind (kget (\<lambda>s. bdata (getbuf from s))) (\<lambda>d.
       kthen (set_data to (\<lambda>_. d))
       (kthen (bwrite to)
       (kthen (brelse from) (brelse to))))))))) t (\<lambda>_ u. ?I (Suc k) u)"
      using runs_mono[OF copy step] by (simp add: runs_kbind lh_block_def)
  qed simp
  then show ?thesis by (simp add: write_log_def runs_kbind n)
qed

section \<open>The header block\<close>

definition put_blocks :: "nat \<Rightarrow> u32 list \<Rightarrow> block \<Rightarrow> block" where
  "put_blocks n blk d = fold (\<lambda>i. patch (4 + 4 * i) (le32 (blk ! i))) [0..<n] d"

lemma put_blocks_Suc [simp]: "put_blocks (Suc n) blk d = patch (4 + 4 * n) (le32 (blk ! n)) (put_blocks n blk d)"
  by (simp add: put_blocks_def)

lemma put_blocks_facts:
  assumes "length d = BSIZE" and "n \<le> LOGSIZE"
  shows "length (put_blocks n blk d) = BSIZE \<and> get32 (put_blocks n blk d) 0 = get32 d 0 \<and>
    (\<forall>i < n. get32 (put_blocks n blk d) (4 + 4 * i) = blk ! i)"
  using assms(2)
proof (induction n)
  case 0
  then show ?case using assms(1) by (simp add: put_blocks_def)
next
  case (Suc n)
  then show ?case
    by (auto simp: LOGSIZE_def BSIZE_def less_Suc_eq get32_patch_other)
qed

definition hdr :: "nat \<Rightarrow> u32 list \<Rightarrow> block \<Rightarrow> block" where
  "hdr n blk d = put_blocks n blk (patch 0 (le32 (word_of_nat n)) d)"

lemma hdr_facts:
  assumes "length d = BSIZE" and "n \<le> LOGSIZE"
  shows "length (hdr n blk d) = BSIZE" "get32 (hdr n blk d) 0 = word_of_nat n"
    "i < n \<Longrightarrow> get32 (hdr n blk d) (4 + 4 * i) = blk ! i"
proof -
  have p: "length (patch 0 (le32 (word_of_nat n)) d) = BSIZE" using assms(1) by (simp add: BSIZE_def)
  show "length (hdr n blk d) = BSIZE" "i < n \<Longrightarrow> get32 (hdr n blk d) (4 + 4 * i) = blk ! i"
    unfolding hdr_def using put_blocks_facts[OF p assms(2)] by auto
  show "get32 (hdr n blk d) 0 = word_of_nat n"
    unfolding hdr_def using put_blocks_facts[OF p assms(2)] assms(1) by (simp add: BSIZE_def)
qed

end
