(* ===== verification/Log_Crash.thy ===== *)
theory Log_Crash
  imports Log
begin

text \<open>
  Crash safety of the log: what \<^verbatim>\<open>commit\<close> and \<^verbatim>\<open>recover_from_log\<close> write, block by block, and what
  recovery makes of the disk after a crash between any two of these writes.
\<close>

section \<open>Header access\<close>

text \<open>Fields of the log record do not matter to the cache below.\<close>

lemma cache_log_fields [simp]:
  fixes s :: "'z logst_scheme"
  shows "bio_inv H (s\<lparr>lhn := n\<rparr>) = bio_inv H s" "bio_inv H (s\<lparr>lhblock := b\<rparr>) = bio_inv H s"
    "content (s\<lparr>lhn := n\<rparr>) = content s" "content (s\<lparr>lhblock := b\<rparr>) = content s"
    "dirties (s\<lparr>lhn := n\<rparr>) = dirties s" "dirties (s\<lparr>lhblock := b\<rparr>) = dirties s"
    "bio_blk (s\<lparr>lhn := n\<rparr>) = bio_blk s" "bio_blk (s\<lparr>lhblock := b\<rparr>) = bio_blk s"
  by (simp_all add: bio_inv_def cache_ok_def fs_ready_def lk_free_def content_def dirties_def bio_blk_def fun_eq_iff cong: option.case_cong)

lemma bio_rest_fields [simp]:
  fixes s :: "'z logst_scheme"
  shows "bio_rest (s\<lparr>lhn := n\<rparr>) = (bio_rest s)\<lparr>lhn := n\<rparr>"
    "bio_rest (s\<lparr>lhblock := b\<rparr>) = (bio_rest s)\<lparr>lhblock := b\<rparr>"
    "bio_rest (s\<lparr>outstanding := k\<rparr>) = (bio_rest s)\<lparr>outstanding := k\<rparr>"
    "bio_rest (s\<lparr>committing := c\<rparr>) = (bio_rest s)\<lparr>committing := c\<rparr>"
  by (simp_all add: bio_rest_def)

lemma set_data_comp: "kthen (set_data b f) (set_data b g) s = set_data b (\<lambda>d. g (f d)) s"
  by (cases "b < length (bufs s)") (simp_all add: set_data_def keval upd_nth_def list_update_beyond)

lemma put_blocks_run:
  fixes s :: "'z logst_scheme"
  assumes "n \<le> LOGSIZE"
  shows "kthen (set_data bp f) (kfor [0..<n] (\<lambda>i. kbind (lh_block i) (\<lambda>v. set_data bp (patch (4 + 4 * i) (le32 v))))) s =
    set_data bp (\<lambda>d. put_blocks n (lhblock s) (f d)) s"
  using assms
proof (induction n)
  case 0
  then show ?case by (simp add: keval set_data_def put_blocks_def)
next
  case (Suc n)
  let ?body = "\<lambda>i. kbind (lh_block i) (\<lambda>v. set_data bp (patch (4 + 4 * i) (le32 v)))"
  have "kthen (set_data bp f) (kfor [0..<Suc n] ?body) s =
      kthen (kthen (set_data bp f) (kfor [0..<n] ?body)) (?body n) s"
    by (simp add: kfor_append keval split: outcome.splits)
  also have "\<dots> = kthen (set_data bp (\<lambda>d. put_blocks n (lhblock s) (f d))) (?body n) s"
    using Suc by (simp add: kthen_apply)
  also have "\<dots> = set_data bp (\<lambda>d. put_blocks (Suc n) (lhblock s) (f d)) s"
    using Suc.prems set_data_comp[of bp "\<lambda>d. put_blocks n (lhblock s) (f d)" "patch (4 + 4 * n) (le32 (lhblock s ! n))" s]
    by (simp add: keval lh_block_def set_data_def)
  finally show ?case .
qed

lemma bio_rd_log:
  fixes s :: "'z logst_scheme"
  assumes "bio_inv {} s" and "lstart s = int S" and "S < length (disk s)" and "length (disk s) < 2 ^ 31"
    and "card (dirties s) < NBUF"
  obtains i t where "bread 1 (word_of_int (lstart s)) s = Ret i t" "bio_inv {i} t" "bio_blk t i S" "content t = content s"
    "dirties t = dirties s" "disk t = disk s" "dtrace t = dtrace s" "bio_rest t = bio_rest s" "i < NBUF"
proof -
  have u: "unat (word_of_int (lstart s) :: u32) = S" using unat_word_of_int_nat[of S] assms by simp
  from bio.rd_law[of "{}" s "word_of_int (lstart s)"] assms u that show ?thesis
    by (auto simp: bio_blk_def)
qed

lemma bio_rest_logD:
  fixes s t :: "'z logst_scheme"
  assumes "bio_rest t = bio_rest s"
  shows "lhn t = lhn s" "lhblock t = lhblock s" "lstart t = lstart s" "ldev t = ldev s" "lsize t = lsize s"
    "outstanding t = outstanding s" "committing t = committing s"
  using assms by (metis bio_rest_log)+

lemma write_head_settles:
  fixes s :: "'z logst_scheme"
  assumes "bio_inv {} s" and "ldev s = 1" and "lstart s = int S" and "S < length (disk s)" and "length (disk s) < 2 ^ 31"
    and "card (dirties s) < NBUF" and "S \<notin> dirties s" and "lhn s = int n" and "n \<le> LOGSIZE"
  shows "runs write_head s (\<lambda>_ t. bio.settles s ((content s)(S := hdr n (lhblock s) (content s S))) (dirties s)
      [(S, hdr n (lhblock s) (content s S))] t)"
proof -
  let ?b = "word_of_int (lstart s) :: u32" and ?f = "hdr n (lhblock s)"
  have u: "unat ?b = S" using unat_word_of_int_nat[of S] assms(3-5) by simp
  have len: "length (?f (content s S)) = BSIZE"
    using hdr_facts(1)[OF bio.view_length[OF assms(1,4)] assms(9)] .
  obtain i t where t: "bread 1 ?b s = Ret i t" "bio_rest t = bio_rest s"
    using bio_rd_log[OF assms(1,3-6)] by metis
  have e: "lhn t = int n" "lhblock t = lhblock s" using bio_rest_logD[OF t(2)] assms(8) by simp_all
  have "kthen (set_data i (patch 0 (le32 (word_of_int (int n)))))
      (kthen (kfor [0..<n] (\<lambda>j. kbind (lh_block j) (\<lambda>v. set_data i (patch (4 + 4 * j) (le32 v)))))
      (kthen (bwrite i) (brelse i))) t = kthen (set_data i ?f) (kthen (bwrite i) (brelse i)) t"
    unfolding kthen_assoc[symmetric]
    using put_blocks_run[OF assms(9), of i "patch 0 (le32 (word_of_int (int n)))" t]
    by (intro kthen_cong_state) (simp add: hdr_def[abs_def] e)
  then have "write_head s = kbind (bread 1 ?b) (\<lambda>i. kthen (set_data i ?f) (kthen (bwrite i) (brelse i))) s"
    using t e assms(2) by (simp add: write_head_def keval)
  then show ?thesis
    using bio.write_settles[of s ?b ?f] assms(1,4,6,7) len unfolding u by (simp add: runs_def)
qed

lemma read_blocks_run:
  fixes s :: "'z logst_scheme"
  assumes "n \<le> LOGSIZE" and "length (lhblock s) = LOGSIZE"
  shows "\<exists>b. kfor [0..<n] (\<lambda>i. if i < LOGSIZE then kmod (\<lambda>s. s\<lparr>lhblock := (lhblock s)[i := f i]\<rparr>)
       else fault ''lh.block'') s = Ret () (s\<lparr>lhblock := b\<rparr>) \<and> length b = LOGSIZE \<and> (\<forall>i < n. b ! i = f i)"
  using assms(1)
proof (induction n)
  case 0
  then show ?case using assms(2) by (intro exI[of _ "lhblock s"]) simp
next
  case (Suc n)
  then obtain b where "kfor [0..<n] (\<lambda>i. if i < LOGSIZE then kmod (\<lambda>s. s\<lparr>lhblock := (lhblock s)[i := f i]\<rparr>)
       else fault ''lh.block'') s = Ret () (s\<lparr>lhblock := b\<rparr>)" "length b = LOGSIZE" "\<forall>i < n. b ! i = f i" by auto
  then show ?case
    using Suc.prems by (intro exI[of _ "b[n := f n]"]) (auto simp: kfor_append keval less_Suc_eq nth_list_update)
qed

lemma read_head_spec:
  fixes s :: "'z logst_scheme"
  assumes "bio_inv {} s" and "ldev s = 1" and "lstart s = int S" and "S < length (disk s)" and "length (disk s) < 2 ^ 31"
    and "dirties s = {}" and "get32 (content s S) 0 = word_of_nat n" and "n \<le> LOGSIZE" and "length (lhblock s) = LOGSIZE"
  shows "\<exists>t b. read_head s = Ret () t \<and> bio_inv {} t \<and> content t = content s \<and> dirties t = {} \<and> disk t = disk s \<and>
      dtrace t = dtrace s \<and> ldev t = 1 \<and> lstart t = int S \<and> lhn t = int n \<and> lhblock t = b \<and>
      length b = LOGSIZE \<and> (\<forall>i < n. b ! i = get32 (content s S) (4 + 4 * i))"
proof -
  let ?b = "word_of_int (lstart s) :: u32" and ?d = "content s S"
  obtain i t where t: "bread 1 ?b s = Ret i t" "bio_inv {i} t" "bio_blk t i S" "content t = content s"
    "dirties t = dirties s" "disk t = disk s" "dtrace t = dtrace s" "bio_rest t = bio_rest s"
    by (rule bio_rd_log[OF assms(1,3-5)]) (simp add: assms(6) NBUF_def)
  note e = bio_rest_logD[OF t(8)]
  have d: "bdata (getbuf i t) = ?d" using bio.data_view[OF t(2) _ t(3)] t(4) by simp
  have n: "sint (get32 ?d 0) = int n"
    unfolding assms(7) using assms(8) by (simp add: signed_of_nat LOGSIZE_def signed_take_bit_int_eq_self)
  obtain b where b: "kfor [0..<n] (\<lambda>i. if i < LOGSIZE then kmod (\<lambda>s. s\<lparr>lhblock := (lhblock s)[i := get32 ?d (4 + 4 * i)]\<rparr>)
       else fault ''lh.block'') (t\<lparr>lhn := int n\<rparr>) = Ret () (t\<lparr>lhn := int n, lhblock := b\<rparr>)" "length b = LOGSIZE"
      "\<forall>i < n. b ! i = get32 ?d (4 + 4 * i)"
    using read_blocks_run[OF assms(8), of "t\<lparr>lhn := int n\<rparr>" "\<lambda>i. get32 ?d (4 + 4 * i)"] e assms(9) by auto
  let ?u = "t\<lparr>lhn := int n, lhblock := b\<rparr>"
  have "content ?u S = disk ?u ! S"
    using bio.view_clean[OF assms(1), of S] assms(6) t(4,6) by simp
  then obtain v where v: "brelse i ?u = Ret () v" "bio_inv {} v" "content v = content ?u" "dirties v = dirties ?u"
      "disk v = disk ?u" "dtrace v = dtrace ?u" "bio_rest v = bio_rest ?u"
    using bio.rel_law[of "{i}" ?u i S] t(2,3) by auto
  note ev = bio_rest_logD[OF v(7)]
  have "read_head s = Ret () v"
    using t(1) d n b(1) v(1) assms(2) by (simp add: read_head_def keval)
  then show ?thesis
    using v ev e t b assms(2,3,6) by (intro exI[of _ v] exI[of _ b]) simp
qed

section \<open>What recovery writes\<close>

text \<open>The on-disk log: \<open>n\<close> committed blocks, to be installed at \<open>h 0, ..., h (n - 1)\<close>.\<close>

definition disk_log :: "nat \<Rightarrow> nat \<Rightarrow> (nat \<Rightarrow> nat) \<Rightarrow> block list \<Rightarrow> bool" where
  "disk_log S n h d \<longleftrightarrow> n \<le> LOGSIZE \<and> S + n < length d \<and> length d < 2 ^ 31 \<and> get32 (d ! S) 0 = word_of_nat n \<and>
     (\<forall>i < n. unat (get32 (d ! S) (4 + 4 * i)) = h i) \<and> inj_on h {..<n} \<and>
     (\<forall>i < n. h i < length d \<and> (h i < S \<or> S + n < h i))"

definition recovery_writes :: "nat \<Rightarrow> nat \<Rightarrow> (nat \<Rightarrow> nat) \<Rightarrow> block list \<Rightarrow> (nat \<times> block) list" where
  "recovery_writes S n h d = map (\<lambda>i. (h i, d ! (S + i + 1))) [0..<n] @ [(S, hdr 0 [] (d ! S))]"

text \<open>A machine that has just booted: an empty cache, and the log's place known from the superblock.\<close>

definition booted :: "nat \<Rightarrow> 'z logst_scheme \<Rightarrow> bool" where
  "booted S s \<longleftrightarrow> bio_inv {} s \<and> dirties s = {} \<and> ldev s = 1 \<and> lstart s = int S \<and> length (lhblock s) = LOGSIZE"

lemma hdr_0: "hdr 0 b d = hdr 0 [] d"
  by (simp add: hdr_def put_blocks_def)

lemma upd_view_writes:
  assumes "inj_on h {..<n}" and "\<And>i. i < n \<Longrightarrow> h i < length d"
  shows "m < length d \<Longrightarrow> apply_writes (map (\<lambda>i. (h i, f i)) [0..<n]) d ! m = upd_view h f n (\<lambda>m. d ! m) m"
  using assms by (induction n) (auto simp: inj_on_def)

lemma recover_spec:
  fixes s :: "'z logst_scheme"
  assumes "booted S s" and "disk_log S n h (disk s)"
  shows "\<exists>t. recover_from_log s = Ret () t \<and> booted S t \<and> lhn t = 0 \<and>
     dtrace t = dtrace s @ recovery_writes S n h (disk s) \<and> disk t = apply_writes (recovery_writes S n h (disk s)) (disk s)"
proof -
  have c: "content s = (\<lambda>m. disk s ! m)" using assms(1) bio.view_clean[of s] by (auto simp: booted_def fun_eq_iff)
  obtain t b where t: "read_head s = Ret () t" "bio_inv {} t" "content t = content s" "dirties t = {}" "disk t = disk s"
      "dtrace t = dtrace s" "ldev t = 1" "lstart t = int S" "lhn t = int n" "lhblock t = b"
      "length b = LOGSIZE" "\<forall>i < n. b ! i = get32 (disk s ! S) (4 + 4 * i)"
    using read_head_spec[of s S n] assms c by (auto simp: booted_def disk_log_def)
  have la: "log_at S n h t" using assms(2) t by (simp add: log_at_def disk_log_def)
  obtain u where u: "install_trans t = Ret () u"
      "bio.settles t (upd_view h (\<lambda>i. content t (S + i + 1)) n (content t)) {} (map (\<lambda>i. (h i, content t (S + i + 1))) [0..<n]) u"
    using install_trans_settles[OF la t(2)] t(4) by (auto elim!: runsE)
  have lu: "log_at S n h u" using log_at_settles[OF la u(2)] .
  let ?u = "u\<lparr>lhn := 0\<rparr>"
  have uS: "content u S = disk s ! S"
  proof -
    have "S \<noteq> h i" if "i < n" for i using log_atD(11)[OF la that] by auto
    then show ?thesis using u(2) t(3) c by (simp add: bio.settles_def upd_view_other)
  qed
  have iu: "bio_inv {} ?u" "dirties ?u = {}" using u(2) by (simp_all add: bio.settles_def)
  obtain v where v: "write_head ?u = Ret () v"
      "bio.settles ?u ((content ?u)(S := hdr 0 (lhblock ?u) (content ?u S))) {} [(S, hdr 0 (lhblock ?u) (content ?u S))] v"
    using write_head_settles[of ?u S 0] iu log_atD[OF lu] by (auto simp: NBUF_def elim!: runsE)
  have "lhn v = 0" "ldev v = 1" "lstart v = int S" "length (lhblock v) = LOGSIZE"
    using v(2) log_atD[OF lu] bio_rest_logD[of v ?u] by (auto simp: bio.settles_def)
  moreover have "recover_from_log s = Ret () v"
    using t(1) u(1) v(1) by (simp add: recover_from_log_def keval)
  moreover have "disk u = apply_writes (map (\<lambda>i. (h i, disk s ! (S + i + 1))) [0..<n]) (disk s)"
      "dtrace u = dtrace s @ map (\<lambda>i. (h i, disk s ! (S + i + 1))) [0..<n]"
    using u(2) unfolding bio.settles_def t(3,5,6) c by simp_all
  moreover have "disk v = apply_writes [(S, hdr 0 [] (disk s ! S))] (disk u)" "dtrace v = dtrace u @ [(S, hdr 0 [] (disk s ! S))]"
      "bio_inv {} v" "dirties v = {}"
    using v(2) uS hdr_0[of "lhblock u"] by (simp_all add: bio.settles_def)
  ultimately show ?thesis
    by (intro exI[of _ v]) (simp add: booted_def recovery_writes_def)
qed

section \<open>What a commit writes\<close>

text \<open>A transaction ready to commit: the logged blocks are exactly the dirty ones, pinned in the cache.\<close>

definition transaction :: "nat \<Rightarrow> nat \<Rightarrow> (nat \<Rightarrow> nat) \<Rightarrow> 'z logst_scheme \<Rightarrow> bool" where
  "transaction S n h s \<longleftrightarrow> log_at S n h s \<and> bio_inv {} s \<and> dirties s = h ` {..<n} \<and> 0 < n \<and> n < NBUF"

definition commit_writes :: "nat \<Rightarrow> nat \<Rightarrow> (nat \<Rightarrow> nat) \<Rightarrow> 'z logst_scheme \<Rightarrow> (nat \<times> block) list" where
  "commit_writes S n h s =
     map (\<lambda>i. (S + i + 1, content s (h i))) [0..<n] @
     [(S, hdr n (lhblock s) (disk s ! S))] @
     map (\<lambda>i. (h i, content s (h i))) [0..<n] @
     [(S, hdr 0 [] (hdr n (lhblock s) (disk s ! S)))]"

lemma commit_spec:
  fixes s :: "'z logst_scheme"
  assumes "transaction S n h s"
  shows "\<exists>t. commit s = Ret () t \<and> bio_inv {} t \<and> dirties t = {} \<and> lhn t = 0 \<and>
     dtrace t = dtrace s @ commit_writes S n h s \<and> disk t = apply_writes (commit_writes S n h s) (disk s) \<and>
     bio_rest t = (bio_rest s)\<lparr>lhn := 0\<rparr>"
proof -
  have la: "log_at S n h s" and iv: "bio_inv {} s" and ds: "dirties s = h ` {..<n}" and n: "0 < n" "n < NBUF"
    using assms by (auto simp: transaction_def)
  have nS: "S + i \<notin> h ` {..<n}" if "i \<le> n" for i using log_atD(11)[OF la] that by fastforce
  have card: "card (h ` {..<n}) < NBUF" using card_image_le[of "{..<n}" h] n by simp
  let ?A = "map (\<lambda>i. (S + i + 1, content s (h i))) [0..<n]" and ?cA = "upd_view (\<lambda>i. S + i + 1) (\<lambda>i. content s (h i)) n (content s)"
  obtain t where t: "write_log s = Ret () t" "bio.settles s ?cA (dirties s) ?A t"
    using write_log_settles[OF la iv ds n(2)] by (auto elim!: runsE)
  have lt: "log_at S n h t" using log_at_settles[OF la t(2)] .
  let ?H = "hdr n (lhblock s) (disk s ! S)"
  have "?cA S = content s S" by (rule upd_view_other) simp
  then have cS: "?cA S = disk s ! S" using bio.view_clean[OF iv, of S] nS[of 0] ds by simp
  have bt: "lhblock t = lhblock s" using bio_rest_logD[of t s] t(2) by (simp add: bio.settles_def)
  obtain u where u: "write_head t = Ret () u" "bio.settles t (?cA(S := ?H)) (dirties s) [(S, ?H)] u"
    using write_head_settles[of t S n] log_atD[OF lt] t(2) card ds nS[of 0] cS bt
    by (auto simp: bio.settles_def elim!: runsE)
  have lu: "log_at S n h u" using log_at_settles[OF lt u(2)] .
  have cu: "content u (S + i + 1) = content s (h i)" if "i < n" for i
    using u(2) upd_view_at[of "\<lambda>i. S + i + 1" n i "\<lambda>i. content s (h i)" "content s"] that
    by (simp add: bio.settles_def inj_on_def)
  then have B: "map (\<lambda>i. (h i, content u (S + i + 1))) [0..<n] = map (\<lambda>i. (h i, content s (h i))) [0..<n]" by simp
  have iu: "bio_inv {} u" "dirties u = {} \<or> dirties u = h ` {..<n} \<and> n < NBUF"
    using u(2) ds n by (simp_all add: bio.settles_def)
  obtain v where v: "install_trans u = Ret () v"
      "bio.settles u (upd_view h (\<lambda>i. content u (S + i + 1)) n (content u)) {} (map (\<lambda>i. (h i, content s (h i))) [0..<n]) v"
    using install_trans_settles[OF lu iu] unfolding B by (auto elim!: runsE)
  have lv: "log_at S n h v" using log_at_settles[OF lu v(2)] .
  let ?v = "v\<lparr>lhn := 0\<rparr>"
  have "S \<noteq> h i" if "i < n" for i using log_atD(11)[OF la that] by auto
  then have vS: "content v S = ?H" using v(2) u(2) by (simp add: bio.settles_def upd_view_other)
  obtain w where w: "write_head ?v = Ret () w" "bio.settles ?v ((content v)(S := hdr 0 (lhblock v) ?H)) {} [(S, hdr 0 (lhblock v) ?H)] w"
    using write_head_settles[of ?v S 0] log_atD[OF lv] v(2) vS by (auto simp: bio.settles_def NBUF_def elim!: runsE)
  have "commit s = Ret () w"
    using t(1) u(1) v(1) w(1) log_atD(3)[OF la] n(1) by (simp add: commit_def keval)
  moreover have "bio_rest w = (bio_rest s)\<lparr>lhn := 0\<rparr>"
    using w(2) v(2) u(2) t(2) by (simp add: bio.settles_def)
  moreover have "disk t = apply_writes ?A (disk s)" "dtrace t = dtrace s @ ?A"
      "disk u = apply_writes [(S, ?H)] (disk t)" "dtrace u = dtrace t @ [(S, ?H)]"
    using t(2) u(2) unfolding bio.settles_def by blast+
  moreover have "disk v = apply_writes (map (\<lambda>i. (h i, content s (h i))) [0..<n]) (disk u)"
      "dtrace v = dtrace u @ map (\<lambda>i. (h i, content s (h i))) [0..<n]"
    using v(2) unfolding bio.settles_def by blast+
  moreover have "disk w = apply_writes [(S, hdr 0 [] ?H)] (disk v)" "dtrace w = dtrace v @ [(S, hdr 0 [] ?H)]"
      "bio_inv {} w" "dirties w = {}" "lhn w = 0"
    using w(2) hdr_0[of "lhblock v"] bio_rest_logD(1)[of w ?v] by (simp_all add: bio.settles_def)
  ultimately show ?thesis
    by (intro exI[of _ w]) (simp add: commit_writes_def)
qed

section \<open>Crashes\<close>

text \<open>The disk after a crash that lost all but the first \<open>k\<close> writes of a commit, block by block.\<close>

definition crash_disk :: "nat \<Rightarrow> nat \<Rightarrow> nat \<Rightarrow> (nat \<Rightarrow> nat) \<Rightarrow> 'z logst_scheme \<Rightarrow> block list" where
  "crash_disk k S n h s = apply_writes (take k (commit_writes S n h s)) (disk s)"

lemma length_crash_disk [simp]: "length (crash_disk k S n h s) = length (disk s)"
  by (simp add: crash_disk_def)

lemma take_map_upt: "take j (map f [0..<n]) = map f [0..<min j n]"
  by (simp add: take_map min_def)

text \<open>Before the header is written, only log blocks have changed.\<close>

lemma crash_before_commit:
  assumes "k \<le> n" and "m \<notin> {S<..S + n}"
  shows "crash_disk k S n h s ! m = disk s ! m"
proof -
  have "take k (commit_writes S n h s) = map (\<lambda>i. (S + i + 1, content s (h i))) [0..<k]"
    using assms(1) by (simp add: commit_writes_def take_map min_def)
  then show ?thesis
    using assms unfolding crash_disk_def by (simp, intro apply_writes_other) auto
qed

text \<open>From the header write on, the log holds the transaction until its erasure.\<close>

lemma crash_after_header:
  assumes "transaction S n h s" and "j \<le> n" and "k = n + 1 + j"
  shows "crash_disk k S n h s ! S = hdr n (lhblock s) (disk s ! S)"
    and "i < n \<Longrightarrow> crash_disk k S n h s ! (S + i + 1) = content s (h i)"
    and "i < j \<Longrightarrow> crash_disk k S n h s ! h i = content s (h i)"
    and "m \<notin> {S..S + n} \<Longrightarrow> m \<notin> h ` {..<n} \<Longrightarrow> crash_disk k S n h s ! m = disk s ! m"
proof -
  have la: "log_at S n h s" using assms(1) by (simp add: transaction_def)
  note D = log_atD[OF la]
  let ?A = "map (\<lambda>i. (S + i + 1, content s (h i))) [0..<n]" and ?H = "hdr n (lhblock s) (disk s ! S)"
  let ?B = "map (\<lambda>i. (h i, content s (h i))) [0..<j]"
  have k: "crash_disk k S n h s = apply_writes ?B ((apply_writes ?A (disk s))[S := ?H])"
    using assms(2,3) by (simp add: crash_disk_def commit_writes_def take_map_upt min_def)
  have hB: "m \<notin> fst ` set ?B" if "S \<le> m" "m \<le> S + n" for m
  proof
    assume "m \<in> fst ` set ?B"
    then obtain i where "i < j" "m = h i" by auto
    then show False using D(11)[of i] that assms(2) by auto
  qed
  show "crash_disk k S n h s ! S = ?H"
    unfolding k using hB[of S] D(5) by (subst apply_writes_other) auto
  show "crash_disk k S n h s ! (S + i + 1) = content s (h i)" if "i < n"
    unfolding k using hB[of "S + i + 1"] that D(5)
      upd_view_writes[of "\<lambda>i. S + i + 1" n "disk s" "S + i + 1" "\<lambda>i. content s (h i)"]
      upd_view_at[of "\<lambda>i. S + i + 1" n i "\<lambda>i. content s (h i)" "\<lambda>m. disk s ! m"]
    by (subst apply_writes_other) (auto simp: inj_on_def)
  show "crash_disk k S n h s ! h i = content s (h i)" if "i < j"
  proof -
    have "inj_on h {..<j}" using D(7) assms(2) by (auto intro: inj_on_subset)
    then show ?thesis
      unfolding k using D(10) that assms(2) upd_view_at[of h j i "\<lambda>i. content s (h i)"]
      by (subst upd_view_writes) auto
  qed
  show "crash_disk k S n h s ! m = disk s ! m" if "m \<notin> {S..S + n}" "m \<notin> h ` {..<n}"
  proof -
    have "m \<notin> fst ` set ?B" using that(2) assms(2) by fastforce
    moreover have "m \<notin> fst ` set ?A" "m \<noteq> S" using that(1) by auto
    ultimately show ?thesis unfolding k by (simp add: apply_writes_other)
  qed
qed

lemma crash_disk_log:
  assumes "transaction S n h s" and "j \<le> n" and "k = n + 1 + j"
  shows "disk_log S n h (crash_disk k S n h s)"
proof -
  have la: "log_at S n h s" and iv: "bio_inv {} s" using assms(1) by (simp_all add: transaction_def)
  note D = log_atD[OF la]
  have "length (disk s ! S) = BSIZE" using iv D(5) by (simp add: bio_inv_def cache_ok_def)
  from hdr_facts[OF this D(4)] show ?thesis
    using crash_after_header(1)[OF assms] D by (simp add: disk_log_def)
qed

lemma crash_erased:
  assumes "transaction S n h s" and "k = 2 * n + 2"
  shows "disk_log S 0 h (crash_disk k S n h s)"
    and "m \<notin> {S..S + n} \<Longrightarrow> m < length (disk s) \<Longrightarrow> crash_disk k S n h s ! m = content s m"
proof -
  have la: "log_at S n h s" and iv: "bio_inv {} s" and ds: "dirties s = h ` {..<n}"
    using assms(1) by (simp_all add: transaction_def)
  note D = log_atD[OF la]
  let ?H = "hdr n (lhblock s) (disk s ! S)"
  have k: "crash_disk k S n h s = (crash_disk (n + 1 + n) S n h s)[S := hdr 0 [] ?H]"
    using assms(2) by (simp add: crash_disk_def commit_writes_def take_map_upt min_def)
  have "length (disk s ! S) = BSIZE" using iv D(5) by (simp add: bio_inv_def cache_ok_def)
  from hdr_facts(1)[OF this D(4)] have "length ?H = BSIZE" .
  from hdr_facts(2)[OF this, of 0] show "disk_log S 0 h (crash_disk k S n h s)"
    unfolding k using D(5,6) by (simp add: disk_log_def)
  note c = crash_after_header[OF assms(1) order_refl refl]
  show "crash_disk k S n h s ! m = content s m" if m: "m \<notin> {S..S + n}" "m < length (disk s)"
  proof (cases "m \<in> h ` {..<n}")
    case True
    then show ?thesis using c(3) m by (auto simp: k)
  next
    case False
    moreover have "S \<noteq> m" using m(1) by auto
    ultimately show ?thesis using c(4)[of m] m bio.view_clean[OF iv, of m] ds by (simp add: k)
  qed
qed

text \<open>Recovery leaves every block outside the log that it does not install.\<close>

lemma recovered_blocks:
  assumes "disk_log S n h d" and "m < length d" and "m \<noteq> S"
  shows "apply_writes (recovery_writes S n h d) d ! m = upd_view h (\<lambda>i. d ! (S + i + 1)) n (\<lambda>m. d ! m) m"
  using assms upd_view_writes[of h n d m "\<lambda>i. d ! (S + i + 1)"]
  by (simp add: recovery_writes_def disk_log_def)

lemma redo_writes:
  assumes "inj_on h {..<n}" and "\<And>i. i < n \<Longrightarrow> h i < length d" and "k \<le> n"
  shows "apply_writes (map (\<lambda>i. (h i, f i)) [0..<n]) (apply_writes (map (\<lambda>i. (h i, f i)) [0..<k]) d) =
    apply_writes (map (\<lambda>i. (h i, f i)) [0..<n]) d" (is "apply_writes ?W ?e = _")
proof (rule nth_equalityI)
  fix m assume "m < length (apply_writes ?W ?e)"
  then have m: "m < length d" "m < length ?e" by simp_all
  show "apply_writes ?W ?e ! m = apply_writes ?W d ! m"
  proof (cases "m \<in> h ` {..<n}")
    case True
    then obtain i where "i < n" "m = h i" by auto
    then show ?thesis using upd_view_writes[OF assms(1), of ?e m f] upd_view_writes[OF assms(1,2) m(1), of f] m assms(2)
      by (simp add: upd_view_at[OF assms(1)])
  next
    case False
    then have "m \<notin> fst ` set ?W" "m \<notin> fst ` set (map (\<lambda>i. (h i, f i)) [0..<k])" using assms(3) by force+
    then show ?thesis by (simp add: apply_writes_other del: set_map)
  qed
qed simp

lemma crash_recoverable:
  fixes s :: "'z logst_scheme"
  assumes "transaction S n h s" and "get32 (disk s ! S) 0 = 0" and "k \<le> 2 * n + 2" and "d = crash_disk k S n h s"
  shows "\<exists>p g. disk_log S p g d \<and>
      (\<forall>m < length (disk s). m \<notin> {S..S + n} \<longrightarrow>
        upd_view g (\<lambda>i. d ! (S + i + 1)) p (\<lambda>m. d ! m) m = (if k \<le> n then disk s ! m else content s m))"
proof -
  have la: "log_at S n h s" and iv: "bio_inv {} s" and ds: "dirties s = h ` {..<n}"
    using assms(1) by (simp_all add: transaction_def)
  note D = log_atD[OF la]
  have "k \<le> n \<or> (k - n - 1 \<le> n \<and> k = n + 1 + (k - n - 1)) \<or> k = 2 * n + 2" using assms(3) by linarith
  then consider "k \<le> n" | j where "j \<le> n" "k = n + 1 + j" | "k = 2 * n + 2" by blast
  then show ?thesis
  proof cases
    case 1
    have "d ! m = disk s ! m" if "m \<notin> {S<..S + n}" for m unfolding assms(4) using crash_before_commit[OF 1 that] .
    then show ?thesis
      using assms(2,4) D(5,6) 1 by (intro exI[of _ 0] exI[of _ h]) (auto simp: disk_log_def)
  next
    case (2 j)
    note a = crash_after_header[OF assms(1) 2]
    have "upd_view h (\<lambda>i. d ! (S + i + 1)) n (\<lambda>m. d ! m) m = content s m"
      if m: "m < length (disk s)" "m \<notin> {S..S + n}" for m
    proof (cases "m \<in> h ` {..<n}")
      case True
      then obtain i where "i < n" "m = h i" by auto
      then show ?thesis using upd_view_at[OF D(7)] a(2) assms(4) by auto
    next
      case False
      then show ?thesis
        using a(4)[of m] m bio.view_clean[OF iv, of m] ds assms(4) by (subst upd_view_other) auto
    qed
    then show ?thesis
      using crash_disk_log[OF assms(1) 2] 2 assms(4) by (intro exI[of _ n] exI[of _ h]) simp
  next
    case 3
    then show ?thesis
      using crash_erased[OF assms(1) 3] assms(4) by (intro exI[of _ 0] exI[of _ h]) simp
  qed
qed

text \<open>C1. Commit is atomic over crashes: \<^verbatim>\<open>commit\<close> writes a sequence of blocks, and if the machine stops
  after any number \<open>k\<close> of them, recovery at the next boot succeeds and leaves every block outside the
  log as it was before the transaction, when the header had not been written (\<open>k \<le> n\<close>), and with
  the transaction's contents otherwise.\<close>

theorem commit_crash_atomic:
  fixes s r :: "'z logst_scheme"
  assumes "transaction S n h s" and "get32 (disk s ! S) 0 = 0"
    and "k \<le> length (commit_writes S n h s)"
    and "booted S r" and "disk r = apply_writes (take k (commit_writes S n h s)) (disk s)"
  shows "\<exists>c t. commit s = Ret () c \<and> dtrace c = dtrace s @ commit_writes S n h s \<and>
     recover_from_log r = Ret () t \<and>
     (\<forall>m < length (disk s). m \<notin> {S..S + n} \<longrightarrow> disk t ! m = (if k \<le> n then disk s ! m else content s m))"
proof -
  have d: "disk r = crash_disk k S n h s" using assms(5) by (simp add: crash_disk_def)
  have "k \<le> 2 * n + 2" using assms(3) by (simp add: commit_writes_def)
  from crash_recoverable[OF assms(1,2) this d] obtain p g where p: "disk_log S p g (disk r)"
    "\<And>m. m < length (disk s) \<Longrightarrow> m \<notin> {S..S + n} \<Longrightarrow>
        upd_view g (\<lambda>i. disk r ! (S + i + 1)) p (\<lambda>m. disk r ! m) m = (if k \<le> n then disk s ! m else content s m)"
    by blast
  obtain t where t: "recover_from_log r = Ret () t" "disk t = apply_writes (recovery_writes S p g (disk r)) (disk r)"
    using recover_spec[OF assms(4) p(1)] by blast
  have "disk t ! m = (if k \<le> n then disk s ! m else content s m)" if "m < length (disk s)" "m \<notin> {S..S + n}" for m
    using recovered_blocks[OF p(1), of m] p(2)[OF that] that t(2) d by (cases "m = S") auto
  then show ?thesis using commit_spec[OF assms(1)] t(1) by blast
qed


subsection \<open>A concrete transaction\<close>

text \<open>An eight block disk with its log in blocks 2 and 3, and a machine whose buffer 0 holds a modified block 6 that the
  log names.\<close>

definition ring :: "(nat \<Rightarrow> buf) \<Rightarrow> buf list" where
  "ring f = map (\<lambda>i. (f i)\<lparr>bprev := if i = 0 then NBUF else i - 1, bnext := if i = NBUF then 0 else Suc i\<rparr>) [0..<Suc NBUF]"

definition blank_buf :: buf where
  "blank_buf = \<lparr>bvalid = False, bdirty = False, bdev = 0, blockno = 0, refcnt = 0, bprev = 0, bnext = 0,
     bdata = replicate BSIZE 0\<rparr>"

definition tiny_machine :: "buf list \<Rightarrow> block list \<Rightarrow> nat \<Rightarrow> logst" where
  "tiny_machine bs d n =
     \<lparr>locks = \<lambda>_. \<lparr>locked = 0, lkname = [], lkcpu = None\<rparr>,
      cpus = \<lambda>_. \<lparr>ncli = 0, intena = True, ifl = True, cproc = Some 0\<rparr>, mycpu = 0,
      panicked = False, cons_locking = True, uart = False, uart_out = [], crt = \<lambda>_. 0, crtpos = 0,
      mem = \<lambda>_. 0, use_lock = True, freelist = 0, kern_end = 0x80110000,
      kpgdir = 0, cr3 = \<lambda>_. 0, esp0 = \<lambda>_. 0, sym_data = 0,
      procs = replicate NPROC idle_proc, initproc = None, nextpid = 1, policyChooser = RR, GRTExists = False,
      FRRExists = False, printRunningProcIsValid = 0, ticks = 0, sym_trapret = 0, sym_forkret = 0,
      slocks = \<lambda>_. \<lparr>slocked = False, slname = [], slpid = 0\<rparr>,
      disk = d, dtrace = [], bufs = bs,
      lstart = 2, lsize = 30, outstanding = 0, committing = False, ldev = 1, lhn = int n, lhblock = 6 # replicate 29 0\<rparr>"

definition tiny_disk :: "block list" where
  "tiny_disk = replicate 8 (replicate BSIZE 0)"

definition one_dirty :: "nat \<Rightarrow> buf" where
  "one_dirty i = (if i = 0 then blank_buf\<lparr>bvalid := True, bdirty := True, bdev := 1, blockno := 6,
     bdata := replicate BSIZE 7\<rparr> else blank_buf)"

lemma ring_nth: "i \<le> NBUF \<Longrightarrow>
    ring f ! i = (f i)\<lparr>bprev := if i = 0 then NBUF else i - 1, bnext := if i = NBUF then 0 else Suc i\<rparr>"
  by (simp add: ring_def del: upt_Suc)

lemma ring_chain: "k < NBUF \<Longrightarrow> chain (ring f) k [Suc k..<NBUF] NBUF"
proof (induction "NBUF - Suc k" arbitrary: k)
  case 0
  then have "Suc k = NBUF" by simp
  then show ?case by (simp add: ring_nth)
next
  case (Suc d)
  then have "Suc k < NBUF" "d = NBUF - Suc (Suc k)" by simp_all
  then show ?case using Suc(1)[of "Suc k"] by (simp add: ring_nth upt_conv_Cons del: upt_Suc)
qed

lemma ring_lru: "lru (ring f) [0..<NBUF]"
proof -
  have "chain (ring f) NBUF (0 # [Suc 0..<NBUF]) NBUF"
    using ring_chain[of 0 f] by (simp add: ring_nth NBUF_def del: upt_Suc)
  then show ?thesis by (simp add: lru_def ring_def upt_conv_Cons[of 0] NBUF_def del: upt_Suc)
qed

lemma tiny_ready: "fs_ready (tiny_machine bs d n)"
  by (simp add: fs_ready_def tiny_machine_def lk_free_def cpu_stable_def)

lemma tiny_inv:
  assumes "\<And>i. i < NBUF \<Longrightarrow> buf_ok d False (f i)" and "\<And>b. b \<in> set d \<Longrightarrow> length b = BSIZE"
    and "\<And>i j n. i < NBUF \<Longrightarrow> j < NBUF \<Longrightarrow> caches (f i) n \<Longrightarrow> caches (f j) n \<Longrightarrow> i = j"
  shows "bio_inv {} (tiny_machine (ring f) d n)"
proof -
  have a: "buf_ok d False (ring f ! i)" if "i < NBUF" for i
    using assms(1)[OF that] that by (simp add: ring_nth buf_ok_def)
  have b: "caches (ring f ! i) m = caches (f i) m" if "i < NBUF" for i m using that by (simp add: ring_nth caches_def)
  have "cache_ok {} (tiny_machine (ring f) d n)"
    unfolding cache_ok_def using a assms(2,3) ring_lru[of f] b
    by (auto simp: tiny_machine_def intro!: exI[of _ "[0..<NBUF]"])
  then show ?thesis by (simp add: bio_inv_def tiny_ready)
qed

definition mid_commit :: logst where
  "mid_commit = tiny_machine (ring one_dirty) tiny_disk 1"

lemma one_dirty_simps:
  "caches (one_dirty i) n \<longleftrightarrow> i = 0 \<and> n = 6" "bdirty (one_dirty i) \<longleftrightarrow> i = 0"
  "buf_ok tiny_disk False (one_dirty i)"
  by (auto simp: one_dirty_def blank_buf_def caches_def buf_ok_def tiny_disk_def)

lemma tiny_disk_simps [simp]: "length tiny_disk = 8" "n < 8 \<Longrightarrow> tiny_disk ! n = replicate BSIZE 0"
    "set tiny_disk = {replicate BSIZE 0}"
  by (simp_all add: tiny_disk_def)

lemma tiny_fields [simp]: "disk (tiny_machine bs d n) = d" "bufs (tiny_machine bs d n) = bs"
    "ldev (tiny_machine bs d n) = 1" "lstart (tiny_machine bs d n) = 2" "lhn (tiny_machine bs d n) = int n"
    "lhblock (tiny_machine bs d n) = 6 # replicate 29 0"
  by (simp_all add: tiny_machine_def)

lemma mid_commit_inv: "bio_inv {} mid_commit"
  unfolding mid_commit_def by (rule tiny_inv) (auto simp: one_dirty_simps)

lemma mid_commit_transaction: "transaction 2 1 (\<lambda>_. 6) mid_commit"
proof -
  have "dirties mid_commit = {6}"
    by (auto simp: dirties_def mid_commit_def ring_nth caches_def[of "_\<lparr>bprev := _, bnext := _\<rparr>"]
        one_dirty_simps(1)[unfolded caches_def] one_dirty_simps(2) NBUF_def intro!: exI[of _ 0])
  then show ?thesis using mid_commit_inv
    by (auto simp: transaction_def log_at_def mid_commit_def NBUF_def LOGSIZE_def inj_on_def)
qed

lemma blank_booted:
  assumes "\<And>b. b \<in> set d \<Longrightarrow> length b = BSIZE"
  shows "booted 2 (tiny_machine (ring (\<lambda>_. blank_buf)) d 0)"
proof -
  have "bio_inv {} (tiny_machine (ring (\<lambda>_. blank_buf)) d 0)"
    using assms by (intro tiny_inv) (auto simp: buf_ok_def caches_def blank_buf_def)
  then show ?thesis
    by (auto simp: booted_def dirties_def ring_nth blank_buf_def LOGSIZE_def)
qed

lemma mid_commit_content: "content mid_commit 6 = replicate BSIZE 7"
  using content_cached[of "{}" mid_commit 0 6] mid_commit_inv
  by (simp add: bio_inv_def mid_commit_def ring_nth caches_def one_dirty_def NBUF_def)

lemma mid_commit_writes:
  "commit_writes 2 (Suc 0) (\<lambda>_. 6) mid_commit =
     [(3, replicate BSIZE 7), (2, hdr 1 (6 # replicate 29 0) (replicate BSIZE 0)), (6, replicate BSIZE 7),
      (2, hdr 0 [] (hdr 1 (6 # replicate 29 0) (replicate BSIZE 0)))]"
  by (simp add: commit_writes_def mid_commit_content) (simp add: mid_commit_def)

lemma apply_writes_lengths:
  "(\<And>b. b \<in> set d \<union> snd ` set ws \<Longrightarrow> length b = n) \<Longrightarrow> b \<in> set (apply_writes ws d) \<Longrightarrow> length b = n"
proof (induction ws arbitrary: d)
  case (Cons w ws)
  obtain m c where w: "w = (m, c)" by force
  show ?case
  proof (rule Cons.IH)
    show "length b = n" if "b \<in> set (d[m := c]) \<union> snd ` set ws" for b
      using that set_update_subset_insert[of d m c] by (intro Cons.prems(1)) (auto simp: w)
  qed (use Cons.prems(2) w in simp)
qed simp

definition after_crash :: logst where
  "after_crash = tiny_machine (ring (\<lambda>_. blank_buf))
     (apply_writes (take 2 (commit_writes 2 1 (\<lambda>_. 6) mid_commit)) tiny_disk) 0"

lemma after_crash_booted: "booted 2 after_crash"
  unfolding after_crash_def
proof (rule blank_booted, erule apply_writes_lengths[rotated])
  fix b :: block
  assume "b \<in> set tiny_disk \<union> snd ` set (take 2 (commit_writes 2 1 (\<lambda>_. 6) mid_commit))"
  then show "length b = BSIZE" by (auto simp: mid_commit_writes hdr_facts(1) LOGSIZE_def)
qed

theorem commit_crash_atomic_witness:
  "transaction 2 1 (\<lambda>_. 6) mid_commit \<and> booted 2 after_crash \<and>
   (\<exists>c t. commit mid_commit = Ret () c \<and> recover_from_log after_crash = Ret () t \<and> disk t ! 6 = replicate BSIZE 7)"
proof -
  have "get32 (disk mid_commit ! 2) 0 = 0"
    by (simp add: mid_commit_def get32_def join32_def BSIZE_def)
  moreover have "2 \<le> length (commit_writes 2 1 (\<lambda>_. 6) mid_commit)" by (simp add: mid_commit_writes)
  moreover have "disk mid_commit = tiny_disk" by (simp add: mid_commit_def)
  ultimately obtain c t where "commit mid_commit = Ret () c" "recover_from_log after_crash = Ret () t"
      "\<forall>m<length (disk mid_commit). m \<notin> {2..2 + 1} \<longrightarrow>
         disk t ! m = (if 2 \<le> (1::nat) then disk mid_commit ! m else content mid_commit m)"
    using commit_crash_atomic[OF mid_commit_transaction _ _ after_crash_booted, of 2]
    by (auto simp: after_crash_def)
  then show ?thesis using mid_commit_transaction after_crash_booted \<open>disk mid_commit = tiny_disk\<close>
    by (auto simp: mid_commit_content)
qed

definition second_crash :: logst where
  "second_crash = tiny_machine (ring (\<lambda>_. blank_buf)) ((disk after_crash)[6 := disk after_crash ! 3]) 0"

lemma after_crash_lengths: "b \<in> set (disk after_crash) \<Longrightarrow> length b = BSIZE"
  using after_crash_booted by (simp add: booted_def bio_inv_def cache_ok_def)

lemma second_crash_booted: "booted 2 second_crash"
  unfolding second_crash_def
proof (rule blank_booted)
  fix b assume "b \<in> set ((disk after_crash)[6 := disk after_crash ! 3])"
  then have "b \<in> insert (disk after_crash ! 3) (set (disk after_crash))" using set_update_subset_insert by fast
  moreover have "disk after_crash ! 3 \<in> set (disk after_crash)" by (simp add: after_crash_def)
  ultimately show "length b = BSIZE" using after_crash_lengths by auto
qed


end
