(* ===== verification/Scheduler.thy ===== *)
theory Scheduler
  imports Proc Complex_Main
begin

text \<open>
  The scheduler of \<^verbatim>\<open>proc.c\<close>: \<^verbatim>\<open>checkForHigherPiority\<close> and \<^verbatim>\<open>scheduler\<close> with its three queues (guaranteed share,
  first-in first-out, round robin).  \<^verbatim>\<open>swtch\<close> into a process is the argument \<open>run\<close>: what the process does until
  it switches back to the scheduler, an arbitrary piece of code on the kernel state.  A \<^verbatim>\<open>float\<close> is the rational
  number it denotes; the quotients the scheduler forms are zero or lie between \<open>2 ^ (- 32)\<close> and \<open>2 ^ 33\<close>, where single
  precision has 24 significant bits and rounds to the nearest, ties to even.
\<close>

section \<open>Single precision\<close>

definition two_to :: "int \<Rightarrow> rat" where
  "two_to k = (if 0 \<le> k then 2 ^ nat k else 1 / 2 ^ nat (- k))"

definition round_even :: "rat \<Rightarrow> int" where
  "round_even y =
     (let f = \<lfloor>y\<rfloor>; r = y - of_int f in
      if r < 1 / 2 \<or> (r = 1 / 2 \<and> even f) then f else f + 1)"

definition f32_round :: "rat \<Rightarrow> rat" where
  "f32_round x =
     (case find (\<lambda>k. x < two_to (k + 24)) [-64..40] of
        None \<Rightarrow> x
      | Some k \<Rightarrow> of_int (round_even (x / two_to k)) * two_to k)"

definition f32_of :: "u32 \<Rightarrow> rat" where
  "f32_of v = f32_round (of_nat (unat v))"

section \<open>Operations\<close>

definition active :: "proc \<Rightarrow> bool" where
  "active q \<longleftrightarrow> state q = RUNNABLE \<or> state q = RUNNING"

definition checkForHigherPiority :: "(unit, 'z ptable_scheme) km" where
  "checkForHigherPiority =
     kbind (kget procs) (\<lambda>ps.
     kfor ps (\<lambda>q.
       kwhen (active q)
         (if piority q = HIGH_PIORITY then kmod (\<lambda>s. s\<lparr>GRTExists := True\<rparr>)
          else if piority q = MEDIUM_PIORITY then kmod (\<lambda>s. s\<lparr>FRRExists := True\<rparr>)
          else ret ())))"

definition procValue :: "u32 \<Rightarrow> proc \<Rightarrow> rat" where
  "procValue now q =
     (let down = f32_of (now - ctime q) in
      if down \<noteq> 0 then f32_round (f32_of (rtime q) / down) else 0)"

definition grt_candidate :: "policy \<Rightarrow> proc \<Rightarrow> bool" where
  "grt_candidate pol q \<longleftrightarrow> state q = RUNNABLE \<and> (pol = Q3 \<longrightarrow> piority q = HIGH_PIORITY)"

text \<open>The loop over the table that keeps \<^verbatim>\<open>bestIndex\<close> and \<^verbatim>\<open>bestProcValue\<close>.\<close>

definition grt_step :: "policy \<Rightarrow> u32 \<Rightarrow> proc list \<Rightarrow> int \<times> rat \<Rightarrow> nat \<Rightarrow> int \<times> rat" where
  "grt_step pol now ps b i =
     (if \<not> grt_candidate pol (ps ! i) then b
      else let v = procValue now (ps ! i) in
        if snd b = - 1 \<or> snd b > v then (int i, v) else b)"

definition grt_best :: "policy \<Rightarrow> u32 \<Rightarrow> proc list \<Rightarrow> int" where
  "grt_best pol now ps = fst (foldl (grt_step pol now ps) (- 1, - 1) [0..<NPROC])"

text \<open>From \<^verbatim>\<open>proc = p\<close> to \<^verbatim>\<open>proc = 0\<close>, the same code at the three places that switch to a process.\<close>

definition dispatch :: "(nat \<Rightarrow> (unit, 'z ptable_scheme) km) \<Rightarrow> nat \<Rightarrow> (unit, 'z ptable_scheme) km" where
  "dispatch run p =
     kthen (kmod (upd_cpu (\<lambda>c. c\<lparr>cproc := Some p\<rparr>)))
     (kbind (kget (\<lambda>s. procs s ! p)) (\<lambda>q.
      kthen (switchuvm (kstack q) (pgdir q))
     (kthen (kmod (upd_proc p (\<lambda>q. q\<lparr>processCounter := 0\<rparr>)))
     (kthen (kmod (upd_proc p (\<lambda>q. q\<lparr>state := RUNNING\<rparr>)))
     (kthen (run p)
     (kthen switchkvm
     (kthen printAllRunningProcesses
     (kmod (upd_cpu (\<lambda>c. c\<lparr>cproc := None\<rparr>))))))))))"

definition grt_round :: "(nat \<Rightarrow> (unit, 'z ptable_scheme) km) \<Rightarrow> (unit, 'z ptable_scheme) km" where
  "grt_round run =
     kbind (kget (\<lambda>s. grt_best (policyChooser s) (ticks s) (procs s))) (\<lambda>b.
     kwhen (b \<noteq> - 1) (dispatch run (nat b)))"

fun frr_loop :: "(nat \<Rightarrow> (unit, 'z ptable_scheme) km) \<Rightarrow> nat list \<Rightarrow> (unit, 'z ptable_scheme) km" where
  "frr_loop run [] = ret ()"
| "frr_loop run (p # ps) =
     kbind (kget (\<lambda>s. procs s ! p)) (\<lambda>q.
     kbind (kget policyChooser) (\<lambda>pol.
     if state q \<noteq> RUNNABLE then frr_loop run ps
     else if pol = Q3 \<and> piority q \<noteq> MEDIUM_PIORITY then frr_loop run ps
     else
       kthen (kwhen (pol = Q3) (kmod (\<lambda>s. s\<lparr>FRRExists := True\<rparr>)))
       (kthen (dispatch run p)
       (kbind (kget policyChooser) (\<lambda>pol'.
        if pol' = Q3 then
          kthen checkForHigherPiority
          (kbind (kget GRTExists) (\<lambda>g. if g then ret () else frr_loop run ps))
        else frr_loop run ps)))))"

fun rr_loop :: "(nat \<Rightarrow> (unit, 'z ptable_scheme) km) \<Rightarrow> nat list \<Rightarrow> (unit, 'z ptable_scheme) km" where
  "rr_loop run [] = ret ()"
| "rr_loop run (p # ps) =
     kbind (kget (\<lambda>s. procs s ! p)) (\<lambda>q.
     if state q \<noteq> RUNNABLE then rr_loop run ps
     else if piority q \<noteq> LOW_PIORITY then rr_loop run ps
     else
       kthen (dispatch run p)
       (kbind (kget policyChooser) (\<lambda>pol'.
        if pol' = Q3 then
          kthen checkForHigherPiority
          (kbind (kget (\<lambda>s. GRTExists s \<or> FRRExists s)) (\<lambda>g. if g then ret () else rr_loop run ps))
        else rr_loop run ps)))"

text \<open>One iteration of the scheduler's endless loop.\<close>

definition scheduler_pass :: "(nat \<Rightarrow> (unit, 'z ptable_scheme) km) \<Rightarrow> (unit, 'z ptable_scheme) km" where
  "scheduler_pass run =
     kthen (kmod (upd_cpu (\<lambda>c. c\<lparr>ifl := True\<rparr>)))
     (kthen (acquire LkPtable)
     (kthen (kmod (\<lambda>s. s\<lparr>GRTExists := False, FRRExists := False\<rparr>))
     (kthen checkForHigherPiority
     (kbind (kget policyChooser) (\<lambda>p1.
      kthen (kwhen (p1 = GRT \<or> p1 = Q3) (grt_round run))
     (kbind (kget (\<lambda>s. policyChooser s = FRR \<or> policyChooser s = Q3 \<and> \<not> GRTExists s)) (\<lambda>b2.
      kthen (kwhen b2 (frr_loop run [0..<NPROC]))
     (kbind (kget (\<lambda>s. policyChooser s = RR \<or> policyChooser s = Q3 \<and> \<not> GRTExists s \<and> \<not> FRRExists s)) (\<lambda>b3.
      kthen (kwhen b3 (rr_loop run [0..<NPROC]))
      (release LkPtable))))))))))"

text \<open>The scheduler never returns: \<open>n\<close> iterations of it.\<close>

definition scheduler :: "(nat \<Rightarrow> (unit, 'z ptable_scheme) km) \<Rightarrow> nat \<Rightarrow> (unit, 'z ptable_scheme) km" where
  "scheduler run n =
     kthen (kmod (\<lambda>s. s\<lparr>printRunningProcIsValid := 0\<rparr>)) (kfor [0..<n] (\<lambda>_. scheduler_pass run))"

section \<open>Flags and frames\<close>

definition any_active :: "int \<Rightarrow> proc list \<Rightarrow> bool" where
  "any_active c ps \<longleftrightarrow> (\<exists>q \<in> set ps. active q \<and> piority q = c)"

lemma check_eq:
  "checkForHigherPiority s =
     Ret () (s\<lparr>GRTExists := GRTExists s \<or> any_active HIGH_PIORITY (procs s),
              FRRExists := FRRExists s \<or> any_active MEDIUM_PIORITY (procs s)\<rparr>)"
proof -
  have "kfor ps (\<lambda>q. kwhen (active q)
         (if piority q = HIGH_PIORITY then kmod (\<lambda>s. s\<lparr>GRTExists := True\<rparr>)
          else if piority q = MEDIUM_PIORITY then kmod (\<lambda>s. s\<lparr>FRRExists := True\<rparr>)
          else ret ())) s =
     Ret () (s\<lparr>GRTExists := GRTExists s \<or> any_active HIGH_PIORITY ps,
              FRRExists := FRRExists s \<or> any_active MEDIUM_PIORITY ps\<rparr>)" for ps and s :: "'a ptable_scheme"
    by (induction ps arbitrary: s)
       (auto simp: any_active_def kthen_apply kwhen_def HIGH_PIORITY_def MEDIUM_PIORITY_def)
  then show ?thesis by (simp add: checkForHigherPiority_def kbind_apply)
qed

lemma keeps_more_print [keeps_intro]: "keeps conout.more printAllRunningProcesses"
  by (auto simp: printAllRunningProcesses_def intro!: keeps_intro)

lemma more_ptable:
  fixes s t :: "'z ptable_scheme"
  assumes "conout.more t = conout.more s"
  shows "procs t = procs s" "policyChooser t = policyChooser s" "ticks t = ticks s" "GRTExists t = GRTExists s"
    "FRRExists t = FRRExists s" "kpgdir t = kpgdir s"
  using assms by (cases s; cases t; simp)+

definition sched_view :: "'z ptable_scheme \<Rightarrow> proc list \<times> policy \<times> u32 \<times> bool \<times> bool" where
  "sched_view s = (procs s, policyChooser s, ticks s, GRTExists s, FRRExists s)"

lemma keeps_view_more:
  assumes "keeps conout.more (m :: ('a, 'z ptable_scheme) km)"
  shows "keeps sched_view m"
  unfolding keeps_def
proof (intro allI impI)
  fix s x t assume "m s = Ret x t"
  from more_ptable[OF keepsD[OF assms this]] show "sched_view t = sched_view s" by (simp add: sched_view_def)
qed

lemmas keeps_view_io [keeps_intro] = keeps_more_print[THEN keeps_view_more] keeps_more_locks[THEN keeps_view_more]

lemma keeps_view [keeps_intro]:
  "keeps sched_view (kmod (upd_cpu f))" "keeps sched_view switchkvm" "keeps sched_view (switchuvm k d)"
  by (auto simp: switchkvm_def switchuvm_def lcr3_def upd_cpu_def sched_view_def intro!: keeps_intro)

section \<open>The guaranteed-share queue picks a least share\<close>

lemma two_to_pos [simp]: "0 < two_to k"
  by (simp add: two_to_def)

lemma round_even_nonneg: "0 \<le> y \<Longrightarrow> 0 \<le> round_even y"
  by (auto simp: round_even_def Let_def)

lemma f32_round_nonneg:
  assumes "0 \<le> x"
  shows "0 \<le> f32_round x"
proof (cases "find (\<lambda>k. x < two_to (k + 24)) [-64..40]")
  case None
  then show ?thesis unfolding f32_round_def None using assms by simp
next
  case (Some k)
  have "0 \<le> round_even (x / two_to k)" using assms by (simp add: round_even_nonneg less_imp_le)
  then show ?thesis unfolding f32_round_def Some by (simp add: less_imp_le)
qed

lemma f32_of_nonneg [simp]: "0 \<le> f32_of v"
  unfolding f32_of_def by (rule f32_round_nonneg[OF of_nat_0_le_iff])

lemma procValue_nonneg: "0 \<le> procValue now q"
  by (auto simp: procValue_def Let_def intro!: f32_round_nonneg divide_nonneg_nonneg)

definition grt_upto :: "policy \<Rightarrow> u32 \<Rightarrow> proc list \<Rightarrow> nat \<Rightarrow> int \<times> rat \<Rightarrow> bool" where
  "grt_upto pol now ps k = (\<lambda>(b, v).
     if b = - 1 then v = - 1 \<and> (\<forall>j < k. \<not> grt_candidate pol (ps ! j))
     else 0 \<le> b \<and> nat b < k \<and> grt_candidate pol (ps ! nat b) \<and> v = procValue now (ps ! nat b) \<and>
       (\<forall>j < k. grt_candidate pol (ps ! j) \<longrightarrow> v \<le> procValue now (ps ! j)))"

lemma grt_upto_step:
  assumes "grt_upto pol now ps k (b, v)"
  shows "grt_upto pol now ps (Suc k) (grt_step pol now ps (b, v) k)"
proof -
  have "procValue now q \<noteq> - 1" for q using procValue_nonneg[of now q] by auto
  then show ?thesis using assms
    by (cases "b = - 1"; cases "grt_candidate pol (ps ! k)"; cases "procValue now (ps ! k) < v")
       (auto simp: grt_upto_def grt_step_def Let_def less_Suc_eq intro: order.trans[OF less_imp_le])
qed

lemma grt_foldl: "grt_upto pol now ps k (foldl (grt_step pol now ps) (- 1, - 1) [0..<k])"
proof (induction k)
  case (Suc k)
  obtain b v where "foldl (grt_step pol now ps) (- 1, - 1) [0..<k] = (b, v)" by force
  then show ?case using grt_upto_step[of pol now ps k b v] Suc by simp
qed (simp add: grt_upto_def)

lemma grt_best_spec:
  "grt_best pol now ps = - 1 \<longleftrightarrow> (\<forall>j < NPROC. \<not> grt_candidate pol (ps ! j))"
  "grt_best pol now ps \<noteq> - 1 \<Longrightarrow> nat (grt_best pol now ps) < NPROC \<and> grt_candidate pol (ps ! nat (grt_best pol now ps)) \<and>
     (\<forall>j < NPROC. grt_candidate pol (ps ! j) \<longrightarrow> procValue now (ps ! nat (grt_best pol now ps)) \<le> procValue now (ps ! j))"
  using grt_foldl[of pol now ps NPROC] by (auto simp: grt_best_def grt_upto_def split: prod.splits if_splits)

section \<open>Which process the scheduler may switch to\<close>

text \<open>The table as the process finds it when it is switched to.\<close>

definition started :: "nat \<Rightarrow> proc list \<Rightarrow> proc list" where
  "started p ps = upd_nth p (\<lambda>q. q\<lparr>state := RUNNING\<rparr>) (upd_nth p (\<lambda>q. q\<lparr>processCounter := 0\<rparr>) ps)"

definition may_run :: "nat \<Rightarrow> proc list \<Rightarrow> policy \<Rightarrow> u32 \<Rightarrow> bool" where
  "may_run p ps pol now \<longleftrightarrow> p < NPROC \<and> state (ps ! p) = RUNNING \<and> (case pol of
     RR \<Rightarrow> piority (ps ! p) = LOW_PIORITY
   | FRR \<Rightarrow> True
   | GRT \<Rightarrow> (\<forall>j < NPROC. state (ps ! j) = RUNNABLE \<longrightarrow> procValue now (ps ! p) \<le> procValue now (ps ! j))
   | Q3 \<Rightarrow> (piority (ps ! p) = HIGH_PIORITY \<and>
             (\<forall>j < NPROC. state (ps ! j) = RUNNABLE \<and> piority (ps ! j) = HIGH_PIORITY \<longrightarrow>
                procValue now (ps ! p) \<le> procValue now (ps ! j))) \<or>
           (piority (ps ! p) = MEDIUM_PIORITY \<and> \<not> any_active HIGH_PIORITY ps) \<or>
           (piority (ps ! p) = LOW_PIORITY \<and> \<not> any_active HIGH_PIORITY ps \<and> \<not> any_active MEDIUM_PIORITY ps))"

text \<open>\<open>run\<close> with a check, when the process gets the CPU, that it may.\<close>

definition guarded :: "(nat \<Rightarrow> (unit, 'z ptable_scheme) km) \<Rightarrow> nat \<Rightarrow> (unit, 'z ptable_scheme) km" where
  "guarded run p s = (if may_run p (procs s) (policyChooser s) (ticks s) then run p s else Fault ''not its turn'')"

lemma started_nth:
  assumes "j < length ps"
  shows "piority (started p ps ! j) = piority (ps ! j)" "procValue now (started p ps ! j) = procValue now (ps ! j)"
    "state (started p ps ! j) = (if j = p then RUNNING else state (ps ! j))"
proof -
  have v: "procValue now (q\<lparr>processCounter := c\<rparr>) = procValue now q" "procValue now (q\<lparr>state := x\<rparr>) = procValue now q" for q c x
    unfolding procValue_def Let_def by (simp_all cong: if_cong)
  show "piority (started p ps ! j) = piority (ps ! j)" "procValue now (started p ps ! j) = procValue now (ps ! j)"
    "state (started p ps ! j) = (if j = p then RUNNING else state (ps ! j))"
    using assms by (auto simp: started_def upd_nth_nth v)
qed

lemma length_started [simp]: "length (started p ps) = length ps"
  by (simp add: started_def)

lemma any_active_nth: "any_active c ps \<longleftrightarrow> (\<exists>j < length ps. active (ps ! j) \<and> piority (ps ! j) = c)"
  by (auto simp: any_active_def set_conv_nth)

lemma any_active_started:
  "p < length ps \<Longrightarrow> state (ps ! p) = RUNNABLE \<Longrightarrow> any_active c (started p ps) = any_active c ps"
  unfolding any_active_nth by (rule ex_cong1) (auto simp: started_nth active_def split: if_splits)

lemma dispatch_guarded:
  fixes s :: "'z ptable_scheme"
  assumes "may_run p (started p (procs s)) (policyChooser s) (ticks s)"
  shows "dispatch (guarded run) p s = dispatch run p s"
proof -
  let ?s = "upd_cpu (\<lambda>c. c\<lparr>cproc := Some p\<rparr>) s"
  have "sched_view ?s = sched_view s" by (simp add: upd_cpu_def sched_view_def)
  moreover have "sched_view t = sched_view ?s" if "switchuvm k d ?s = Ret x t" for k d x t
    using keepsD[OF keeps_view(3) that] .
  ultimately have "guarded run p (upd_proc p (\<lambda>q. q\<lparr>state := RUNNING\<rparr>) (upd_proc p (\<lambda>q. q\<lparr>processCounter := 0\<rparr>) t)) =
      run p (upd_proc p (\<lambda>q. q\<lparr>state := RUNNING\<rparr>) (upd_proc p (\<lambda>q. q\<lparr>processCounter := 0\<rparr>) t))"
    if "switchuvm k d ?s = Ret x t" for k d x t
    using assms that by (auto simp: guarded_def sched_view_def started_def)
  then show ?thesis
    by (simp add: dispatch_def keval split: outcome.splits)
qed

text \<open>What \<^verbatim>\<open>swtch\<close> keeps on one CPU: nothing assigns \<^verbatim>\<open>policyChooser\<close>, and only the scheduler clears \<^verbatim>\<open>GRTExists\<close>.\<close>

definition run_keeps :: "(nat \<Rightarrow> (unit, 'z ptable_scheme) km) \<Rightarrow> bool" where
  "run_keeps run \<longleftrightarrow> (\<forall>p s u t. run p s = Ret u t \<longrightarrow>
     policyChooser t = policyChooser s \<and> (GRTExists s \<longrightarrow> GRTExists t) \<and> length (procs t) = length (procs s))"

lemma dispatch_keeps:
  fixes s :: "'z ptable_scheme"
  assumes "run_keeps run" and "dispatch run p s = Ret u t"
  shows "policyChooser t = policyChooser s" "GRTExists s \<Longrightarrow> GRTExists t" "length (procs t) = length (procs s)"
proof -
  let ?s = "upd_cpu (\<lambda>c. c\<lparr>cproc := Some p\<rparr>) s"
  have v: "sched_view ?s = sched_view s" by (simp add: upd_cpu_def sched_view_def)
  obtain k d t2 t4 t5 t6 where r: "switchuvm k d ?s = Ret () t2"
      "run p (upd_proc p (\<lambda>q. q\<lparr>state := RUNNING\<rparr>) (upd_proc p (\<lambda>q. q\<lparr>processCounter := 0\<rparr>) t2)) = Ret () t4"
      "switchkvm t4 = Ret () t5" "printAllRunningProcesses t5 = Ret () t6"
      "t = upd_cpu (\<lambda>c. c\<lparr>cproc := None\<rparr>) t6"
    using assms(2) by (auto simp: dispatch_def keval split: outcome.splits)
  have "sched_view t2 = sched_view s" "sched_view t = sched_view t4"
    using keepsD[OF keeps_view(3) r(1)] keepsD[OF keeps_view(2) r(3)] keepsD[OF keeps_view_io(1) r(4)] r(5) v
    by (simp_all add: upd_cpu_def sched_view_def)
  then show "policyChooser t = policyChooser s" "GRTExists s \<Longrightarrow> GRTExists t" "length (procs t) = length (procs s)"
    using assms(1) r(2) by (auto simp: run_keeps_def sched_view_def dest!: spec)
qed

lemma started_may_run:
  assumes "length ps = NPROC" and "p < NPROC" and "state (ps ! p) = RUNNABLE"
  shows "may_run p (started p ps) RR now \<longleftrightarrow> piority (ps ! p) = LOW_PIORITY" "may_run p (started p ps) FRR now"
    "may_run p (started p ps) GRT now \<longleftrightarrow> (\<forall>j < NPROC. j \<noteq> p \<longrightarrow> grt_candidate GRT (ps ! j) \<longrightarrow> procValue now (ps ! p) \<le> procValue now (ps ! j))"
    "may_run p (started p ps) Q3 now \<longleftrightarrow>
       (piority (ps ! p) = HIGH_PIORITY \<and>
         (\<forall>j < NPROC. j \<noteq> p \<longrightarrow> grt_candidate Q3 (ps ! j) \<longrightarrow> procValue now (ps ! p) \<le> procValue now (ps ! j))) \<or>
       (piority (ps ! p) = MEDIUM_PIORITY \<and> \<not> any_active HIGH_PIORITY ps) \<or>
       (piority (ps ! p) = LOW_PIORITY \<and> \<not> any_active HIGH_PIORITY ps \<and> \<not> any_active MEDIUM_PIORITY ps)"
  using assms by (auto simp: may_run_def started_nth any_active_started grt_candidate_def)

lemma grt_round_guarded:
  fixes s :: "'z ptable_scheme"
  assumes "length (procs s) = NPROC" and "policyChooser s = GRT \<or> policyChooser s = Q3"
  shows "grt_round (guarded run) s = grt_round run s"
proof (cases "grt_best (policyChooser s) (ticks s) (procs s) = - 1")
  case False
  from grt_best_spec(2)[OF False] assms
  have "may_run (nat (grt_best (policyChooser s) (ticks s) (procs s))) (started (nat (grt_best (policyChooser s) (ticks s) (procs s))) (procs s))
      (policyChooser s) (ticks s)"
    by (auto simp: started_may_run grt_candidate_def[of _ "procs s ! nat _"])
  then show ?thesis using False by (simp add: grt_round_def keval dispatch_guarded)
qed (simp add: grt_round_def keval)

lemma grt_round_keeps:
  fixes s :: "'z ptable_scheme"
  assumes "run_keeps run" and "grt_round run s = Ret u t" and "length (procs s) = NPROC"
  shows "policyChooser t = policyChooser s" "GRTExists s \<Longrightarrow> GRTExists t" "length (procs t) = NPROC"
    "policyChooser s = Q3 \<Longrightarrow> \<not> any_active HIGH_PIORITY (procs s) \<Longrightarrow> t = s"
proof -
  let ?b = "grt_best (policyChooser s) (ticks s) (procs s)"
  have t: "if ?b = - 1 then t = s else dispatch run (nat ?b) s = Ret u t"
    using assms(2) by (auto simp: grt_round_def keval split: if_splits)
  have "policyChooser t = policyChooser s \<and> (GRTExists s \<longrightarrow> GRTExists t) \<and> length (procs t) = length (procs s)"
    using t dispatch_keeps[OF assms(1)] by (auto split: if_splits)
  then show "policyChooser t = policyChooser s" "GRTExists s \<Longrightarrow> GRTExists t" "length (procs t) = NPROC" using assms by auto
  show "t = s" if "policyChooser s = Q3" "\<not> any_active HIGH_PIORITY (procs s)"
    using t grt_best_spec(2)[of Q3 "ticks s" "procs s"] that assms(3)
    by (auto simp: any_active_nth grt_candidate_def active_def split: if_splits)
qed

text \<open>The table loops, one entry at a time.\<close>

definition checked :: "'z ptable_scheme \<Rightarrow> 'z ptable_scheme" where
  "checked s = s\<lparr>GRTExists := GRTExists s \<or> any_active HIGH_PIORITY (procs s),
                FRRExists := FRRExists s \<or> any_active MEDIUM_PIORITY (procs s)\<rparr>"

lemma checked_simps [simp]:
  "procs (checked s) = procs s" "policyChooser (checked s) = policyChooser s" "ticks (checked s) = ticks s"
  "GRTExists (checked s) \<longleftrightarrow> GRTExists s \<or> any_active HIGH_PIORITY (procs s)"
  "FRRExists (checked s) \<longleftrightarrow> FRRExists s \<or> any_active MEDIUM_PIORITY (procs s)"
  by (simp_all add: checked_def)

definition frr_rest :: "(nat \<Rightarrow> (unit, 'z ptable_scheme) km) \<Rightarrow> nat list \<Rightarrow> (unit, 'z ptable_scheme) km" where
  "frr_rest run ps t =
     (if policyChooser t \<noteq> Q3 then frr_loop run ps t
      else if GRTExists (checked t) then Ret () (checked t) else frr_loop run ps (checked t))"

definition rr_rest :: "(nat \<Rightarrow> (unit, 'z ptable_scheme) km) \<Rightarrow> nat list \<Rightarrow> (unit, 'z ptable_scheme) km" where
  "rr_rest run ps t =
     (if policyChooser t \<noteq> Q3 then rr_loop run ps t
      else if GRTExists (checked t) \<or> FRRExists (checked t) then Ret () (checked t) else rr_loop run ps (checked t))"

definition frr_wants :: "'z ptable_scheme \<Rightarrow> nat \<Rightarrow> bool" where
  "frr_wants s p \<longleftrightarrow> state (procs s ! p) = RUNNABLE \<and> (policyChooser s = Q3 \<longrightarrow> piority (procs s ! p) = MEDIUM_PIORITY)"

definition rr_wants :: "'z ptable_scheme \<Rightarrow> nat \<Rightarrow> bool" where
  "rr_wants s p \<longleftrightarrow> state (procs s ! p) = RUNNABLE \<and> piority (procs s ! p) = LOW_PIORITY"

definition frr_mark :: "'z ptable_scheme \<Rightarrow> 'z ptable_scheme" where
  "frr_mark s = (if policyChooser s = Q3 then s\<lparr>FRRExists := True\<rparr> else s)"

lemma frr_mark_simps [simp]:
  "procs (frr_mark s) = procs s" "policyChooser (frr_mark s) = policyChooser s" "ticks (frr_mark s) = ticks s"
  "GRTExists (frr_mark s) = GRTExists s"
  by (simp_all add: frr_mark_def)

lemma check_checked: "checkForHigherPiority s = Ret () (checked s)"
  by (simp add: check_eq checked_def)

lemma frr_loop_step:
  "frr_loop run (p # ps) s =
     (if frr_wants s p then kthen (dispatch run p) (frr_rest run ps) (frr_mark s) else frr_loop run ps s)"
proof -
  have "kbind (kget policyChooser) (\<lambda>pol'. if pol' = Q3 then kthen checkForHigherPiority
          (kbind (kget GRTExists) (\<lambda>g. if g then ret () else frr_loop run ps)) else frr_loop run ps) = frr_rest run ps"
    by (rule ext) (simp add: frr_rest_def kbind_apply kthen_apply check_checked)
  then show ?thesis by (auto simp: frr_wants_def frr_mark_def kbind_apply kwhen_def kthen_apply)
qed

lemma rr_loop_step:
  "rr_loop run (p # ps) s =
     (if rr_wants s p then kthen (dispatch run p) (rr_rest run ps) s else rr_loop run ps s)"
proof -
  have "kbind (kget policyChooser) (\<lambda>pol'. if pol' = Q3 then kthen checkForHigherPiority
          (kbind (kget (\<lambda>s. GRTExists s \<or> FRRExists s)) (\<lambda>g. if g then ret () else rr_loop run ps)) else rr_loop run ps) =
        rr_rest run ps"
    by (rule ext) (simp add: rr_rest_def kbind_apply kthen_apply check_checked)
  then show ?thesis by (auto simp: rr_wants_def kbind_apply)
qed

lemma frr_loop_guarded:
  fixes s :: "'z ptable_scheme"
  assumes "run_keeps run"
  shows "length (procs s) = NPROC \<Longrightarrow> set is \<subseteq> {..<NPROC} \<Longrightarrow>
    policyChooser s = FRR \<or> policyChooser s = Q3 \<and> \<not> any_active HIGH_PIORITY (procs s) \<Longrightarrow>
    frr_loop (guarded run) is s = frr_loop run is s"
proof (induction "is" arbitrary: s)
  case (Cons p "is")
  have "kthen (dispatch (guarded run) p) (frr_rest (guarded run) is) (frr_mark s) =
      kthen (dispatch run p) (frr_rest run is) (frr_mark s)" if w: "frr_wants s p"
  proof -
    have "may_run p (started p (procs (frr_mark s))) (policyChooser (frr_mark s)) (ticks (frr_mark s))"
      using Cons.prems w by (auto simp: started_may_run frr_wants_def)
    note dispatch_guarded[OF this, of run]
    moreover have "frr_rest (guarded run) is t = frr_rest run is t" if d: "dispatch run p (frr_mark s) = Ret u t" for u t
      using dispatch_keeps[OF assms d] Cons.prems Cons.IH[of t] Cons.IH[of "checked t"]
      by (auto simp: frr_rest_def)
    ultimately show ?thesis by (intro kthen_cong) simp_all
  qed
  then show ?case using Cons by (auto simp: frr_loop_step simp del: frr_loop.simps)
qed simp

lemma rr_loop_guarded:
  fixes s :: "'z ptable_scheme"
  assumes "run_keeps run"
  shows "length (procs s) = NPROC \<Longrightarrow> set is \<subseteq> {..<NPROC} \<Longrightarrow>
    policyChooser s = RR \<or> policyChooser s = Q3 \<and> \<not> any_active HIGH_PIORITY (procs s) \<and> \<not> any_active MEDIUM_PIORITY (procs s) \<Longrightarrow>
    rr_loop (guarded run) is s = rr_loop run is s"
proof (induction "is" arbitrary: s)
  case (Cons p "is")
  have "kthen (dispatch (guarded run) p) (rr_rest (guarded run) is) s =
      kthen (dispatch run p) (rr_rest run is) s" if w: "rr_wants s p"
  proof -
    have "may_run p (started p (procs s)) (policyChooser s) (ticks s)"
      using Cons.prems w by (auto simp: started_may_run rr_wants_def)
    note dispatch_guarded[OF this, of run]
    moreover have "rr_rest (guarded run) is t = rr_rest run is t" if d: "dispatch run p s = Ret u t" for u t
      using dispatch_keeps[OF assms d] Cons.prems Cons.IH[of t] Cons.IH[of "checked t"]
      by (auto simp: rr_rest_def)
    ultimately show ?thesis by (intro kthen_cong) simp_all
  qed
  then show ?case using Cons by (auto simp: rr_loop_step simp del: rr_loop.simps)
qed simp

definition flags_sound :: "'z ptable_scheme \<Rightarrow> bool" where
  "flags_sound s \<longleftrightarrow> (any_active HIGH_PIORITY (procs s) \<longrightarrow> GRTExists s) \<and> (any_active MEDIUM_PIORITY (procs s) \<longrightarrow> FRRExists s)"

lemma flags_sound_checked [simp]: "flags_sound (checked s)"
  by (simp add: flags_sound_def)

lemma frr_loop_keeps:
  fixes s :: "'z ptable_scheme"
  assumes "run_keeps run"
  shows "frr_loop run is s = Ret u t \<Longrightarrow>
    policyChooser t = policyChooser s \<and> length (procs t) = length (procs s) \<and> (policyChooser s = Q3 \<longrightarrow> flags_sound s \<longrightarrow> flags_sound t)"
proof (induction "is" arbitrary: s)
  case (Cons p "is")
  show ?case
  proof (cases "frr_wants s p")
    case False
    then show ?thesis using Cons by (auto simp: frr_loop_step simp del: frr_loop.simps)
  next
    case True
    then obtain v where v: "dispatch run p (frr_mark s) = Ret () v" "frr_rest run is v = Ret u t"
      using Cons.prems by (auto simp: frr_loop_step simp del: frr_loop.simps dest!: kthen_RetD)
    from dispatch_keeps[OF assms v(1)] v(2) Cons.IH[of v] Cons.IH[of "checked v"] show ?thesis
      by (auto simp: frr_rest_def split: if_splits)
  qed
qed simp

text \<open>The iteration from the choice of the queue on.\<close>

definition pass_body :: "(nat \<Rightarrow> (unit, 'z ptable_scheme) km) \<Rightarrow> (unit, 'z ptable_scheme) km" where
  "pass_body run =
     kbind (kget policyChooser) (\<lambda>p1.
      kthen (kwhen (p1 = GRT \<or> p1 = Q3) (grt_round run))
     (kbind (kget (\<lambda>s. policyChooser s = FRR \<or> policyChooser s = Q3 \<and> \<not> GRTExists s)) (\<lambda>b2.
      kthen (kwhen b2 (frr_loop run [0..<NPROC]))
     (kbind (kget (\<lambda>s. policyChooser s = RR \<or> policyChooser s = Q3 \<and> \<not> GRTExists s \<and> \<not> FRRExists s)) (\<lambda>b3.
      kthen (kwhen b3 (rr_loop run [0..<NPROC]))
      (release LkPtable))))))"

definition pass_low :: "(nat \<Rightarrow> (unit, 'z ptable_scheme) km) \<Rightarrow> (unit, 'z ptable_scheme) km" where
  "pass_low run s =
     kthen (kwhen (policyChooser s = RR \<or> policyChooser s = Q3 \<and> \<not> GRTExists s \<and> \<not> FRRExists s) (rr_loop run [0..<NPROC]))
       (release LkPtable) s"

definition pass_mid :: "(nat \<Rightarrow> (unit, 'z ptable_scheme) km) \<Rightarrow> (unit, 'z ptable_scheme) km" where
  "pass_mid run s =
     kthen (kwhen (policyChooser s = FRR \<or> policyChooser s = Q3 \<and> \<not> GRTExists s) (frr_loop run [0..<NPROC])) (pass_low run) s"

lemma pass_body_eq:
  "pass_body run s = kthen (kwhen (policyChooser s = GRT \<or> policyChooser s = Q3) (grt_round run)) (pass_mid run) s"
proof -
  have "kbind (kget (\<lambda>s. policyChooser s = RR \<or> policyChooser s = Q3 \<and> \<not> GRTExists s \<and> \<not> FRRExists s)) (\<lambda>b3.
      kthen (kwhen b3 (rr_loop run [0..<NPROC])) (release LkPtable)) = pass_low run"
    by (rule ext) (simp add: pass_low_def kbind_apply)
  then have "kbind (kget (\<lambda>s. policyChooser s = FRR \<or> policyChooser s = Q3 \<and> \<not> GRTExists s)) (\<lambda>b2.
      kthen (kwhen b2 (frr_loop run [0..<NPROC]))
     (kbind (kget (\<lambda>s. policyChooser s = RR \<or> policyChooser s = Q3 \<and> \<not> GRTExists s \<and> \<not> FRRExists s)) (\<lambda>b3.
      kthen (kwhen b3 (rr_loop run [0..<NPROC])) (release LkPtable)))) = pass_mid run"
    by (intro ext) (simp add: pass_mid_def kbind_apply[of "kget _"])
  then show ?thesis by (simp add: pass_body_def kbind_apply[of "kget _"])
qed

lemma pass_low_guarded:
  fixes s :: "'z ptable_scheme"
  assumes "run_keeps run" and "length (procs s) = NPROC" and "policyChooser s = Q3 \<longrightarrow> \<not> GRTExists s \<longrightarrow> flags_sound s"
  shows "pass_low (guarded run) s = pass_low run s"
proof -
  have "rr_loop (guarded run) [0..<NPROC] s = rr_loop run [0..<NPROC] s"
    if "policyChooser s = RR \<or> policyChooser s = Q3 \<and> \<not> GRTExists s \<and> \<not> FRRExists s"
    using that assms by (intro rr_loop_guarded) (auto simp: flags_sound_def)
  then show ?thesis by (auto simp: pass_low_def kwhen_def intro!: kthen_cong)
qed

lemma pass_mid_guarded:
  fixes s :: "'z ptable_scheme"
  assumes "run_keeps run" and "length (procs s) = NPROC" and "policyChooser s = Q3 \<longrightarrow> \<not> GRTExists s \<longrightarrow> flags_sound s"
  shows "pass_mid (guarded run) s = pass_mid run s"
proof -
  let ?c = "policyChooser s = FRR \<or> policyChooser s = Q3 \<and> \<not> GRTExists s"
  have "frr_loop (guarded run) [0..<NPROC] s = frr_loop run [0..<NPROC] s" if ?c
    using that assms by (intro frr_loop_guarded) (auto simp: flags_sound_def)
  moreover have "pass_low (guarded run) t = pass_low run t" if "kwhen ?c (frr_loop run [0..<NPROC]) s = Ret u t" for u t
    using that frr_loop_keeps[OF assms(1), of "[0..<NPROC]" s u t] assms
    by (intro pass_low_guarded[OF assms(1)]) (auto simp: kwhen_def split: if_splits)
  ultimately show ?thesis by (auto simp: pass_mid_def kwhen_def intro!: kthen_cong)
qed

lemma pass_body_guarded:
  fixes s :: "'z ptable_scheme"
  assumes "run_keeps run" and "length (procs s) = NPROC" and "flags_sound s"
  shows "pass_body (guarded run) s = pass_body run s"
proof -
  let ?c = "policyChooser s = GRT \<or> policyChooser s = Q3"
  have "grt_round (guarded run) s = grt_round run s" if ?c using that assms(2) by (intro grt_round_guarded)
  moreover have "pass_mid (guarded run) t = pass_mid run t" if t: "kwhen ?c (grt_round run) s = Ret u t" for u t
  proof (cases ?c)
    case True
    then have "grt_round run s = Ret u t" using t by simp
    from grt_round_keeps[OF assms(1) this assms(2)] assms(3) show ?thesis
      by (intro pass_mid_guarded[OF assms(1)]) (auto simp: flags_sound_def)
  next
    case False
    then show ?thesis using t assms by (intro pass_mid_guarded[OF assms(1)]) auto
  qed
  ultimately show ?thesis by (auto simp: pass_body_eq kwhen_def intro!: kthen_cong)
qed


section \<open>Every runnable process of a queue gets the CPU\<close>

text \<open>The state in which the scheduler and a process hand each other the CPU: the table lock held, interrupts off at
  depth one, a usable console.\<close>

definition handover :: "'z ptable_scheme \<Rightarrow> bool" where
  "handover s \<longleftrightarrow> lk_free LkCons s \<and> ncli (this_cpu s) = 1 \<and> \<not> ifl (this_cpu s) \<and> \<not> panicked s \<and> cursor_ok s \<and>
     length (procs s) = NPROC \<and> (\<forall>q \<in> set (procs s). active q \<longrightarrow> pgdir q \<noteq> 0)"

lemma print_runs:
  fixes s :: "'z ptable_scheme"
  assumes "lk_free LkCons s" and "cpu_stable (this_cpu s)" and "con_ok s s"
  shows "runs printAllRunningProcesses s (\<lambda>_. con_ok s)"
proof -
  have m: "args_match (bytes ''\<newline>$$$$$$$$Running Processes are:'') []" "args_match (bytes ''<%d>'') [AInt v]"
    "args_match (bytes ''\<newline>'') []" for v
    by (simp_all add: bytes_def)
  note step = cprintf_outputs[OF _ assms(1,2)]
  have loop: "runs (kfor ps (\<lambda>q. kwhen (pid q \<noteq> 0) (cprintf ''<%d>'' [AInt (word_of_int (pid q))]))) t (\<lambda>_. con_ok s)"
    if "con_ok s t" for ps and t :: "'z ptable_scheme"
    using that
  proof (induction ps arbitrary: t)
    case (Cons q ps)
    have "runs (kwhen (pid q \<noteq> 0) (cprintf ''<%d>'' [AInt (word_of_int (pid q))])) t (\<lambda>_. con_ok s)"
      using step[OF m(2) Cons.prems] Cons.prems by (simp add: kwhen_def)
    then show ?case unfolding kfor.simps runs_kthen by (rule runs_mono) (rule Cons.IH)
  qed simp
  show ?thesis
  proof (cases "printRunningProcIsValid s = 1")
    case True
    have "runs (kthen (cprintf ''\<newline>$$$$$$$$Running Processes are:'' []) (kbind (kget procs) (\<lambda>ps.
        kthen (kfor ps (\<lambda>q. kwhen (pid q \<noteq> 0) (cprintf ''<%d>'' [AInt (word_of_int (pid q))])))
        (cprintf ''\<newline>'' [])))) s (\<lambda>_. con_ok s)"
      unfolding runs_kthen runs_kbind runs_prim
      by (rule runs_mono[OF step[OF m(1) assms(3)]], rule runs_mono[OF loop], assumption, rule step[OF m(3)])
    then show ?thesis using True by (simp add: printAllRunningProcesses_def runs_kbind)
  qed (simp add: printAllRunningProcesses_def runs_kbind assms(3))
qed

lemma switchuvm_eq:
  fixes s :: "'z ptable_scheme"
  assumes "d \<noteq> 0" and "0 < ncli (this_cpu s)" and "\<not> ifl (this_cpu s)"
  shows "switchuvm k d s = Ret () (s\<lparr>esp0 := (esp0 s)(mycpu s := k + KSTACKSIZE), cr3 := (cr3 s)(mycpu s := V2P d)\<rparr>)"
proof -
  have "(cpus s)(mycpu s := this_cpu s\<lparr>ifl := False, intena := intena (this_cpu s), ncli := ncli (this_cpu s)\<rparr>) = cpus s"
    using assms(3) by (cases "this_cpu s") (simp add: fun_upd_idem_iff)
  then show ?thesis using assms
    by (simp add: switchuvm_def pushcli_def popcli_def lcr3_def upd_cpu_def keval)
qed

text \<open>What the scheduler needs of the process it switches to, while \<open>p\<close> waits for its turn under policy \<open>pol\<close>.\<close>

definition waiting :: "nat \<Rightarrow> policy \<Rightarrow> 'z ptable_scheme \<Rightarrow> bool" where
  "waiting p pol s \<longleftrightarrow> handover s \<and> policyChooser s = pol \<and> state (procs s ! p) = RUNNABLE \<and>
     (pol = RR \<longrightarrow> piority (procs s ! p) = LOW_PIORITY)"

definition cooperates :: "nat \<Rightarrow> policy \<Rightarrow> (nat \<Rightarrow> (unit, 'z ptable_scheme) km) \<Rightarrow> bool" where
  "cooperates p pol run \<longleftrightarrow> (\<forall>q s. q \<noteq> p \<longrightarrow> state (procs s ! q) = RUNNING \<longrightarrow> waiting p pol s \<longrightarrow> runs (run q) s (\<lambda>_ t. waiting p pol t))"

text \<open>\<open>run\<close>, but with an observable stop when \<open>p\<close> is switched to.\<close>

definition until :: "nat \<Rightarrow> (nat \<Rightarrow> (unit, 'z ptable_scheme) km) \<Rightarrow> nat \<Rightarrow> (unit, 'z ptable_scheme) km" where
  "until p run q = (if q = p then (\<lambda>_. Fault ''switched to'') else run q)"

lemma dispatch_prefix:
  fixes s :: "'z ptable_scheme"
  assumes "handover s" and "i < NPROC" and "state (procs s ! i) = RUNNABLE"
  shows "\<exists>t. dispatch run i s = kthen (run i) (kthen switchkvm (kthen printAllRunningProcesses
        (kmod (upd_cpu (\<lambda>c. c\<lparr>cproc := None\<rparr>))))) t \<and> procs t = started i (procs s) \<and> policyChooser t = policyChooser s \<and> handover t"
proof -
  let ?s = "upd_cpu (\<lambda>c. c\<lparr>cproc := Some i\<rparr>) s" and ?q = "procs s ! i"
  have q: "pgdir ?q \<noteq> 0" using assms by (auto simp: handover_def active_def)
  have "0 < ncli (this_cpu ?s)" "\<not> ifl (this_cpu ?s)" using assms by (auto simp: handover_def upd_cpu_def)
  note sw = switchuvm_eq[OF q this, of "kstack ?q"]
  let ?t = "upd_proc i (\<lambda>q. q\<lparr>state := RUNNING\<rparr>) (upd_proc i (\<lambda>q. q\<lparr>processCounter := 0\<rparr>)
      (?s\<lparr>esp0 := (esp0 ?s)(mycpu ?s := kstack ?q + KSTACKSIZE), cr3 := (cr3 ?s)(mycpu ?s := V2P (pgdir ?q))\<rparr>))"
  have "procs ?t = started i (procs s)" by (simp add: started_def upd_cpu_def)
  moreover have "pgdir r \<noteq> 0" if r: "r \<in> set (started i (procs s))" "active r" for r
  proof -
    obtain j where "j < NPROC" "r = started i (procs s) ! j" using r(1) assms(1) by (auto simp: in_set_conv_nth handover_def)
    then show ?thesis using r(2) assms by (auto simp: started_def upd_nth_nth handover_def active_def split: if_splits)
  qed
  ultimately have "handover ?t" using assms(1) by (auto simp: handover_def upd_cpu_def started_def lk_free_def cursor_ok_def)
  then show ?thesis using sw \<open>procs ?t = started i (procs s)\<close>
    by (intro exI[of _ ?t]) (simp add: dispatch_def keval upd_cpu_def)
qed

lemma waiting_io:
  fixes s :: "'z ptable_scheme"
  assumes "waiting p pol s"
  shows "runs (kthen switchkvm (kthen printAllRunningProcesses (kmod (upd_cpu (\<lambda>c. c\<lparr>cproc := None\<rparr>))))) s (\<lambda>_. waiting p pol)"
proof -
  let ?s = "s\<lparr>cr3 := (cr3 s)(mycpu s := V2P (kpgdir s))\<rparr>"
  have "waiting p pol ?s" using assms by (simp add: waiting_def handover_def lk_free_def cursor_ok_def)
  then have "runs printAllRunningProcesses ?s (\<lambda>_. con_ok ?s)"
    by (intro print_runs) (auto simp: waiting_def handover_def cpu_stable_def con_ok_def)
  then show ?thesis
    unfolding runs_kthen
    by (simp add: switchkvm_def lcr3_def keval runs_kbind)
       (erule runs_mono, use assms in \<open>auto simp: waiting_def handover_def con_ok_def lk_free_def cursor_ok_def upd_cpu_def dest: more_ptable\<close>)
qed

lemma dispatch_until:
  fixes s :: "'z ptable_scheme"
  assumes "cooperates p pol run" and "waiting p pol s" and "p < NPROC" and "i < NPROC" and "state (procs s ! i) = RUNNABLE"
  shows "if i = p then dispatch (until p run) i s = Fault ''switched to'' else runs (dispatch (until p run) i) s (\<lambda>_. waiting p pol)"
proof -
  have h: "handover s" using assms(2) by (simp add: waiting_def)
  obtain t where t: "dispatch (until p run) i s = kthen (until p run i) (kthen switchkvm (kthen printAllRunningProcesses
        (kmod (upd_cpu (\<lambda>c. c\<lparr>cproc := None\<rparr>))))) t" "procs t = started i (procs s)" "policyChooser t = policyChooser s" "handover t"
    using dispatch_prefix[OF h assms(4,5), of "until p run"] by blast
  show ?thesis
  proof (cases "i = p")
    case False
    then have "waiting p pol t" using t assms(2,3) h by (simp add: waiting_def started_nth handover_def)
    moreover have "state (procs t ! i) = RUNNING" using t(2) assms(4) h by (simp add: started_nth handover_def)
    ultimately have "runs (run i) t (\<lambda>_. waiting p pol)" using assms(1) False by (simp add: cooperates_def)
    then have "runs (kthen (run i) (kthen switchkvm (kthen printAllRunningProcesses
        (kmod (upd_cpu (\<lambda>c. c\<lparr>cproc := None\<rparr>)))))) t (\<lambda>_. waiting p pol)"
      unfolding runs_kthen[of "run i"] by (rule runs_mono) (rule waiting_io)
    then show ?thesis using t(1) False by (simp add: until_def runs_def)
  qed (use t(1) in \<open>simp add: until_def kthen_apply\<close>)
qed

lemma frr_loop_until:
  fixes s :: "'z ptable_scheme"
  assumes "cooperates p FRR run" and "p < NPROC"
  shows "waiting p FRR s \<Longrightarrow> p \<in> set is \<Longrightarrow> set is \<subseteq> {..<NPROC} \<Longrightarrow> frr_loop (until p run) is s = Fault ''switched to''"
proof (induction "is" arbitrary: s)
  case (Cons i "is")
  show ?case
  proof (cases "frr_wants s i")
    case True
    have s: "frr_mark s = s" using Cons.prems(1) by (simp add: frr_mark_def waiting_def)
    have i: "i < NPROC" "state (procs s ! i) = RUNNABLE" using Cons.prems(3) True by (auto simp: frr_wants_def)
    from dispatch_until[OF assms(1) Cons.prems(1) assms(2) i] show ?thesis
      using True Cons s by (cases "i = p")
        (auto simp: frr_loop_step runs_def kthen_apply frr_rest_def waiting_def simp del: frr_loop.simps)
  next
    case False
    then have "i \<noteq> p" using Cons.prems(1) by (auto simp: frr_wants_def waiting_def)
    then show ?thesis using False Cons by (simp add: frr_loop_step del: frr_loop.simps)
  qed
qed simp

lemma rr_loop_until:
  fixes s :: "'z ptable_scheme"
  assumes "cooperates p RR run" and "p < NPROC"
  shows "waiting p RR s \<Longrightarrow> p \<in> set is \<Longrightarrow> set is \<subseteq> {..<NPROC} \<Longrightarrow> rr_loop (until p run) is s = Fault ''switched to''"
proof (induction "is" arbitrary: s)
  case (Cons i "is")
  show ?case
  proof (cases "rr_wants s i")
    case True
    have i: "i < NPROC" "state (procs s ! i) = RUNNABLE" using Cons.prems(3) True by (auto simp: rr_wants_def)
    from dispatch_until[OF assms(1) Cons.prems(1) assms(2) i] show ?thesis
      using True Cons by (cases "i = p")
        (auto simp: rr_loop_step runs_def kthen_apply rr_rest_def waiting_def simp del: rr_loop.simps)
  next
    case False
    then have "i \<noteq> p" using Cons.prems(1) by (auto simp: rr_wants_def waiting_def)
    then show ?thesis using False Cons by (simp add: rr_loop_step del: rr_loop.simps)
  qed
qed simp

lemma pass_body_until:
  assumes "pol = FRR \<or> pol = RR" and "cooperates p pol run" and "p < NPROC" and "waiting p pol t"
  shows "pass_body (until p run) t = Fault ''switched to''"
proof -
  have "policyChooser t = pol" using assms(4) by (simp add: waiting_def)
  then show ?thesis using assms frr_loop_until[of p run t "[0..<NPROC]"] rr_loop_until[of p run t "[0..<NPROC]"]
    by (auto simp: pass_body_eq pass_mid_def pass_low_def kthen_apply lessThan_atLeast0)
qed


text \<open>Two runnable processes, each of which gives the CPU back at once.\<close>

definition gives_back :: "nat \<Rightarrow> (unit, 'z ptable_scheme) km" where
  "gives_back p = kmod (upd_proc p (\<lambda>q. q\<lparr>state := RUNNABLE\<rparr>))"

definition two_ready :: "policy \<Rightarrow> ptable" where
  "two_ready pol = (one_running pol)\<lparr>procs := replicate 2 (idle_proc\<lparr>state := RUNNABLE, pid := 1, pgdir := 0x80400000\<rparr>) @
     replicate 62 idle_proc\<rparr>"

lemma gives_back_keeps: "run_keeps gives_back"
  by (simp add: run_keeps_def gives_back_def)


lemma gives_back_cooperates:
  assumes "p < NPROC"
  shows "cooperates p pol (gives_back :: nat \<Rightarrow> (unit, 'z ptable_scheme) km)"
  unfolding cooperates_def
proof (intro allI impI)
  fix q and s :: "'z ptable_scheme"
  assume q: "q \<noteq> p" and r: "state (procs s ! q) = RUNNING" and w: "waiting p pol s"
  have "pgdir x \<noteq> 0" if x: "x \<in> set (upd_nth q (\<lambda>q. q\<lparr>state := RUNNABLE\<rparr>) (procs s))" "active x" for x
  proof -
    obtain j where "j < length (procs s)" "x = upd_nth q (\<lambda>q. q\<lparr>state := RUNNABLE\<rparr>) (procs s) ! j"
      using x(1) by (auto simp: in_set_conv_nth)
    then show ?thesis using x(2) w r by (auto simp: upd_nth_nth waiting_def handover_def active_def split: if_splits)
  qed
  then show "runs (gives_back q) s (\<lambda>_ t. waiting p pol t)"
    using q w by (auto simp: gives_back_def waiting_def handover_def lk_free_def cursor_ok_def)
qed


end
