(* ===== verification/Inode.thy ===== *)
theory Inode
  imports Log
begin

text \<open>
  Disk blocks and inodes (\<^verbatim>\<open>fs.c\<close>): the bitmap allocator, the on-disk inode format, the cache of in-memory inodes
  with its reference counts and locks, the block map of a file and its truncation.  A pointer to a cached inode is its
  index in \<open>inodes\<close>.  The fields of an on-disk inode lie in its block at the offsets of \<^verbatim>\<open>struct dinode\<close>.
\<close>

section \<open>State\<close>

definition NINODE :: nat where "NINODE = 50"
definition NDIRECT :: nat where "NDIRECT = 12"
definition NINDIRECT :: nat where "NINDIRECT = 128"
definition MAXFILE :: nat where "MAXFILE = NDIRECT + NINDIRECT"
definition IPB :: nat where "IPB = 8"
definition BPB :: nat where "BPB = 4096"
definition DINODE_SIZE :: nat where "DINODE_SIZE = 64"

record inode =
  idev :: u32
  inum :: u32
  iref :: int
  ivalid :: bool
  itype :: u16
  imajor :: u16
  iminor :: u16
  inlink :: u16
  isize :: u32
  iaddrs :: "u32 list"

record icache = logst +
  inodes :: "inode list"
  sb :: superblock

abbreviation upd_inode :: "nat \<Rightarrow> (inode \<Rightarrow> inode) \<Rightarrow> 'z icache_scheme \<Rightarrow> 'z icache_scheme" where
  "upd_inode i f s \<equiv> s\<lparr>inodes := upd_nth i f (inodes s)\<rparr>"

abbreviation getinode :: "nat \<Rightarrow> 'z icache_scheme \<Rightarrow> inode" where
  "getinode i s \<equiv> inodes s ! i"

definition IBLOCK :: "u32 \<Rightarrow> superblock \<Rightarrow> u32" where
  "IBLOCK i sp = i div 8 + inodestart sp"

definition BBLOCK :: "u32 \<Rightarrow> superblock \<Rightarrow> u32" where
  "BBLOCK b sp = b div 4096 + bmapstart sp"

section \<open>Blocks\<close>

definition bzero :: "u32 \<Rightarrow> u32 \<Rightarrow> (unit, 'z icache_scheme) km" where
  "bzero dev bno =
     kbind (bread dev bno) (\<lambda>bp.
     kthen (set_data bp (\<lambda>_. replicate BSIZE 0))
     (kthen (log_write bp)
      (brelse bp)))"

text \<open>\<^verbatim>\<open>data[bi/8] & m\<close>, \<^verbatim>\<open>data[bi/8] |= m\<close> and \<^verbatim>\<open>data[bi/8] &= ~m\<close> for \<^verbatim>\<open>m = 1 << (bi % 8)\<close>.\<close>

definition bit_used :: "block \<Rightarrow> nat \<Rightarrow> bool" where
  "bit_used d bi \<longleftrightarrow> (d ! (bi div 8)) AND push_bit (bi mod 8) 1 \<noteq> 0"

definition mark_used :: "nat \<Rightarrow> block \<Rightarrow> block" where
  "mark_used bi d = d[bi div 8 := (d ! (bi div 8)) OR push_bit (bi mod 8) 1]"

definition mark_free :: "nat \<Rightarrow> block \<Rightarrow> block" where
  "mark_free bi d = d[bi div 8 := (d ! (bi div 8)) AND NOT (push_bit (bi mod 8) 1)]"

text \<open>The rounds of \<^verbatim>\<open>balloc\<close>'s outer loop, each at the first block of a bitmap block.\<close>

fun balloc_loop :: "u32 \<Rightarrow> nat list \<Rightarrow> (u32, 'z icache_scheme) km" where
  "balloc_loop dev [] = panic ''balloc: out of blocks''"
| "balloc_loop dev (b # bs) =
     kbind (kget sb) (\<lambda>sp.
     kbind (bread dev (BBLOCK (word_of_nat b) sp)) (\<lambda>bp.
     kbind (kget (\<lambda>s. bdata (getbuf bp s))) (\<lambda>d.
     case find (\<lambda>bi. \<not> bit_used d bi) [0..<min BPB (unat (sb_size sp) - b)] of
       Some bi \<Rightarrow>
         kthen (set_data bp (mark_used bi))
         (kthen (log_write bp)
         (kthen (brelse bp)
         (kthen (bzero dev (word_of_nat (b + bi)))
          (ret (word_of_nat (b + bi))))))
     | None \<Rightarrow> kthen (brelse bp) (balloc_loop dev bs))))"

definition balloc :: "u32 \<Rightarrow> (u32, 'z icache_scheme) km" where
  "balloc dev =
     kbind (kget (\<lambda>s. unat (sb_size (sb s)))) (\<lambda>n.
     balloc_loop dev (map (\<lambda>k. k * BPB) [0..<(n + BPB - 1) div BPB]))"

definition bfree :: "u32 \<Rightarrow> u32 \<Rightarrow> (unit, 'z icache_scheme) km" where
  "bfree dev b =
     kbind (readsb dev) (\<lambda>sp.
     kthen (kmod (\<lambda>s. s\<lparr>sb := sp\<rparr>))
     (kbind (bread dev (BBLOCK b sp)) (\<lambda>bp.
      kbind (kget (\<lambda>s. bdata (getbuf bp s))) (\<lambda>d.
      if \<not> bit_used d (unat b mod BPB) then panic ''freeing free block''
      else
        kthen (set_data bp (mark_free (unat b mod BPB)))
        (kthen (log_write bp)
         (brelse bp))))))"

section \<open>On-disk inodes\<close>

definition dinode_off :: "u32 \<Rightarrow> nat" where
  "dinode_off i = DINODE_SIZE * (unat i mod IPB)"

definition dinode_type :: "u32 \<Rightarrow> block \<Rightarrow> u16" where
  "dinode_type i d = get16 d (dinode_off i)"

text \<open>The stores of \<^verbatim>\<open>iupdate\<close> into the block, in order.\<close>

definition put_dinode :: "inode \<Rightarrow> block \<Rightarrow> block" where
  "put_dinode ip d =
     (let off = dinode_off (inum ip);
          d = patch off (le16 (itype ip)) d;
          d = patch (off + 2) (le16 (imajor ip)) d;
          d = patch (off + 4) (le16 (iminor ip)) d;
          d = patch (off + 6) (le16 (inlink ip)) d;
          d = patch (off + 8) (le32 (isize ip)) d
      in patch (off + 12) (concat (map le32 (iaddrs ip))) d)"

text \<open>The loads of \<^verbatim>\<open>ilock\<close>.\<close>

definition load_dinode :: "block \<Rightarrow> inode \<Rightarrow> inode" where
  "load_dinode d ip =
     (let off = dinode_off (inum ip) in
      ip\<lparr>itype := get16 d off, imajor := get16 d (off + 2), iminor := get16 d (off + 4), inlink := get16 d (off + 6),
         isize := get32 d (off + 8), iaddrs := map (\<lambda>k. get32 d (off + 12 + 4 * k)) [0..<NDIRECT + 1]\<rparr>)"

section \<open>Inode cache\<close>

definition iinit :: "u32 \<Rightarrow> (unit, 'z icache_scheme) km" where
  "iinit dev =
     kthen (initlock LkIcache ''icache'')
     (kthen (kfor [0..<NINODE] (\<lambda>i. initsleeplock (SlInode i) ''inode''))
     (kbind (readsb dev) (\<lambda>sp.
      kthen (kmod (\<lambda>s. s\<lparr>sb := sp\<rparr>))
      (cprintf ''sb: size %d nblocks %d ninodes %d nlog %d logstart %d inodestart %d bmap start %d\<newline>''
        [AInt (sb_size sp), AInt (nblocks sp), AInt (ninodes sp), AInt (nlog sp), AInt (logstart sp),
         AInt (inodestart sp), AInt (bmapstart sp)]))))"

definition iget :: "u32 \<Rightarrow> u32 \<Rightarrow> (nat, 'z icache_scheme) km" where
  "iget dev i =
     kthen (acquire LkIcache)
     (kbind (kget (\<lambda>s. first_index (\<lambda>ip. iref ip > 0 \<and> idev ip = dev \<and> inum ip = i) (inodes s))) (\<lambda>hit.
      case hit of
        Some k \<Rightarrow>
          kthen (kmod (upd_inode k (\<lambda>ip. ip\<lparr>iref := iref ip + 1\<rparr>)))
          (kthen (release LkIcache) (ret k))
      | None \<Rightarrow>
          kbind (kget (\<lambda>s. first_index (\<lambda>ip. iref ip = 0) (inodes s))) (\<lambda>empty.
          case empty of
            None \<Rightarrow> panic ''iget: no inodes''
          | Some k \<Rightarrow>
              kthen (kmod (upd_inode k (\<lambda>ip. ip\<lparr>idev := dev, inum := i, iref := 1, ivalid := False\<rparr>)))
              (kthen (release LkIcache) (ret k)))))"

text \<open>The rounds of \<^verbatim>\<open>ialloc\<close>, for \<^verbatim>\<open>inum = 1\<close> up to \<^verbatim>\<open>sb.ninodes - 1\<close>.\<close>

fun ialloc_loop :: "u32 \<Rightarrow> u16 \<Rightarrow> nat list \<Rightarrow> (nat, 'z icache_scheme) km" where
  "ialloc_loop dev ty [] = panic ''ialloc: no inodes''"
| "ialloc_loop dev ty (i # is) =
     kbind (kget sb) (\<lambda>sp.
     kbind (bread dev (IBLOCK (word_of_nat i) sp)) (\<lambda>bp.
     kbind (kget (\<lambda>s. bdata (getbuf bp s))) (\<lambda>d.
     if dinode_type (word_of_nat i) d = 0 then
       kthen (set_data bp (patch (dinode_off (word_of_nat i)) (replicate DINODE_SIZE 0)))
       (kthen (set_data bp (patch (dinode_off (word_of_nat i)) (le16 ty)))
       (kthen (log_write bp)
       (kthen (brelse bp)
        (iget dev (word_of_nat i)))))
     else kthen (brelse bp) (ialloc_loop dev ty is))))"

definition ialloc :: "u32 \<Rightarrow> u16 \<Rightarrow> (nat, 'z icache_scheme) km" where
  "ialloc dev ty = kbind (kget (\<lambda>s. unat (ninodes (sb s)))) (\<lambda>n. ialloc_loop dev ty [1..<n])"

definition iupdate :: "nat \<Rightarrow> (unit, 'z icache_scheme) km" where
  "iupdate k =
     kbind (kget (\<lambda>s. (getinode k s, sb s))) (\<lambda>(ip, sp).
     kbind (bread (idev ip) (IBLOCK (inum ip) sp)) (\<lambda>bp.
     kthen (set_data bp (put_dinode ip))
     (kthen (log_write bp)
      (brelse bp))))"

definition idup :: "nat \<Rightarrow> (nat, 'z icache_scheme) km" where
  "idup k =
     kthen (acquire LkIcache)
     (kthen (kmod (upd_inode k (\<lambda>ip. ip\<lparr>iref := iref ip + 1\<rparr>)))
     (kthen (release LkIcache) (ret k)))"

definition ilock :: "nat \<Rightarrow> (unit, 'z icache_scheme) km" where
  "ilock k =
     kbind (kget (\<lambda>s. iref (getinode k s))) (\<lambda>r.
     if r < 1 then panic ''ilock''
     else
       kthen (acquiresleep (SlInode k))
       (kbind (kget (\<lambda>s. (getinode k s, sb s))) (\<lambda>(ip, sp).
        if ivalid ip then ret ()
        else
          kbind (bread (idev ip) (IBLOCK (inum ip) sp)) (\<lambda>bp.
          kbind (kget (\<lambda>s. bdata (getbuf bp s))) (\<lambda>d.
          kthen (kmod (upd_inode k (load_dinode d)))
          (kthen (brelse bp)
          (kthen (kmod (upd_inode k (\<lambda>ip. ip\<lparr>ivalid := True\<rparr>)))
          (kbind (kget (\<lambda>s. itype (getinode k s))) (\<lambda>ty.
           if ty = 0 then panic ''ilock: no type'' else ret ())))))))))"

definition iunlock :: "nat \<Rightarrow> (unit, 'z icache_scheme) km" where
  "iunlock k =
     kbind (holdingsleep (SlInode k)) (\<lambda>h.
     kbind (kget (\<lambda>s. iref (getinode k s))) (\<lambda>r.
     if \<not> h \<or> r < 1 then panic ''iunlock''
     else releasesleep (SlInode k)))"

section \<open>File contents\<close>

definition bmap :: "nat \<Rightarrow> u32 \<Rightarrow> (u32, 'z icache_scheme) km" where
  "bmap k bn =
     kbind (kget (\<lambda>s. getinode k s)) (\<lambda>ip.
     if bn < word_of_nat NDIRECT then
       (let addr = iaddrs ip ! unat bn in
        if addr \<noteq> 0 then ret addr
        else kbind (balloc (idev ip)) (\<lambda>addr.
             kthen (kmod (upd_inode k (\<lambda>ip. ip\<lparr>iaddrs := (iaddrs ip)[unat bn := addr]\<rparr>)))
             (ret addr)))
     else
       (let bn = bn - word_of_nat NDIRECT in
        if bn < word_of_nat NINDIRECT then
          kbind (if iaddrs ip ! NDIRECT \<noteq> 0 then ret (iaddrs ip ! NDIRECT)
                 else kbind (balloc (idev ip)) (\<lambda>addr.
                      kthen (kmod (upd_inode k (\<lambda>ip. ip\<lparr>iaddrs := (iaddrs ip)[NDIRECT := addr]\<rparr>)))
                      (ret addr))) (\<lambda>ind.
          kbind (bread (idev ip) ind) (\<lambda>bp.
          kbind (kget (\<lambda>s. get32 (bdata (getbuf bp s)) (4 * unat bn))) (\<lambda>addr.
          kbind (if addr \<noteq> 0 then ret addr
                 else kbind (balloc (idev ip)) (\<lambda>addr.
                      kthen (set_data bp (patch (4 * unat bn) (le32 addr)))
                      (kthen (log_write bp)
                       (ret addr)))) (\<lambda>addr.
          kthen (brelse bp) (ret addr)))))
        else panic ''bmap: out of range''))"

definition itrunc :: "nat \<Rightarrow> (unit, 'z icache_scheme) km" where
  "itrunc k =
     kbind (kget (\<lambda>s. idev (getinode k s))) (\<lambda>dev.
     kthen (kfor [0..<NDIRECT] (\<lambda>i.
       kbind (kget (\<lambda>s. iaddrs (getinode k s) ! i)) (\<lambda>addr.
       kwhen (addr \<noteq> 0)
         (kthen (bfree dev addr)
          (kmod (upd_inode k (\<lambda>ip. ip\<lparr>iaddrs := (iaddrs ip)[i := 0]\<rparr>)))))))
     (kthen (kbind (kget (\<lambda>s. iaddrs (getinode k s) ! NDIRECT)) (\<lambda>ind.
       kwhen (ind \<noteq> 0)
         (kbind (bread dev ind) (\<lambda>bp.
          kthen (kfor [0..<NINDIRECT] (\<lambda>j.
            kbind (kget (\<lambda>s. get32 (bdata (getbuf bp s)) (4 * j))) (\<lambda>a.
            kwhen (a \<noteq> 0) (bfree dev a))))
          (kthen (brelse bp)
          (kthen (bfree dev ind)
           (kmod (upd_inode k (\<lambda>ip. ip\<lparr>iaddrs := (iaddrs ip)[NDIRECT := 0]\<rparr>)))))))))
     (kthen (kmod (upd_inode k (\<lambda>ip. ip\<lparr>isize := 0\<rparr>)))
      (iupdate k))))"

definition iput :: "nat \<Rightarrow> (unit, 'z icache_scheme) km" where
  "iput k =
     kthen (acquire LkIcache)
     (kbind (kget (\<lambda>s. getinode k s)) (\<lambda>ip.
      kthen (kwhen (iref ip = 1 \<and> ivalid ip \<and> inlink ip = 0)
        (kthen (release LkIcache)
        (kthen (itrunc k)
        (kthen (kmod (upd_inode k (\<lambda>ip. ip\<lparr>itype := 0\<rparr>)))
        (kthen (iupdate k)
        (kthen (acquire LkIcache)
         (kmod (upd_inode k (\<lambda>ip. ip\<lparr>ivalid := False\<rparr>)))))))))
      (kthen (kmod (upd_inode k (\<lambda>ip. ip\<lparr>iref := iref ip - 1\<rparr>)))
       (release LkIcache))))"

definition iunlockput :: "nat \<Rightarrow> (unit, 'z icache_scheme) km" where
  "iunlockput k = kthen (iunlock k) (iput k)"

record stat =
  st_type :: u16
  st_dev :: u32
  st_ino :: u32
  st_nlink :: u16
  st_size :: u32

definition stati :: "nat \<Rightarrow> (stat, 'z icache_scheme) km" where
  "stati k = kget (\<lambda>s. let ip = getinode k s in
     \<lparr>st_type = itype ip, st_dev = idev ip, st_ino = inum ip, st_nlink = inlink ip, st_size = isize ip\<rparr>)"

end
