(* ===== verification/Kbd.thy ===== *)
theory Kbd
  imports Prelude
begin

text \<open>
  The keyboard (\<^verbatim>\<open>kbd.c\<close>, \<^verbatim>\<open>kbd.h\<close>): translation of scan codes to characters with the shift, control and caps lock
  state.  A byte in the controller's output buffer is \<open>Some\<close> of it, an empty buffer \<open>None\<close>.
\<close>

section \<open>Tables\<close>

text \<open>A C array initialiser of 256 entries: the leading entries, the designated ones, zero elsewhere.\<close>

definition key_table :: "u8 list \<Rightarrow> (nat \<times> u8) list \<Rightarrow> nat \<Rightarrow> u8" where
  "key_table xs ds i = (case map_of ds i of Some v \<Rightarrow> v | None \<Rightarrow> if i < length xs then xs ! i else 0)"

definition shiftcode :: "nat \<Rightarrow> u8" where
  "shiftcode = key_table
    []
    [(0x1D, 0x2), (0x2A, 0x1), (0x36, 0x1), (0x38, 0x4), (0x9D, 0x2), (0xB8, 0x4)]"

definition togglecode :: "nat \<Rightarrow> u8" where
  "togglecode = key_table
    []
    [(0x3A, 0x8), (0x45, 0x10), (0x46, 0x20)]"

definition normalmap :: "nat \<Rightarrow> u8" where
  "normalmap = key_table
    [0, 27, 49, 50, 51, 52, 53, 54, 55, 56, 57, 48, 45, 61, 8, 9,
     113, 119, 101, 114, 116, 121, 117, 105, 111, 112, 91, 93, 10, 0, 97, 115,
     100, 102, 103, 104, 106, 107, 108, 59, 39, 96, 0, 92, 122, 120, 99, 118,
     98, 110, 109, 44, 46, 47, 0, 42, 0, 32, 0, 0, 0, 0, 0, 0,
     0, 0, 0, 0, 0, 0, 0, 55, 56, 57, 45, 52, 53, 54, 43, 49,
     50, 51, 48, 46, 0, 0, 0, 0]
    [(0x9C, 0xA), (0xB5, 0x2F), (0xC8, 0xE2), (0xD0, 0xE3), (0xC9, 0xE6), (0xD1, 0xE7), (0xCB, 0xE4), (0xCD, 0xE5), (0x97, 0xE0), (0xCF, 0xE1), (0xD2, 0xE8), (0xD3, 0xE9)]"

definition shiftmap :: "nat \<Rightarrow> u8" where
  "shiftmap = key_table
    [0, 27, 33, 64, 35, 36, 37, 94, 38, 42, 40, 41, 95, 43, 8, 9,
     81, 87, 69, 82, 84, 89, 85, 73, 79, 80, 123, 125, 10, 0, 65, 83,
     68, 70, 71, 72, 74, 75, 76, 58, 34, 126, 0, 124, 90, 88, 67, 86,
     66, 78, 77, 60, 62, 63, 0, 42, 0, 32, 0, 0, 0, 0, 0, 0,
     0, 0, 0, 0, 0, 0, 0, 55, 56, 57, 45, 52, 53, 54, 43, 49,
     50, 51, 48, 46, 0, 0, 0, 0]
    [(0x9C, 0xA), (0xB5, 0x2F), (0xC8, 0xE2), (0xD0, 0xE3), (0xC9, 0xE6), (0xD1, 0xE7), (0xCB, 0xE4), (0xCD, 0xE5), (0x97, 0xE0), (0xCF, 0xE1), (0xD2, 0xE8), (0xD3, 0xE9)]"

definition ctlmap :: "nat \<Rightarrow> u8" where
  "ctlmap = key_table
    [0, 0, 0, 0, 0, 0, 0, 0, 0, 0, 0, 0, 0, 0, 0, 0,
     17, 23, 5, 18, 20, 25, 21, 9, 15, 16, 0, 0, 13, 0, 1, 19,
     4, 6, 7, 8, 10, 11, 12, 0, 0, 0, 0, 28, 26, 24, 3, 22,
     2, 14, 13, 0, 0, 239, 0, 0]
    [(0x9C, 0xD), (0xB5, 0xEF), (0xC8, 0xE2), (0xD0, 0xE3), (0xC9, 0xE6), (0xD1, 0xE7), (0xCB, 0xE4), (0xCD, 0xE5), (0x97, 0xE0), (0xCF, 0xE1), (0xD2, 0xE8), (0xD3, 0xE9)]"

definition SHIFT :: u32 where "SHIFT = 1"
definition CTL :: u32 where "CTL = 2"
definition CAPSLOCK :: u32 where "CAPSLOCK = 8"
definition E0ESC :: u32 where "E0ESC = 64"

section \<open>Translation\<close>

definition charcode :: "u32 \<Rightarrow> nat \<Rightarrow> u8" where
  "charcode i = (if i = 0 then normalmap else if i = 1 then shiftmap else ctlmap)"

text \<open>\<open>kbdgetc\<close> on the value of the static variable \<^verbatim>\<open>shift\<close>: its new value and the result.\<close>

definition kbd_press :: "u32 \<Rightarrow> u32 \<Rightarrow> u32 \<times> int" where
  "kbd_press shift data =
     (let shift = shift OR ucast (shiftcode (unat data));
          shift = shift XOR ucast (togglecode (unat data));
          c = (ucast (charcode (shift AND (CTL OR SHIFT)) (unat data)) :: u32);
          c = (if shift AND CAPSLOCK \<noteq> 0
               then if 97 \<le> c \<and> c \<le> 122 then c - 32
                    else if 65 \<le> c \<and> c \<le> 90 then c + 32 else c
               else c)
      in (shift, uint c))"

definition kbdgetc :: "u32 \<Rightarrow> u8 option \<Rightarrow> u32 \<times> int" where
  "kbdgetc shift port =
     (case port of
        None \<Rightarrow> (shift, - 1)
      | Some b \<Rightarrow>
          let data = (ucast b :: u32) in
          if data = 0xE0 then (shift OR E0ESC, 0)
          else if data AND 0x80 \<noteq> 0 then
            (let data = (if shift AND E0ESC \<noteq> 0 then data else data AND 0x7F)
             in (shift AND NOT (ucast (shiftcode (unat data)) OR E0ESC), 0))
          else if shift AND E0ESC \<noteq> 0 then kbd_press (shift AND NOT E0ESC) (data OR 0x80)
          else kbd_press shift data)"

text \<open>The characters \<^verbatim>\<open>consoleintr(kbdgetc)\<close> gets for the scan codes waiting in the controller.\<close>

fun kbd_chars :: "u32 \<Rightarrow> u8 list \<Rightarrow> u32 \<times> int list" where
  "kbd_chars shift [] = (shift, [])"
| "kbd_chars shift (b # bs) =
     (let (shift', c) = kbdgetc shift (Some b); (shift'', cs) = kbd_chars shift' bs in (shift'', c # cs))"

end
