(* ===== verification/Ring.thy ===== *)
theory Ring
  imports Prelude
begin

text \<open>
  Ring buffers with free-running 32 bit read and write counters, as the console input (\<^verbatim>\<open>console.c\<close>) and the pipes
  (\<^verbatim>\<open>pipe.c\<close>) use them: the bytes waiting in the buffer, and what storing, fetching and taking back a byte does to them,
  also across the wrap-around of the counters.
\<close>

definition ring_bytes :: "nat \<Rightarrow> u8 list \<Rightarrow> u32 \<Rightarrow> u32 \<Rightarrow> u8 list" where
  "ring_bytes N buf r w = map (\<lambda>i. buf ! ((unat r + i) mod N)) [0..<unat (w - r)]"

lemma upt_split: "[0..<a + b] = [0..<a] @ map (\<lambda>i. a + i) [0..<b]"
  by (rule nth_equalityI) (auto simp: nth_append)

locale ring_buffer =
  fixes N :: nat
  assumes N_pos: "0 < N" and N_small: "N < 2 ^ 32" and N_dvd: "N dvd 2 ^ 32"
begin

lemma length_waiting [simp]: "length (ring_bytes N buf r w) = unat (w - r)"
  by (simp add: ring_bytes_def)

lemma waiting_empty: "ring_bytes N buf r w = [] \<longleftrightarrow> r = w"
  by (auto simp: ring_bytes_def unat_eq_0)

lemma index_add: "unat (r + word_of_nat i) mod N = (unat r + i) mod N" for r :: u32
proof -
  have "unat (r + word_of_nat i) = (unat r + i) mod 2 ^ 32"
    by (simp add: unat_word_ariths unat_of_nat take_bit_eq_mod mod_simps)
  then show ?thesis using N_dvd by (simp add: mod_mod_cancel)
qed

lemma index_end: "unat w mod N = (unat r + unat (w - r)) mod N" for w r :: u32
  using index_add[of r "unat (w - r)"] by simp

lemma index_distinct:
  assumes "i < k" and "k \<le> i + (N - 1)"
  shows "(a + i) mod N \<noteq> (a + k) mod N"
proof
  assume "(a + i) mod N = (a + k) mod N"
  then have "N dvd (k - i)" using assms(1) mod_eq_dvd_iff_nat[of "a + i" "a + k" N] by (simp add: eq_commute)
  then show False using assms N_pos by (auto dest: dvd_imp_le)
qed

lemma count_put: "unat (w - r) < N \<Longrightarrow> unat (w + 1 - r) = Suc (unat (w - r))" for w r :: u32
proof -
  assume "unat (w - r) < N"
  then have "unat (w - r) + 1 < 2 ^ 32" using N_small by linarith
  then have "unat (w - r + 1) = unat (w - r) + 1" by (simp add: unat_word_ariths)
  then show ?thesis by (simp add: algebra_simps)
qed

lemma count_take: "r \<noteq> w \<Longrightarrow> unat (w - r) = Suc (unat (w - (r + 1)))" for w r :: u32
proof -
  assume "r \<noteq> w"
  then have "w - r \<noteq> 0" by simp
  then have "unat (w - r - 1) = unat (w - r) - 1" "0 < unat (w - r)" by (simp_all add: unat_gt_0 unat_minus_one)
  then show ?thesis by (simp add: diff_diff_eq)
qed

lemma waiting_put:
  assumes "unat (w - r) < N" and "length buf = N"
  shows "ring_bytes N (buf[unat w mod N := b]) r (w + 1) = ring_bytes N buf r w @ [b]"
proof (rule nth_equalityI)
  fix i assume "i < length (ring_bytes N (buf[unat w mod N := b]) r (w + 1))"
  then have i: "i < Suc (unat (w - r))" using count_put[OF assms(1)] by simp
  show "ring_bytes N (buf[unat w mod N := b]) r (w + 1) ! i = (ring_bytes N buf r w @ [b]) ! i"
  proof (cases "i = unat (w - r)")
    case True
    then show ?thesis using i count_put[OF assms(1)] N_pos assms(2) index_end[of w r]
      by (simp add: ring_bytes_def nth_append del: upt_Suc)
  next
    case False
    then have "i < unat (w - r)" using i by simp
    then have "(unat r + i) mod N \<noteq> unat w mod N"
      using index_distinct[of i "unat (w - r)" "unat r"] assms(1) index_end[of w r] by simp
    then show ?thesis using False i count_put[OF assms(1)]
      by (simp add: ring_bytes_def nth_append del: upt_Suc)
  qed
qed (simp add: count_put[OF assms(1)])

lemma waiting_get:
  assumes "r \<noteq> w"
  shows "ring_bytes N buf r w = buf ! (unat r mod N) # ring_bytes N buf (r + 1) w"
proof -
  have "ring_bytes N buf r w = buf ! (unat r mod N) # map (\<lambda>i. buf ! ((unat r + Suc i) mod N)) [0..<unat (w - (r + 1))]"
    unfolding ring_bytes_def count_take[OF assms] by (simp add: map_upt_Suc del: upt_Suc)
  moreover have "(unat r + Suc i) mod N = (unat (r + 1) + i) mod N" for i
    using index_add[of r 1] by (metis Suc_eq_plus1_left add.assoc mod_add_left_eq of_nat_1)
  ultimately show ?thesis by (simp add: ring_bytes_def)
qed

lemma waiting_unput:
  assumes "r \<noteq> w"
  shows "ring_bytes N buf r w = ring_bytes N buf r (w - 1) @ [buf ! (unat (w - 1) mod N)]"
proof -
  have "unat (w - r) = Suc (unat (w - 1 - r))" using count_take[OF assms] by (simp add: algebra_simps)
  then show ?thesis unfolding ring_bytes_def using index_end[of "w - 1" r] by simp
qed

lemma span_add: "unat (w - r) + unat (e - w) \<le> N \<Longrightarrow> unat (e - r) = unat (w - r) + unat (e - w)" for e w r :: u32
proof -
  assume a: "unat (w - r) + unat (e - w) \<le> N"
  have "e - r = (w - r) + (e - w)" by simp
  moreover have "unat (w - r) + unat (e - w) < 2 ^ 32" using a N_small by linarith
  ultimately show ?thesis by (simp only: unat_word_ariths) simp
qed

lemma waiting_append:
  assumes "unat (w - r) + unat (e - w) \<le> N"
  shows "ring_bytes N buf r e = ring_bytes N buf r w @ ring_bytes N buf w e"
proof -
  have "map (\<lambda>i. buf ! ((unat r + (unat (w - r) + i)) mod N)) [0..<unat (e - w)] = ring_bytes N buf w e"
  proof -
    have "(unat r + (unat (w - r) + i)) mod N = (unat w + i) mod N" for i
      using index_end[of w r] by (metis add.assoc mod_add_left_eq)
    then show ?thesis by (simp add: ring_bytes_def)
  qed
  moreover note upt_split[of "unat (w - r)" "unat (e - w)"]
  ultimately show ?thesis unfolding ring_bytes_def[of N buf r e] span_add[OF assms]
    by (simp add: ring_bytes_def o_def)
qed

end

end
