(* ===== verification/Console_In.thy ===== *)
theory Console_In
  imports Inode Kbd Ring
begin

text \<open>
  Console input and the console device (\<^verbatim>\<open>console.c\<close>, with the interrupt handlers of \<^verbatim>\<open>kbd.c\<close> and \<^verbatim>\<open>uart.c\<close>): the line
  editor that interrupts feed, the blocking read of completed lines, and writing.  \<open>input_r\<close>, \<open>input_w\<close>, \<open>input_e\<close> are
  the free-running 32 bit indices of \<^verbatim>\<open>input\<close>.  \<open>devsw\<close> is the device switch; its function pointers are the values of
  \<open>devfn\<close>.  The bytes a read stores at its destination are part of its result.  A read that has to wait ends with
  \<open>Switched\<close>.
\<close>

section \<open>State\<close>

datatype devfn = Fn_consoleread | Fn_consolewrite

definition INPUT_BUF :: nat where "INPUT_BUF = 128"
definition NDEV :: nat where "NDEV = 10"
definition CONSOLE :: nat where "CONSOLE = 1"

record devs = icache +
  input_buf :: "u8 list"
  input_r :: u32
  input_w :: u32
  input_e :: u32
  dev_read :: "nat \<Rightarrow> devfn option"
  dev_write :: "nat \<Rightarrow> devfn option"
  kbd_shift :: u32

definition ix :: "u32 \<Rightarrow> nat" where
  "ix a = unat a mod INPUT_BUF"

text \<open>\<^verbatim>\<open>sleep\<close> in a loop whose head the process is at when it resumes: nothing after it is executed now.\<close>

definition wait_on :: "chan \<Rightarrow> lockid \<Rightarrow> ('a, 'z ptable_scheme) km" where
  "wait_on c lk = kthen (sleep c lk) (\<lambda>s. Switched s)"

section \<open>Interrupts\<close>

text \<open>The loop of \<^verbatim>\<open>C('U')\<close>; it runs at most \<^verbatim>\<open>input.e - input.w\<close> times.\<close>

fun kill_line :: "nat \<Rightarrow> (unit, 'z devs_scheme) km" where
  "kill_line 0 = ret ()"
| "kill_line (Suc n) =
     kbind (kget (\<lambda>s. input_e s \<noteq> input_w s \<and> input_buf s ! ix (input_e s - 1) \<noteq> 10)) (\<lambda>more.
     kwhen more
       (kthen (kmod (\<lambda>s. s\<lparr>input_e := input_e s - 1\<rparr>))
       (kthen (consputc BACKSPACE)
        (kill_line n))))"

definition cons_char :: "int \<Rightarrow> (bool, 'z devs_scheme) km" where
  "cons_char c =
     (if c = 16 then ret True
      else if c = 21 then
        kbind (kget (\<lambda>s. unat (input_e s - input_w s))) (\<lambda>n.
        kthen (kill_line n) (ret False))
      else if c = 8 \<or> c = 127 then
        kbind (kget (\<lambda>s. input_e s \<noteq> input_w s)) (\<lambda>more.
        kthen (kwhen more
          (kthen (kmod (\<lambda>s. s\<lparr>input_e := input_e s - 1\<rparr>))
           (consputc BACKSPACE)))
        (ret False))
      else
        kbind (kget (\<lambda>s. input_e s - input_r s < word_of_nat INPUT_BUF)) (\<lambda>room.
        kthen (kwhen (c \<noteq> 0 \<and> room)
          (let c = (if c = 13 then 10 else c) in
           kthen (kmod (\<lambda>s. s\<lparr>input_buf := (input_buf s)[ix (input_e s) := word_of_int c], input_e := input_e s + 1\<rparr>))
           (kthen (consputc c)
           (kbind (kget (\<lambda>s. input_e s = input_r s + word_of_nat INPUT_BUF)) (\<lambda>full.
            kwhen (c = 10 \<or> c = 4 \<or> full)
              (kthen (kmod (\<lambda>s. s\<lparr>input_w := input_e s\<rparr>))
               (wakeup ChInput)))))))
        (ret False)))"

fun cons_chars :: "int list \<Rightarrow> bool \<Rightarrow> (bool, 'z devs_scheme) km" where
  "cons_chars [] dump = ret dump"
| "cons_chars (c # cs) dump = kbind (cons_char c) (\<lambda>d. cons_chars cs (dump \<or> d))"

text \<open>\<^verbatim>\<open>consoleintr(getc)\<close>, given the characters that \<^verbatim>\<open>getc\<close> returns before it returns -1.\<close>

definition consoleintr :: "int list \<Rightarrow> (unit, 'z devs_scheme) km" where
  "consoleintr cs =
     kthen (acquire LkCons)
     (kbind (cons_chars cs False) (\<lambda>dump.
      kthen (release LkCons)
      (kwhen dump procdump)))"

definition kbdintr :: "u8 list \<Rightarrow> (unit, 'z devs_scheme) km" where
  "kbdintr codes =
     kbind (kget (\<lambda>s. kbd_chars (kbd_shift s) codes)) (\<lambda>(shift, cs).
     kthen (kmod (\<lambda>s. s\<lparr>kbd_shift := shift\<rparr>)) (consoleintr cs))"

text \<open>\<^verbatim>\<open>uartintr\<close>, given the bytes the serial port has received.\<close>

definition uartintr :: "u8 list \<Rightarrow> (unit, 'z devs_scheme) km" where
  "uartintr bs = kbind (kget uart) (\<lambda>u. consoleintr (if u then map uint bs else []))"

section \<open>Device operations\<close>

text \<open>The loop of \<^verbatim>\<open>consoleread\<close>: whether it was left because the process was killed, the number of bytes still wanted
  then, and the bytes stored.\<close>

fun consoleread_loop :: "nat \<Rightarrow> nat \<Rightarrow> u8 list \<Rightarrow> (bool \<times> nat \<times> u8 list, 'z devs_scheme) km" where
  "consoleread_loop 0 target dst = ret (False, 0, dst)"
| "consoleread_loop (Suc n) target dst =
     kbind (kget (\<lambda>s. input_r s = input_w s)) (\<lambda>empty.
     if empty then
       with_proc (\<lambda>p.
       kbind (kget (\<lambda>s. killed (procs s ! p))) (\<lambda>k.
       if k then ret (True, Suc n, dst) else wait_on ChInput LkCons))
     else
       kbind (kget (\<lambda>s. input_buf s ! ix (input_r s))) (\<lambda>c.
       kthen (kmod (\<lambda>s. s\<lparr>input_r := input_r s + 1\<rparr>))
       (if c = 4 then
          kthen (kwhen (Suc n < target) (kmod (\<lambda>s. s\<lparr>input_r := input_r s - 1\<rparr>)))
          (ret (False, Suc n, dst))
        else if c = 10 then ret (False, n, dst @ [c])
        else consoleread_loop n target (dst @ [c]))))"

definition consoleread :: "nat \<Rightarrow> int \<Rightarrow> (int \<times> u8 list, 'z devs_scheme) km" where
  "consoleread k n =
     kthen (iunlock k)
     (kthen (acquire LkCons)
     (kbind (consoleread_loop (nat n) (nat n) []) (\<lambda>(dead, left, dst).
      kthen (release LkCons)
      (kthen (ilock k)
       (ret (if dead then - 1 else int (nat n - left), dst))))))"

definition consolewrite :: "nat \<Rightarrow> u8 list \<Rightarrow> (int, 'z devs_scheme) km" where
  "consolewrite k buf =
     kthen (iunlock k)
     (kthen (acquire LkCons)
     (kthen (kfor buf (\<lambda>b. consputc (uint b)))
     (kthen (release LkCons)
     (kthen (ilock k)
      (ret (int (length buf)))))))"

definition consoleinit :: "(unit, 'z devs_scheme) km" where
  "consoleinit =
     kthen (initlock LkCons ''console'')
     (kmod (\<lambda>s. s\<lparr>dev_write := (dev_write s)(CONSOLE := Some Fn_consolewrite),
                  dev_read := (dev_read s)(CONSOLE := Some Fn_consoleread), cons_locking := True\<rparr>))"

section \<open>The line editor\<close>

interpretation con: ring_buffer INPUT_BUF
  by unfold_locales (simp_all add: INPUT_BUF_def)

text \<open>What the console holds: the bytes of completed lines that wait for a reader, and the line being edited.\<close>

definition in_lines :: "'z devs_scheme \<Rightarrow> u8 list" where
  "in_lines s = ring_bytes INPUT_BUF (input_buf s) (input_r s) (input_w s)"

definition in_edit :: "'z devs_scheme \<Rightarrow> u8 list" where
  "in_edit s = ring_bytes INPUT_BUF (input_buf s) (input_w s) (input_e s)"

definition input_ok :: "'z devs_scheme \<Rightarrow> bool" where
  "input_ok s \<longleftrightarrow> length (input_buf s) = INPUT_BUF \<and>
     unat (input_w s - input_r s) + unat (input_e s - input_w s) \<le> INPUT_BUF \<and> 10 \<notin> set (in_edit s)"

text \<open>The effect of one character on (completed lines, edited line).\<close>

definition edit_char :: "int \<Rightarrow> u8 list \<times> u8 list \<Rightarrow> u8 list \<times> u8 list" where
  "edit_char c = (\<lambda>(ls, ed).
     if c = 16 then (ls, ed)
     else if c = 21 then (ls, [])
     else if c = 8 \<or> c = 127 then (ls, butlast ed)
     else if c = 0 \<or> length ls + length ed \<ge> INPUT_BUF then (ls, ed)
     else
       let c' = (if c = 13 then 10 else c); ed' = ed @ [word_of_int c'] in
       if c' = 10 \<or> c' = 4 \<or> length ls + length ed' = INPUT_BUF then (ls @ ed', []) else (ls, ed'))"

text \<open>The abstraction of a state, and what a step of the editor keeps besides it.\<close>

definition in_abs :: "'z devs_scheme \<Rightarrow> u8 list \<times> u8 list" where
  "in_abs s = (in_lines s, in_edit s)"

definition same_cpu :: "'z conout_scheme \<Rightarrow> 'z conout_scheme \<Rightarrow> bool" where
  "same_cpu s t \<longleftrightarrow> con_ok t t \<and> locks t = locks s \<and> cpus t = cpus s \<and> mycpu t = mycpu s"

lemma more_devs:
  fixes s t :: "'z devs_scheme"
  assumes "conout.more t = conout.more s"
  shows "input_buf t = input_buf s" "input_r t = input_r s" "input_w t = input_w s" "input_e t = input_e s"
    "procs t = procs s"
  using assms by (cases s; cases t; simp)+

lemma input_fields:
  fixes s t :: "'z devs_scheme"
  assumes "input_buf t = input_buf s" "input_r t = input_r s" "input_w t = input_w s" "input_e t = input_e s"
  shows "in_lines t = in_lines s" "in_edit t = in_edit s" "input_ok t = input_ok s" "in_abs t = in_abs s"
  using assms by (simp_all add: in_lines_def in_edit_def input_ok_def in_abs_def)

lemma consputc_same:
  fixes s u :: "'z devs_scheme"
  assumes "same_cpu u s"
  shows "runs (consputc c) s (\<lambda>_ t. same_cpu u t \<and> input_buf t = input_buf s \<and> input_r t = input_r s \<and>
    input_w t = input_w s \<and> input_e t = input_e s)"
proof -
  have "runs (consputc c) s (\<lambda>_. con_ok s)" using outputs_consputc assms by (auto simp: outputs_def same_cpu_def)
  then show ?thesis
    by (rule runs_mono) (use assms in \<open>auto simp: same_cpu_def con_ok_def dest: more_devs\<close>)
qed

lemma wakeup_same:
  fixes s u :: "'z devs_scheme"
  assumes "same_cpu u s" and "lk_free LkPtable u" and "cpu_stable (this_cpu u)"
  shows "runs (wakeup c) s (\<lambda>_ t. same_cpu u t \<and> input_buf t = input_buf s \<and> input_r t = input_r s \<and>
    input_w t = input_w s \<and> input_e t = input_e s)"
proof -
  have "lk_free LkPtable s" "cpu_stable (this_cpu s)" using assms by (simp_all add: same_cpu_def lk_free_def)
  from wakeup_eq[OF this, of c] assms(1) show ?thesis by (simp add: same_cpu_def con_ok_def cursor_ok_def)
qed

lemma ix_mod: "ix a = unat a mod INPUT_BUF"
  by (simp add: ix_def)

lemma kill_line_same:
  fixes s u :: "'z devs_scheme"
  shows "same_cpu u s \<Longrightarrow> n = unat (input_e s - input_w s) \<Longrightarrow> 10 \<notin> set (in_edit s) \<Longrightarrow>
    runs (kill_line n) s (\<lambda>_ t. same_cpu u t \<and> input_buf t = input_buf s \<and> input_r t = input_r s \<and>
      input_w t = input_w s \<and> input_e t = input_w s)"
proof (induction n arbitrary: s)
  case 0
  then have "input_e s = input_w s" by (simp add: unat_eq_0)
  then show ?case using 0 by simp
next
  case (Suc n)
  let ?s = "s\<lparr>input_e := input_e s - 1\<rparr>"
  have ne: "input_w s \<noteq> input_e s" using Suc.prems(2) by auto
  note un = con.waiting_unput[OF ne, of "input_buf s"]
  have "input_buf s ! ix (input_e s - 1) \<in> set (in_edit s)" using un by (simp add: in_edit_def ix_mod)
  then have more: "input_buf s ! ix (input_e s - 1) \<noteq> 10" using Suc.prems(3) by auto
  have ed: "10 \<notin> set (in_edit ?s)" using un Suc.prems(3) by (simp add: in_edit_def)
  have n: "n = unat (input_e s - 1 - input_w s)" using con.count_take[OF ne] Suc.prems(2) by (simp add: algebra_simps)
  have "same_cpu u ?s" using Suc.prems(1) by (simp add: same_cpu_def con_ok_def cursor_ok_def)
  from consputc_same[OF this, of BACKSPACE] show ?case
    using ne more
  proof (simp add: runs_simps, elim runs_mono)
    fix t :: "'z devs_scheme"
    assume t: "same_cpu u t \<and> input_buf t = input_buf s \<and> input_r t = input_r s \<and> input_w t = input_w s \<and> input_e t = input_e s - 1"
    then have "in_edit t = in_edit ?s" by (simp add: in_edit_def)
    from Suc.IH[of t] show "runs (kill_line n) t (\<lambda>_ t. same_cpu u t \<and> input_buf t = input_buf s \<and>
        input_r t = input_r s \<and> input_w t = input_w s \<and> input_e t = input_w s)"
      using t n ed \<open>in_edit t = in_edit ?s\<close> by simp
  qed
qed

lemma ring_full: "e = r + word_of_nat INPUT_BUF \<longleftrightarrow> unat (e - r) = INPUT_BUF" for e r :: u32
proof -
  have "e = r + word_of_nat INPUT_BUF \<longleftrightarrow> e - r = word_of_nat INPUT_BUF" by (simp add: diff_eq_eq add.commute)
  also have "\<dots> \<longleftrightarrow> unat (e - r) = INPUT_BUF" by (simp add: word_unat_eq_iff INPUT_BUF_def)
  finally show ?thesis .
qed

lemma input_room:
  assumes "input_ok s"
  shows "unat (input_e s - input_r s) = length (in_lines s) + length (in_edit s)"
    "input_e s - input_r s < word_of_nat INPUT_BUF \<longleftrightarrow> length (in_lines s) + length (in_edit s) < INPUT_BUF"
    "input_e s = input_r s + word_of_nat INPUT_BUF \<longleftrightarrow> length (in_lines s) + length (in_edit s) = INPUT_BUF"
proof -
  show a: "unat (input_e s - input_r s) = length (in_lines s) + length (in_edit s)"
    using assms con.span_add[of "input_w s" "input_r s" "input_e s"] by (simp add: input_ok_def in_lines_def in_edit_def)
  show "input_e s - input_r s < word_of_nat INPUT_BUF \<longleftrightarrow> length (in_lines s) + length (in_edit s) < INPUT_BUF"
    using a by (simp add: word_less_nat_alt INPUT_BUF_def)
  show "input_e s = input_r s + word_of_nat INPUT_BUF \<longleftrightarrow> length (in_lines s) + length (in_edit s) = INPUT_BUF"
    using a ring_full by simp
qed

lemma store_char:
  assumes "input_ok s" and "length (in_lines s) + length (in_edit s) < INPUT_BUF"
    and "t = s\<lparr>input_buf := (input_buf s)[ix (input_e s) := b], input_e := input_e s + 1\<rparr>"
  shows "in_lines t = in_lines s" "in_edit t = in_edit s @ [b]" "length (input_buf t) = INPUT_BUF"
    "unat (input_w t - input_r t) + unat (input_e t - input_w t) \<le> INPUT_BUF"
proof -
  let ?b = "(input_buf s)[unat (input_e s) mod INPUT_BUF := b]"
  have l: "length (input_buf s) = INPUT_BUF" using assms(1) by (simp add: input_ok_def)
  have sz: "unat (input_w s - input_r s) + unat (input_e s - input_w s) < INPUT_BUF"
    using assms(2) by (simp add: in_lines_def in_edit_def)
  have ew: "unat (input_e s - input_w s) < INPUT_BUF" "unat (input_e s - input_r s) < INPUT_BUF"
    using sz input_room(1)[OF assms(1)] by (simp_all add: in_lines_def in_edit_def)
  show ed: "in_edit t = in_edit s @ [b]"
    using con.waiting_put[OF ew(1) l, of b] assms(3) by (simp add: in_edit_def ix_mod)
  show sz': "unat (input_w t - input_r t) + unat (input_e t - input_w t) \<le> INPUT_BUF"
    using con.count_put[OF ew(1)] sz assms(3) by simp
  have "ring_bytes INPUT_BUF ?b (input_r s) (input_e s + 1) = ring_bytes INPUT_BUF (input_buf s) (input_r s) (input_e s) @ [b]"
    using con.waiting_put[OF ew(2) l, of b] .
  moreover have "ring_bytes INPUT_BUF ?b (input_r s) (input_e s + 1) = in_lines t @ in_edit t"
    using con.waiting_append[of "input_w s" "input_r s" "input_e s + 1" ?b] sz' assms(3)
    by (simp add: in_lines_def in_edit_def ix_mod)
  moreover have "ring_bytes INPUT_BUF (input_buf s) (input_r s) (input_e s) = in_lines s @ in_edit s"
    using con.waiting_append[of "input_w s" "input_r s" "input_e s" "input_buf s"] sz by (simp add: in_lines_def in_edit_def)
  ultimately show "in_lines t = in_lines s" using ed by simp
  show "length (input_buf t) = INPUT_BUF" using l assms(3) by simp
qed

lemma commit_line:
  assumes "unat (input_w s - input_r s) + unat (input_e s - input_w s) \<le> INPUT_BUF"
    and "t = s\<lparr>input_w := input_e s\<rparr>"
  shows "in_lines t = in_lines s @ in_edit s" "in_edit t = []" "unat (input_w t - input_r t) \<le> INPUT_BUF"
  using con.waiting_append[OF assms(1)] con.span_add[OF assms(1)] assms
  by (simp_all add: in_lines_def in_edit_def con.waiting_empty)

lemma runs_cons_kill:
  fixes s u :: "'z devs_scheme"
  assumes "same_cpu u s" and "input_ok s"
  shows "runs (cons_char 21) s (\<lambda>d t. same_cpu u t \<and> input_ok t \<and> in_abs t = (in_lines s, []) \<and> \<not> d)"
proof -
  have "10 \<notin> set (in_edit s)" using assms(2) by (simp add: input_ok_def)
  from kill_line_same[OF assms(1) refl this] show ?thesis
    unfolding cons_char_def by (simp add: runs_simps, elim runs_mono)
      (use assms(2) in \<open>auto simp: input_ok_def in_abs_def in_lines_def in_edit_def ring_bytes_def\<close>)
qed

lemma runs_cons_backspace:
  fixes s u :: "'z devs_scheme"
  assumes "same_cpu u s" and "input_ok s" and "c = 8 \<or> c = 127"
  shows "runs (cons_char c) s (\<lambda>d t. same_cpu u t \<and> input_ok t \<and> in_abs t = (in_lines s, butlast (in_edit s)) \<and> \<not> d)"
proof (cases "input_e s = input_w s")
  case True
  then show ?thesis using assms by (auto simp: cons_char_def runs_simps in_abs_def in_edit_def ring_bytes_def)
next
  case False
  let ?s = "s\<lparr>input_e := input_e s - 1\<rparr>"
  have ne: "input_w s \<noteq> input_e s" using False by simp
  have ed: "in_edit ?s = butlast (in_edit s)" using con.waiting_unput[OF ne, of "input_buf s"] by (simp add: in_edit_def)
  have ok: "input_ok ?s"
    using assms(2) ed con.count_take[OF ne] by (auto simp: input_ok_def algebra_simps dest: in_set_butlastD)
  have "same_cpu u ?s" using assms(1) by (simp add: same_cpu_def con_ok_def cursor_ok_def)
  note sc = consputc_same[OF this, of BACKSPACE]
  have "runs (consputc BACKSPACE) ?s (\<lambda>_ t. same_cpu u t \<and> input_ok t \<and> in_abs t = in_abs ?s)"
  proof (rule runs_mono[OF sc], elim conjE)
    fix t :: "'z devs_scheme"
    assume "same_cpu u t" "input_buf t = input_buf ?s" "input_r t = input_r ?s" "input_w t = input_w ?s" "input_e t = input_e ?s"
    then show "same_cpu u t \<and> input_ok t \<and> in_abs t = in_abs ?s" using input_fields[of t ?s] ok by simp
  qed
  then show ?thesis
    using assms(3) ne ed by (auto simp: cons_char_def runs_simps in_abs_def in_lines_def elim!: runs_mono)
qed

text \<open>The tail of the default branch, after the character is stored.\<close>

lemma runs_cons_echo:
  fixes s u :: "'z devs_scheme"
  assumes "same_cpu u s" and "lk_free LkPtable u" and "cpu_stable (this_cpu u)"
    and len: "length (input_buf s) = INPUT_BUF" "unat (input_w s - input_r s) + unat (input_e s - input_w s) \<le> INPUT_BUF"
    and nl: "10 \<in> set (in_edit s) \<longrightarrow> c = 10"
  shows "runs (kthen (consputc c) (kbind (kget (\<lambda>s. input_e s = input_r s + word_of_nat INPUT_BUF)) (\<lambda>full.
            kwhen (c = 10 \<or> c = 4 \<or> full) (kthen (kmod (\<lambda>s. s\<lparr>input_w := input_e s\<rparr>)) (wakeup ChInput))))) s
     (\<lambda>_ t. same_cpu u t \<and> input_ok t \<and> in_abs t =
        (if c = 10 \<or> c = 4 \<or> length (in_lines s) + length (in_edit s) = INPUT_BUF then (in_lines s @ in_edit s, [])
         else (in_lines s, in_edit s)))" (is "runs _ _ ?Q")
  unfolding runs_kthen[of "consputc c"] runs_kbind runs_prim
proof (rule runs_mono[OF consputc_same[OF assms(1), of c]], elim conjE)
  fix t :: "'z devs_scheme"
  assume t: "same_cpu u t" "input_buf t = input_buf s" "input_r t = input_r s" "input_w t = input_w s" "input_e t = input_e s"
  have f: "in_lines t = in_lines s" "in_edit t = in_edit s" using input_fields[of t s] t by simp_all
  have full: "input_e t = input_r t + word_of_nat INPUT_BUF \<longleftrightarrow> length (in_lines s) + length (in_edit s) = INPUT_BUF"
  proof -
    have "unat (input_e s - input_r s) = length (in_lines s) + length (in_edit s)"
      using con.span_add[OF len(2)] by (simp add: in_lines_def in_edit_def)
    then show ?thesis using t ring_full by simp
  qed
  show "runs (kwhen (c = 10 \<or> c = 4 \<or> input_e t = input_r t + word_of_nat INPUT_BUF)
      (kthen (kmod (\<lambda>s. s\<lparr>input_w := input_e s\<rparr>)) (wakeup ChInput))) t ?Q"
  proof (cases "c = 10 \<or> c = 4 \<or> length (in_lines s) + length (in_edit s) = INPUT_BUF")
    case False
    then show ?thesis using t f full len nl by (simp add: input_ok_def in_abs_def)
  next
    case True
    let ?t = "t\<lparr>input_w := input_e t\<rparr>"
    have cl: "in_lines ?t = in_lines s @ in_edit s" "in_edit ?t = []" "unat (input_w ?t - input_r ?t) \<le> INPUT_BUF"
      using commit_line[of t ?t] len(2) t f by simp_all
    then have ok: "input_ok ?t" using len(1) t by (simp add: input_ok_def)
    have "same_cpu u ?t" using t(1) by (simp add: same_cpu_def con_ok_def cursor_ok_def)
    from wakeup_same[OF this assms(2,3), of ChInput] have "runs (wakeup ChInput) ?t ?Q"
    proof (rule runs_mono, elim conjE)
      fix v :: "'z devs_scheme"
      assume "same_cpu u v" "input_buf v = input_buf ?t" "input_r v = input_r ?t" "input_w v = input_w ?t" "input_e v = input_e ?t"
      then show "same_cpu u v \<and> input_ok v \<and> in_abs v = (if c = 10 \<or> c = 4 \<or> length (in_lines s) + length (in_edit s) = INPUT_BUF
          then (in_lines s @ in_edit s, []) else (in_lines s, in_edit s))"
        using input_fields[of v ?t] ok cl True by (simp add: in_abs_def)
    qed
    then show ?thesis using True full by (auto simp: runs_kthen)
  qed
qed

lemma word_char: "0 \<le> c \<Longrightarrow> c < 256 \<Longrightarrow> word_of_int c = (10 :: u8) \<longleftrightarrow> c = 10"
  by (simp add: word_uint_eq_iff unsigned_of_int take_bit_eq_mod)

lemma cons_char_refines:
  fixes s u :: "'z devs_scheme"
  assumes "same_cpu u s" and "lk_free LkPtable u" and "cpu_stable (this_cpu u)" and "input_ok s" and "0 \<le> c" and "c < 256"
  shows "runs (cons_char c) s (\<lambda>d t. same_cpu u t \<and> input_ok t \<and> in_abs t = edit_char c (in_abs s) \<and> d = (c = 16))"
proof -
  consider "c = 16" | "c = 21" | "c = 8 \<or> c = 127" | "c \<noteq> 16" "c \<noteq> 21" "c \<noteq> 8" "c \<noteq> 127" by blast
  then show ?thesis
  proof cases
    case 1
    then show ?thesis using assms by (simp add: cons_char_def edit_char_def in_abs_def)
  next
    case 2
    then show ?thesis using runs_cons_kill[OF assms(1,4)] by (auto simp: edit_char_def in_abs_def elim!: runs_mono)
  next
    case 3
    then show ?thesis using runs_cons_backspace[OF assms(1,4) 3] by (auto simp: edit_char_def in_abs_def elim!: runs_mono)
  next
    case 4
    note room = input_room(2)[OF assms(4)]
    show ?thesis
    proof (cases "c = 0 \<or> length (in_lines s) + length (in_edit s) \<ge> INPUT_BUF")
      case True
      then show ?thesis using 4 assms room by (auto simp: cons_char_def edit_char_def in_abs_def runs_simps)
    next
      case False
      define d where "d = (if c = 13 then 10 else c)"
      let ?s = "s\<lparr>input_buf := (input_buf s)[ix (input_e s) := word_of_int d], input_e := input_e s + 1\<rparr>"
      have lt: "length (in_lines s) + length (in_edit s) < INPUT_BUF" using False by simp
      note st = store_char[OF assms(4) lt refl, of "word_of_int d"]
      have nl: "10 \<in> set (in_edit ?s) \<longrightarrow> d = 10"
        using st(2) assms(4-6) word_char[of d] by (auto simp: d_def input_ok_def)
      have "same_cpu u ?s" using assms(1) by (simp add: same_cpu_def con_ok_def cursor_ok_def)
      from runs_cons_echo[OF this assms(2,3) st(3,4) nl]
      show ?thesis using 4 False room st(1,2)
        by (simp add: cons_char_def runs_simps d_def[symmetric]) (auto simp: edit_char_def in_abs_def Let_def d_def elim!: runs_mono)
    qed
  qed
qed

lemma cons_chars_refines:
  fixes s u :: "'z devs_scheme"
  assumes "lk_free LkPtable u" and "cpu_stable (this_cpu u)"
  shows "same_cpu u s \<Longrightarrow> input_ok s \<Longrightarrow> \<forall>c \<in> set cs. 0 \<le> c \<and> c < 256 \<Longrightarrow>
    runs (cons_chars cs d) s (\<lambda>_ t. same_cpu u t \<and> input_ok t \<and> in_abs t = fold edit_char cs (in_abs s))"
proof (induction cs arbitrary: s d)
  case (Cons c cs)
  from cons_char_refines[OF Cons.prems(1) assms Cons.prems(2), of c] Cons.prems(3)
  have "runs (cons_char c) s (\<lambda>d t. same_cpu u t \<and> input_ok t \<and> in_abs t = edit_char c (in_abs s) \<and> d = (c = 16))" by simp
  then show ?case unfolding cons_chars.simps runs_kbind
  proof (rule runs_mono, elim conjE)
    fix b and t :: "'z devs_scheme"
    assume t: "same_cpu u t" "input_ok t" "in_abs t = edit_char c (in_abs s)"
    have "\<forall>c\<in>set cs. 0 \<le> c \<and> c < 256" using Cons.prems(3) by simp
    from Cons.IH[OF t(1,2) this] t(3)
    show "runs (cons_chars cs (d \<or> b)) t (\<lambda>_ t. same_cpu u t \<and> input_ok t \<and> in_abs t = fold edit_char (c # cs) (in_abs s))"
      by simp
  qed
qed simp

lemma runs_kfor_con:
  assumes "\<And>x t. x \<in> set xs \<Longrightarrow> con_ok s t \<Longrightarrow> runs (body x) t (\<lambda>_. con_ok s)"
  shows "con_ok s t \<Longrightarrow> runs (kfor xs body) t (\<lambda>_. con_ok s)"
  using assms
proof (induction xs arbitrary: t)
  case (Cons x xs)
  then show ?case unfolding kfor.simps runs_kthen by (intro runs_mono[OF Cons.prems(2)[of x t]]) auto
qed simp

lemma procdump_runs:
  fixes s :: "'z ptable_scheme"
  assumes "lk_free LkCons s" and "cpu_stable (this_cpu s)" and "con_ok s s"
  shows "runs procdump s (\<lambda>_. con_ok s)"
proof -
  have m: "args_match (bytes ''%d %s %s'') [AInt a, AStr b, AStr c]" "args_match (bytes '' %p'') [AInt a]"
    "args_match (bytes ''\<newline>'') []" for a b c
    by (simp_all add: bytes_def)
  note step = cprintf_outputs[OF _ assms(1,2)]
  have "runs (kfor ps (\<lambda>q.
       if state q = UNUSED then ret ()
       else
         kthen (cprintf ''%d %s %s'' [AInt (word_of_int (pid q)), AStr (Some (bytes (state_name (state q)))),
                                    AStr (Some (pname q))])
         (kthen (kwhen (state q = SLEEPING)
            (kbind (kget mem) (\<lambda>m.
             let pc = getcallerpcs m (load32 m (pcontext q + CONTEXT_EBP) + 8) in
             kfor (takeWhile (\<lambda>a. a \<noteq> 0) pc) (\<lambda>a. cprintf '' %p'' [AInt a]))))
          (cprintf ''\<newline>'' [])))) s (\<lambda>_. con_ok s)" for ps
  proof (rule runs_kfor_con[OF _ assms(3)], goal_cases)
    case (1 q t)
    have body: "runs (kthen (kwhen (state q = SLEEPING)
            (kbind (kget mem) (\<lambda>m.
             let pc = getcallerpcs m (load32 m (pcontext q + CONTEXT_EBP) + 8) in
             kfor (takeWhile (\<lambda>a. a \<noteq> 0) pc) (\<lambda>a. cprintf '' %p'' [AInt a]))))
          (cprintf ''\<newline>'' [])) v (\<lambda>_. con_ok s)" if v: "con_ok s v" for v :: "'z ptable_scheme"
    proof -
      have "runs (kwhen (state q = SLEEPING) (kbind (kget mem) (\<lambda>m.
             let pc = getcallerpcs m (load32 m (pcontext q + CONTEXT_EBP) + 8) in
             kfor (takeWhile (\<lambda>a. a \<noteq> 0) pc) (\<lambda>a. cprintf '' %p'' [AInt a])))) v (\<lambda>_. con_ok s)"
        using runs_kfor_con[OF step[OF m(2)] v] v by (auto simp: kwhen_def runs_kbind Let_def)
      then show ?thesis unfolding runs_kthen by (rule runs_mono) (rule step[OF m(3)])
    qed
    show ?case
    proof (cases "state q = UNUSED")
      case False
      then show ?thesis unfolding if_not_P[OF False] runs_kthen[of "cprintf ''%d %s %s'' _"]
        by (intro runs_mono[OF step[OF m(1) 1(2)]]) (rule body)
    qed (use 1 in simp)
  qed
  then show ?thesis by (simp add: procdump_def runs_kbind)
qed

lemma consoleintr_runs:
  fixes s :: "'z devs_scheme"
  assumes "input_ok s" and "\<forall>c \<in> set cs. 0 \<le> c \<and> c < 256" and "lk_free LkCons s" and "lk_free LkPtable s"
    and "cpu_stable (this_cpu s)" and "con_ok s s"
  shows "runs (consoleintr cs) s (\<lambda>_ t. same_cpu s t \<and> input_ok t \<and> in_abs t = fold edit_char cs (in_abs s))"
proof -
  let ?a = "lk_take LkCons s"
  have "same_cpu ?a ?a" "input_ok ?a" "lk_free LkPtable ?a" "cpu_stable (this_cpu ?a)"
    using assms by (simp_all add: same_cpu_def con_ok_def cursor_ok_def lk_take_def input_ok_def in_edit_def lk_free_def)
  from cons_chars_refines[OF this(3,4,1,2) assms(2), of False]
  obtain d t where t: "cons_chars cs False ?a = Ret d t" "same_cpu ?a t" "input_ok t" "in_abs t = fold edit_char cs (in_abs ?a)"
    by (auto simp: runs_def)
  have a: "in_abs ?a = in_abs s" by (rule input_fields) (simp_all add: lk_take_def)
  let ?t = "t\<lparr>locks := locks s, cpus := cpus s\<rparr>"
  have r: "release LkCons t = Ret () ?t"
    using t(2) by (intro release_after_acquire[OF assms(3,5)]) (simp_all add: same_cpu_def)
  have "same_cpu s ?t" using t(2) by (simp add: same_cpu_def con_ok_def cursor_ok_def)
  moreover have "input_ok ?t" "in_abs ?t = fold edit_char cs (in_abs s)" using input_fields[of ?t t] t(3,4) a by simp_all
  moreover have "runs (kwhen d procdump) ?t (\<lambda>_ v. same_cpu s v \<and> input_ok v \<and> in_abs v = in_abs ?t)"
  proof (cases d)
    case True
    have "lk_free LkCons ?t" "cpu_stable (this_cpu ?t)" "con_ok ?t ?t" using assms \<open>same_cpu s ?t\<close> by (simp_all add: same_cpu_def lk_free_def)
    from procdump_runs[OF this] have "runs procdump ?t (\<lambda>_ v. same_cpu s v \<and> input_ok v \<and> in_abs v = in_abs ?t)"
    proof (rule runs_mono)
      fix v assume v: "con_ok ?t v"
      then have "conout.more v = conout.more ?t" by (simp add: con_ok_def)
      from more_devs(1-4)[OF this] have "input_ok v = input_ok ?t" "in_abs v = in_abs ?t" by (rule input_fields(3), rule input_fields(4))
      then show "same_cpu s v \<and> input_ok v \<and> in_abs v = in_abs ?t"
        using v \<open>same_cpu s ?t\<close> \<open>input_ok ?t\<close> by (simp add: same_cpu_def con_ok_def)
    qed
    then show ?thesis using True by simp
  qed (use \<open>same_cpu s ?t\<close> \<open>input_ok ?t\<close> in simp)
  ultimately show ?thesis
    by (simp add: consoleintr_def runs_kthen runs_kbind acquire_free[OF assms(3)] t(1) r)
qed


section \<open>Reading lines\<close>

lemma consoleread_loop_line:
  fixes s :: "'z devs_scheme"
  shows "in_lines s = xs @ 10 # rest \<Longrightarrow> 10 \<notin> set xs \<Longrightarrow> 4 \<notin> set xs \<Longrightarrow> length xs < n \<Longrightarrow>
    \<exists>r. consoleread_loop n m dst s = Ret (False, n - Suc (length xs), dst @ xs @ [10]) (s\<lparr>input_r := r\<rparr>) \<and>
      in_lines (s\<lparr>input_r := r\<rparr>) = rest"
proof (induction xs arbitrary: n dst s)
  case Nil
  then obtain n' where n: "n = Suc n'" by (cases n) auto
  have ne: "input_r s \<noteq> input_w s" using Nil(1) con.waiting_empty[of "input_buf s" "input_r s" "input_w s"] by (auto simp: in_lines_def)
  from con.waiting_get[OF ne, of "input_buf s"] Nil(1)
  have "input_buf s ! ix (input_r s) = 10" "in_lines (s\<lparr>input_r := input_r s + 1\<rparr>) = rest"
    by (simp_all add: in_lines_def ix_mod)
  then show ?case using ne n by (intro exI[of _ "input_r s + 1"]) (simp add: keval)
next
  case (Cons x xs)
  then obtain n' where n: "n = Suc n'" by (cases n) auto
  let ?s = "s\<lparr>input_r := input_r s + 1\<rparr>"
  have ne: "input_r s \<noteq> input_w s" using Cons(2) con.waiting_empty[of "input_buf s" "input_r s" "input_w s"] by (auto simp: in_lines_def)
  from con.waiting_get[OF ne, of "input_buf s"] Cons(2)
  have x: "input_buf s ! ix (input_r s) = x" "in_lines ?s = xs @ 10 # rest"
    by (simp_all add: in_lines_def ix_mod)
  from Cons.IH[OF x(2), of n' "dst @ [x]"] Cons.prems n
  obtain r where "consoleread_loop n' m (dst @ [x]) ?s = Ret (False, n' - Suc (length xs), dst @ x # xs @ [10]) (?s\<lparr>input_r := r\<rparr>)"
      "in_lines (?s\<lparr>input_r := r\<rparr>) = rest" by auto
  then show ?case using Cons.prems n x ne by (intro exI[of _ r]) (simp add: keval)
qed

lemma iunlock_ready:
  fixes s :: "'z icache_scheme"
  assumes "fs_ready s" and "slocked (slocks s (SlInode k))" and "1 \<le> iref (getinode k s)"
  shows "iunlock k s = Ret () ((upd_slock (SlInode k) (\<lambda>l. l\<lparr>slocked := False, slpid := 0\<rparr>) s)
     \<lparr>procs := wake (ChSleep (SlInode k)) (procs s)\<rparr>)"
  using assms by (simp add: iunlock_def keval holdingsleep_eq releasesleep_eq)

lemma ilock_valid:
  fixes s :: "'z icache_scheme"
  assumes "fs_ready s" and "\<not> slocked (slocks s (SlInode k))" and "1 \<le> iref (getinode k s)" and "ivalid (getinode k s)"
  shows "\<exists>l. ilock k s = Ret () (s\<lparr>slocks := l\<rparr>) \<and> slocked (l (SlInode k)) \<and> (\<forall>j. j \<noteq> SlInode k \<longrightarrow> l j = slocks s j)"
proof -
  obtain p where "curproc s = Some p" using fs_ready_proc[OF assms(1)] by blast
  from acquiresleep_free[OF _ _ assms(2) this] assms show ?thesis
    by (intro exI[of _ "(slocks s)(SlInode k := (slocks s (SlInode k))\<lparr>slocked := True, slpid := pid (procs s ! p)\<rparr>)"])
       (simp add: ilock_def keval)
qed

lemma edit_plain:
  assumes "\<forall>c \<in> set cs. 32 \<le> c \<and> c < 127"
  shows "length ed + length cs < INPUT_BUF \<Longrightarrow> fold edit_char cs ([], ed) = ([], ed @ map word_of_int cs)"
  using assms
proof (induction cs arbitrary: ed)
  case (Cons c cs)
  have "edit_char c ([], ed) = ([], ed @ [word_of_int c])"
    using Cons.prems by (auto simp: edit_char_def Let_def)
  then show ?case using Cons by simp
qed simp

lemma same_cpu_ready: "same_cpu s t \<Longrightarrow> fs_ready s \<Longrightarrow> fs_ready t" for s t :: "'z devs_scheme"
  unfolding fs_ready_def same_cpu_def lk_free_def by simp

text \<open>Interrupts leave the inodes and the sleep locks alone.\<close>

definition inode_part :: "'z devs_scheme \<Rightarrow> inode list \<times> (sleepid \<Rightarrow> sleeplock)" where
  "inode_part s = (inodes s, slocks s)"

lemma inode_part_upd [simp]:
  "inode_part (s\<lparr>procs := ps\<rparr>) = inode_part s" "inode_part (s\<lparr>input_buf := b\<rparr>) = inode_part s"
  "inode_part (s\<lparr>input_r := i\<rparr>) = inode_part s" "inode_part (s\<lparr>input_w := i\<rparr>) = inode_part s"
  "inode_part (s\<lparr>input_e := i\<rparr>) = inode_part s"
  by (simp_all add: inode_part_def)

lemma keeps_inode_more:
  assumes "keeps conout.more (m :: ('a, 'z devs_scheme) km)"
  shows "keeps inode_part m"
  unfolding keeps_def
proof (intro allI impI)
  fix s x and t :: "'z devs_scheme" assume "m s = Ret x t"
  from keepsD[OF assms this] show "inode_part t = inode_part s" by (cases s; cases t) (simp add: inode_part_def)
qed

lemmas keeps_inode_io [keeps_intro] = keeps_more_consputc[THEN keeps_inode_more] keeps_more_locks[THEN keeps_inode_more]
  keeps_more_cprintf[THEN keeps_inode_more]

lemma keeps_inode_ops [keeps_intro]:
  "keeps inode_part (wakeup c)" "keeps inode_part procdump" "keeps inode_part (kill_line n)"
proof -
  show "keeps inode_part (wakeup c)" "keeps inode_part procdump"
    by (auto simp: wakeup_def wakeup1_def procdump_def Let_def intro!: keeps_intro)
  show "keeps inode_part (kill_line n)" by (induction n) (auto intro!: keeps_intro)
qed

lemma keeps_inode_char [keeps_intro]: "keeps inode_part (cons_char c)"
  by (auto simp: cons_char_def Let_def intro!: keeps_intro)

lemma keeps_inode_chars [keeps_intro]: "keeps inode_part (cons_chars cs d)"
  by (induction cs arbitrary: d) (auto intro!: keeps_intro)

lemma keeps_inode_consoleintr: "keeps inode_part (consoleintr cs)"
  by (auto simp: consoleintr_def intro!: keeps_intro)


section \<open>A concrete console\<close>

text \<open>An idle machine with an empty console whose inode, entry 0 of the cache, is locked; the indices are about to wrap.\<close>

definition blank_inode :: inode where
  "blank_inode = \<lparr>idev = 0, inum = 0, iref = 0, ivalid = False, itype = 0, imajor = 0, iminor = 0, inlink = 0, isize = 0,
     iaddrs = replicate 13 0\<rparr>"

definition idle_console :: devs where
  "idle_console =
     \<lparr>locks = \<lambda>_. \<lparr>locked = 0, lkname = [], lkcpu = None\<rparr>,
      cpus = \<lambda>_. \<lparr>ncli = 0, intena = True, ifl = True, cproc = Some 0\<rparr>, mycpu = 0,
      panicked = False, cons_locking = True, uart = False, uart_out = [], crt = \<lambda>_. 0, crtpos = 0,
      mem = \<lambda>_. 0, use_lock = True, freelist = 0, kern_end = 0x80110000,
      kpgdir = 0, cr3 = \<lambda>_. 0, esp0 = \<lambda>_. 0, sym_data = 0,
      procs = replicate NPROC idle_proc, initproc = None, nextpid = 1, policyChooser = RR, GRTExists = False,
      FRRExists = False, printRunningProcIsValid = 0, ticks = 0, sym_trapret = 0, sym_forkret = 0,
      slocks = (\<lambda>_. \<lparr>slocked = False, slname = [], slpid = 0\<rparr>)(SlInode 0 := \<lparr>slocked = True, slname = [], slpid = 1\<rparr>),
      disk = [], dtrace = [], bufs = [],
      lstart = 2, lsize = 30, outstanding = 0, committing = False, ldev = 1, lhn = 0, lhblock = replicate 30 0,
      inodes = blank_inode\<lparr>idev := 1, inum := 3, iref := 1, ivalid := True, itype := 3, imajor := 1\<rparr> # replicate 49 blank_inode,
      sb = \<lparr>sb_size = 0, nblocks = 0, ninodes = 0, nlog = 0, logstart = 0, inodestart = 0, bmapstart = 0\<rparr>,
      input_buf = replicate 128 0, input_r = 0xFFFFFFFE, input_w = 0xFFFFFFFE, input_e = 0xFFFFFFFE,
      dev_read = \<lambda>_. None, dev_write = \<lambda>_. None, kbd_shift = 0\<rparr>"

lemma idle_console_ok: "input_ok idle_console" "in_lines idle_console = []" "in_edit idle_console = []"
    "fs_ready idle_console" "\<not> panicked idle_console" "cursor_ok idle_console"
  by (simp_all add: input_ok_def in_lines_def in_edit_def ring_bytes_def idle_console_def INPUT_BUF_def fs_ready_def
      lk_free_def cpu_stable_def cursor_ok_def)



end
