(* ===== verification/Dir.thy ===== *)
theory Dir
  imports Console_In
begin

text \<open>
  File contents, directories and paths (\<^verbatim>\<open>fs.c\<close>).  \<^verbatim>\<open>readi\<close> returns with its result the bytes it stores at its
  destination, \<^verbatim>\<open>writei\<close> takes the bytes it reads at its source.  The guards at the head of both exclude wrap-around
  of \<^verbatim>\<open>off\<close>, so offsets are natural numbers.  A path is the bytes of its string without the terminating zero.
\<close>

definition T_DIR :: u16 where "T_DIR = 1"
definition T_FILE :: u16 where "T_FILE = 2"
definition T_DEV :: u16 where "T_DEV = 3"
definition ROOTDEV :: u32 where "ROOTDEV = 1"
definition ROOTINO :: u32 where "ROOTINO = 1"
definition DIRSIZ :: nat where "DIRSIZ = 14"
definition DIRENT_SIZE :: nat where "DIRENT_SIZE = 16"

section \<open>Reading and writing\<close>

function readi_loop :: "nat \<Rightarrow> nat \<Rightarrow> nat \<Rightarrow> (u8 list, 'z devs_scheme) km" where
  "readi_loop k off left =
     (if left = 0 then ret []
      else
        kbind (bmap k (word_of_nat (off div BSIZE))) (\<lambda>addr.
        kbind (kget (\<lambda>s. idev (getinode k s))) (\<lambda>dev.
        kbind (bread dev addr) (\<lambda>bp.
        let m = min left (BSIZE - off mod BSIZE) in
        kbind (kget (\<lambda>s. take m (drop (off mod BSIZE) (bdata (getbuf bp s))))) (\<lambda>d.
        kthen (brelse bp)
        (kbind (readi_loop k (off + m) (left - m)) (\<lambda>ds.
         ret (d @ ds))))))))"
  by pat_completeness auto
termination
  by (relation "measure (\<lambda>(k, off, left). left)") (auto simp: BSIZE_def)

declare readi_loop.simps [simp del]

definition call_dev_read :: "devfn \<Rightarrow> nat \<Rightarrow> u32 \<Rightarrow> (int \<times> u8 list, 'z devs_scheme) km" where
  "call_dev_read f k n =
     (case f of Fn_consoleread \<Rightarrow> consoleread k (sint n) | Fn_consolewrite \<Rightarrow> fault ''devsw.read'')"

definition call_dev_write :: "devfn \<Rightarrow> nat \<Rightarrow> u8 list \<Rightarrow> (int, 'z devs_scheme) km" where
  "call_dev_write f k src =
     (case f of Fn_consolewrite \<Rightarrow> consolewrite k src | Fn_consoleread \<Rightarrow> fault ''devsw.write'')"

definition readi :: "nat \<Rightarrow> u32 \<Rightarrow> u32 \<Rightarrow> (int \<times> u8 list, 'z devs_scheme) km" where
  "readi k off n =
     kbind (kget (\<lambda>s. getinode k s)) (\<lambda>ip.
     if itype ip = T_DEV then
       kbind (kget dev_read) (\<lambda>fs.
       if sint (imajor ip) < 0 \<or> sint (imajor ip) \<ge> int NDEV then ret (- 1, [])
       else case fs (unat (imajor ip)) of None \<Rightarrow> ret (- 1, []) | Some f \<Rightarrow> call_dev_read f k n)
     else if off > isize ip \<or> off + n < off then ret (- 1, [])
     else
       let n = (if off + n > isize ip then isize ip - off else n) in
       kbind (readi_loop k (unat off) (unat n)) (\<lambda>d. ret (sint n, d)))"

function writei_loop :: "nat \<Rightarrow> nat \<Rightarrow> u8 list \<Rightarrow> (unit, 'z devs_scheme) km" where
  "writei_loop k off src =
     (if src = [] then ret ()
      else
        kbind (bmap k (word_of_nat (off div BSIZE))) (\<lambda>addr.
        kbind (kget (\<lambda>s. idev (getinode k s))) (\<lambda>dev.
        kbind (bread dev addr) (\<lambda>bp.
        let m = min (length src) (BSIZE - off mod BSIZE) in
        kthen (set_data bp (patch (off mod BSIZE) (take m src)))
        (kthen (log_write bp)
        (kthen (brelse bp)
         (writei_loop k (off + m) (drop m src))))))))"
  by pat_completeness auto
termination
  by (relation "measure (\<lambda>(k, off, src). length src)") (auto simp: BSIZE_def)

declare writei_loop.simps [simp del]

text \<open>\<^verbatim>\<open>writei(ip, src, off, n)\<close> for the \<open>n\<close> bytes \<open>src\<close>.\<close>

definition writei :: "nat \<Rightarrow> u8 list \<Rightarrow> u32 \<Rightarrow> u32 \<Rightarrow> (int, 'z devs_scheme) km" where
  "writei k src off n =
     kbind (kget (\<lambda>s. getinode k s)) (\<lambda>ip.
     if itype ip = T_DEV then
       kbind (kget dev_write) (\<lambda>fs.
       if sint (imajor ip) < 0 \<or> sint (imajor ip) \<ge> int NDEV then ret (- 1)
       else case fs (unat (imajor ip)) of None \<Rightarrow> ret (- 1) | Some f \<Rightarrow> call_dev_write f k src)
     else if off > isize ip \<or> off + n < off then ret (- 1)
     else if unat (off + n) > MAXFILE * BSIZE then ret (- 1)
     else
       kthen (writei_loop k (unat off) src)
       (kthen (kwhen (n > 0 \<and> off + n > isize ip)
          (kthen (kmod (upd_inode k (\<lambda>ip. ip\<lparr>isize := off + n\<rparr>)))
           (iupdate k)))
        (ret (sint n))))"

section \<open>Directories\<close>

definition namecmp :: "u8 list \<Rightarrow> u8 list \<Rightarrow> int" where
  "namecmp s t = strncmp (view s) (view t) DIRSIZ"

text \<open>The byte offsets of the entries of a directory of the given size.\<close>

definition dirent_offs :: "nat \<Rightarrow> nat list" where
  "dirent_offs n = map (\<lambda>i. DIRENT_SIZE * i) [0..<(n + DIRENT_SIZE - 1) div DIRENT_SIZE]"

fun dirlookup_loop :: "nat \<Rightarrow> u8 list \<Rightarrow> nat list \<Rightarrow> ((nat \<times> nat) option, 'z devs_scheme) km" where
  "dirlookup_loop dp name [] = ret None"
| "dirlookup_loop dp name (off # offs) =
     kbind (readi dp (word_of_nat off) (word_of_nat DIRENT_SIZE)) (\<lambda>(r, de).
     if r \<noteq> int DIRENT_SIZE then panic ''dirlink read''
     else if get16 de 0 = 0 then dirlookup_loop dp name offs
     else if namecmp name (drop 2 de) = 0 then
       kbind (kget (\<lambda>s. idev (getinode dp s))) (\<lambda>dev.
       kbind (iget dev (ucast (get16 de 0))) (\<lambda>k. ret (Some (k, off))))
     else dirlookup_loop dp name offs)"

text \<open>The inode found and, for \<^verbatim>\<open>*poff\<close>, the offset of its entry.\<close>

definition dirlookup :: "nat \<Rightarrow> u8 list \<Rightarrow> ((nat \<times> nat) option, 'z devs_scheme) km" where
  "dirlookup dp name =
     kbind (kget (\<lambda>s. getinode dp s)) (\<lambda>ip.
     if itype ip \<noteq> T_DIR then panic ''dirlookup not DIR''
     else dirlookup_loop dp name (dirent_offs (unat (isize ip))))"

text \<open>The offset at which the search of \<^verbatim>\<open>dirlink\<close> for an empty entry stops: \<open>end\<close> if there is none.\<close>

fun empty_dirent :: "nat \<Rightarrow> nat \<Rightarrow> nat list \<Rightarrow> (nat, 'z devs_scheme) km" where
  "empty_dirent dp end [] = ret end"
| "empty_dirent dp end (off # offs) =
     kbind (readi dp (word_of_nat off) (word_of_nat DIRENT_SIZE)) (\<lambda>(r, de).
     if r \<noteq> int DIRENT_SIZE then panic ''dirlink read''
     else if get16 de 0 = 0 then ret off
     else empty_dirent dp end offs)"

definition dirlink :: "nat \<Rightarrow> u8 list \<Rightarrow> u32 \<Rightarrow> (int, 'z devs_scheme) km" where
  "dirlink dp name i =
     kbind (dirlookup dp name) (\<lambda>hit.
     case hit of
       Some (k, _) \<Rightarrow> kthen (iput k) (ret (- 1))
     | None \<Rightarrow>
         kbind (kget (\<lambda>s. unat (isize (getinode dp s)))) (\<lambda>n.
         kbind (empty_dirent dp (DIRENT_SIZE * length (dirent_offs n)) (dirent_offs n)) (\<lambda>off.
         kbind (writei dp (le16 (ucast i) @ strncpy (view name) DIRSIZ) (word_of_nat off) (word_of_nat DIRENT_SIZE)) (\<lambda>r.
         if r \<noteq> int DIRENT_SIZE then panic ''dirlink'' else ret 0))))"

section \<open>Paths\<close>

text \<open>\<open>skipelem path\<close>: the rest of the path and the element copied to \<^verbatim>\<open>name\<close>, which is cut at \<open>DIRSIZ\<close> bytes.\<close>

definition skipelem :: "u8 list \<Rightarrow> (u8 list \<times> u8 list) option" where
  "skipelem path =
     (let s = dropWhile (\<lambda>c. c = 47) path in
      if s = [] then None
      else Some (dropWhile (\<lambda>c. c = 47) (dropWhile (\<lambda>c. c \<noteq> 47) s), take DIRSIZ (takeWhile (\<lambda>c. c \<noteq> 47) s)))"

lemma skipelem_shorter: "skipelem path = Some (rest, name) \<Longrightarrow> length rest < length path"
proof -
  let ?s = "dropWhile (\<lambda>c. c = 47) path"
  assume a: "skipelem path = Some (rest, name)"
  then have s: "?s \<noteq> []" and r: "rest = dropWhile (\<lambda>c. c = 47) (dropWhile (\<lambda>c. c \<noteq> 47) ?s)"
    by (auto simp: skipelem_def Let_def split: if_splits)
  have "hd ?s \<noteq> 47" using s by (rule hd_dropWhile)
  then have "length (dropWhile (\<lambda>c. c \<noteq> 47) ?s) < length ?s"
    using s by (cases ?s) (simp_all add: le_imp_less_Suc length_dropWhile_le)
  moreover have "length rest \<le> length (dropWhile (\<lambda>c. c \<noteq> 47) ?s)" "length ?s \<le> length path"
    unfolding r by (rule length_dropWhile_le)+
  ultimately show ?thesis by simp
qed

function namex_loop :: "bool \<Rightarrow> nat \<Rightarrow> u8 list \<Rightarrow> ((nat \<times> u8 list) option, 'z devs_scheme) km" where
  "namex_loop par ip path =
     (case skipelem path of
        None \<Rightarrow> if par then kthen (iput ip) (ret None) else ret (Some (ip, []))
      | Some (path', name) \<Rightarrow>
          kthen (ilock ip)
          (kbind (kget (\<lambda>s. itype (getinode ip s))) (\<lambda>ty.
           if ty \<noteq> T_DIR then kthen (iunlockput ip) (ret None)
           else if par \<and> path' = [] then kthen (iunlock ip) (ret (Some (ip, name)))
           else
             kbind (dirlookup ip name) (\<lambda>hit.
             case hit of
               None \<Rightarrow> kthen (iunlockput ip) (ret None)
             | Some (next, _) \<Rightarrow> kthen (iunlockput ip) (namex_loop par next path')))))"
  by pat_completeness auto
termination
  by (relation "measure (\<lambda>(par, ip, path). length path)") (auto simp: skipelem_shorter)

declare namex_loop.simps [simp del]

text \<open>\<open>namex path nameiparent\<close>: the inode and, with \<^verbatim>\<open>nameiparent\<close>, the final path element.\<close>

definition namex :: "u8 list \<Rightarrow> bool \<Rightarrow> ((nat \<times> u8 list) option, 'z devs_scheme) km" where
  "namex path par =
     kbind (if path \<noteq> [] \<and> hd path = 47 then iget ROOTDEV ROOTINO
            else with_proc (\<lambda>p. kbind (kget (\<lambda>s. cwd (procs s ! p))) (\<lambda>c.
                 case c of None \<Rightarrow> fault ''cwd'' | Some k \<Rightarrow> idup k))) (\<lambda>ip.
     namex_loop par ip path)"

definition namei :: "u8 list \<Rightarrow> (nat option, 'z devs_scheme) km" where
  "namei path = kbind (namex path False) (\<lambda>r. ret (map_option fst r))"

definition nameiparent :: "u8 list \<Rightarrow> ((nat \<times> u8 list) option, 'z devs_scheme) km" where
  "nameiparent path = namex path True"

end
