(* ===== verification/Pipe.thy ===== *)
theory Pipe
  imports Dir
begin

text \<open>
  Pipes (\<^verbatim>\<open>pipe.c\<close>): the ring buffer, blocking writes and reads, and closing of the ends.  A \<^verbatim>\<open>struct pipe\<close> lives in a page
  from \<^verbatim>\<open>kalloc\<close>; \<open>pipes\<close> gives its fields by the address of that page.  The bytes a read stores at its destination are part
  of its result.  An operation that has to wait ends with \<open>Switched\<close>; the bytes it has moved so far are in the state.
\<close>

section \<open>State\<close>

definition PIPESIZE :: nat where "PIPESIZE = 512"

record pipe =
  pdata :: "u8 list"
  nread :: u32
  nwrite :: u32
  readopen :: bool
  writeopen :: bool

record pipest = devs +
  pipes :: "u32 \<Rightarrow> pipe"

abbreviation upd_pipe :: "u32 \<Rightarrow> (pipe \<Rightarrow> pipe) \<Rightarrow> 'z pipest_scheme \<Rightarrow> 'z pipest_scheme" where
  "upd_pipe p f s \<equiv> s\<lparr>pipes := (pipes s)(p := f (pipes s p))\<rparr>"

definition cur_killed :: "(bool, 'z ptable_scheme) km" where
  "cur_killed = with_proc (\<lambda>p. kget (\<lambda>s. killed (procs s ! p)))"

section \<open>Operations\<close>

definition pipeclose :: "u32 \<Rightarrow> bool \<Rightarrow> (unit, 'z pipest_scheme) km" where
  "pipeclose p writable =
     kthen (acquire (LkPipe p))
     (kthen (if writable
             then kthen (kmod (upd_pipe p (\<lambda>q. q\<lparr>writeopen := False\<rparr>))) (wakeup (ChPipeR p))
             else kthen (kmod (upd_pipe p (\<lambda>q. q\<lparr>readopen := False\<rparr>))) (wakeup (ChPipeW p)))
     (kbind (kget (\<lambda>s. \<not> readopen (pipes s p) \<and> \<not> writeopen (pipes s p))) (\<lambda>dead.
      if dead then kthen (release (LkPipe p)) (kfree p)
      else release (LkPipe p))))"

text \<open>The copying loop: False if it is left because there is no reader or the process was killed.\<close>

fun pipewrite_loop :: "u32 \<Rightarrow> u8 list \<Rightarrow> (bool, 'z pipest_scheme) km" where
  "pipewrite_loop p [] = ret True"
| "pipewrite_loop p (b # bs) =
     kbind (kget (\<lambda>s. pipes s p)) (\<lambda>q.
     if nwrite q = nread q + word_of_nat PIPESIZE then
       kbind cur_killed (\<lambda>k.
       if \<not> readopen q \<or> k then ret False
       else kthen (wakeup (ChPipeR p)) (wait_on (ChPipeW p) (LkPipe p)))
     else
       kthen (kmod (upd_pipe p (\<lambda>q. q\<lparr>pdata := (pdata q)[unat (nwrite q) mod PIPESIZE := b], nwrite := nwrite q + 1\<rparr>)))
       (pipewrite_loop p bs))"

definition pipewrite :: "u32 \<Rightarrow> u8 list \<Rightarrow> (int, 'z pipest_scheme) km" where
  "pipewrite p addr =
     kthen (acquire (LkPipe p))
     (kbind (pipewrite_loop p addr) (\<lambda>ok.
      if \<not> ok then kthen (release (LkPipe p)) (ret (- 1))
      else
        kthen (wakeup (ChPipeR p))
        (kthen (release (LkPipe p)) (ret (int (length addr))))))"

fun piperead_loop :: "u32 \<Rightarrow> nat \<Rightarrow> (u8 list, 'z pipest_scheme) km" where
  "piperead_loop p 0 = ret []"
| "piperead_loop p (Suc n) =
     kbind (kget (\<lambda>s. pipes s p)) (\<lambda>q.
     if nread q = nwrite q then ret []
     else
       kthen (kmod (upd_pipe p (\<lambda>q. q\<lparr>nread := nread q + 1\<rparr>)))
       (kbind (piperead_loop p n) (\<lambda>bs. ret (pdata q ! (unat (nread q) mod PIPESIZE) # bs))))"

definition piperead :: "u32 \<Rightarrow> int \<Rightarrow> (int \<times> u8 list, 'z pipest_scheme) km" where
  "piperead p n =
     kthen (acquire (LkPipe p))
     (kbind (kget (\<lambda>s. nread (pipes s p) = nwrite (pipes s p) \<and> writeopen (pipes s p))) (\<lambda>empty.
      if empty then
        kbind cur_killed (\<lambda>k.
        if k then kthen (release (LkPipe p)) (ret (- 1, []))
        else wait_on (ChPipeR p) (LkPipe p))
      else
        kbind (piperead_loop p (nat n)) (\<lambda>bs.
        kthen (wakeup (ChPipeW p))
        (kthen (release (LkPipe p)) (ret (int (length bs), bs))))))"

section \<open>A pipe is a bounded queue\<close>

interpretation pip: ring_buffer PIPESIZE
  by unfold_locales (simp_all add: PIPESIZE_def)

definition pipe_queue :: "pipe \<Rightarrow> u8 list" where
  "pipe_queue q = ring_bytes PIPESIZE (pdata q) (nread q) (nwrite q)"

definition pipe_ok :: "pipe \<Rightarrow> bool" where
  "pipe_ok q \<longleftrightarrow> length (pdata q) = PIPESIZE \<and> length (pipe_queue q) \<le> PIPESIZE"

lemma pipe_full: "pipe_ok q \<Longrightarrow> nwrite q = nread q + word_of_nat PIPESIZE \<longleftrightarrow> length (pipe_queue q) = PIPESIZE"
proof -
  have "nwrite q = nread q + word_of_nat PIPESIZE \<longleftrightarrow> nwrite q - nread q = word_of_nat PIPESIZE"
    by (simp add: diff_eq_eq add.commute)
  also have "\<dots> \<longleftrightarrow> unat (nwrite q - nread q) = PIPESIZE" by (simp add: word_unat_eq_iff PIPESIZE_def)
  finally show ?thesis by (simp add: pipe_queue_def)
qed

lemma pipe_empty: "nread q = nwrite q \<longleftrightarrow> pipe_queue q = []"
  by (simp add: pipe_queue_def pip.waiting_empty)

lemma pipe_put:
  assumes "pipe_ok q" and "length (pipe_queue q) < PIPESIZE"
    and "r = q\<lparr>pdata := (pdata q)[unat (nwrite q) mod PIPESIZE := b], nwrite := nwrite q + 1\<rparr>"
  shows "pipe_queue r = pipe_queue q @ [b]" "pipe_ok r"
  using assms pip.waiting_put[of "nwrite q" "nread q" "pdata q" b] pip.count_put[of "nwrite q" "nread q"]
  by (simp_all add: pipe_queue_def pipe_ok_def)

lemma pipe_get:
  assumes "pipe_queue q \<noteq> []"
  shows "pipe_queue q = pdata q ! (unat (nread q) mod PIPESIZE) # pipe_queue (q\<lparr>nread := nread q + 1\<rparr>)"
  using pip.waiting_get[of "nread q" "nwrite q" "pdata q"] assms pipe_empty[of q] by (simp add: pipe_queue_def)

lemma pipewrite_loop_fits:
  fixes s :: "'z pipest_scheme"
  shows "pipe_ok (pipes s p) \<Longrightarrow> length (pipe_queue (pipes s p)) + length bs \<le> PIPESIZE \<Longrightarrow>
    \<exists>q. pipewrite_loop p bs s = Ret True (s\<lparr>pipes := (pipes s)(p := q)\<rparr>) \<and> pipe_ok q \<and>
      pipe_queue q = pipe_queue (pipes s p) @ bs \<and> readopen q = readopen (pipes s p) \<and> writeopen q = writeopen (pipes s p)"
proof (induction bs arbitrary: s)
  case Nil
  then show ?case by (intro exI[of _ "pipes s p"]) simp
next
  case (Cons b bs)
  let ?r = "(pipes s p)\<lparr>pdata := (pdata (pipes s p))[unat (nwrite (pipes s p)) mod PIPESIZE := b], nwrite := nwrite (pipes s p) + 1\<rparr>"
  let ?s = "s\<lparr>pipes := (pipes s)(p := ?r)\<rparr>"
  have lt: "length (pipe_queue (pipes s p)) < PIPESIZE" using Cons.prems(2) by simp
  note put = pipe_put[OF Cons.prems(1) lt refl, of b]
  have "pipe_ok (pipes ?s p)" "length (pipe_queue (pipes ?s p)) + length bs \<le> PIPESIZE" using put Cons.prems(2) by simp_all
  from Cons.IH[OF this] obtain q where q: "pipewrite_loop p bs ?s = Ret True (?s\<lparr>pipes := (pipes ?s)(p := q)\<rparr>)" "pipe_ok q"
      "pipe_queue q = pipe_queue (pipes ?s p) @ bs" "readopen q = readopen (pipes ?s p)" "writeopen q = writeopen (pipes ?s p)"
    by blast
  have step: "pipewrite_loop p (b # bs) s = pipewrite_loop p bs ?s"
    using lt pipe_full[OF Cons.prems(1)] by (simp add: keval)
  have "?s\<lparr>pipes := (pipes ?s)(p := q)\<rparr> = s\<lparr>pipes := (pipes s)(p := q)\<rparr>" by simp
  then have "pipewrite_loop p (b # bs) s = Ret True (s\<lparr>pipes := (pipes s)(p := q)\<rparr>)" unfolding step q(1) by (rule arg_cong)
  moreover have "pipe_queue q = pipe_queue (pipes s p) @ b # bs" "readopen q = readopen (pipes s p)" "writeopen q = writeopen (pipes s p)"
    using put(1) q(3-5) by simp_all
  ultimately show ?case using q(2) by blast
qed

lemma piperead_loop_takes:
  fixes s :: "'z pipest_scheme"
  shows "pipe_ok (pipes s p) \<Longrightarrow>
    \<exists>q. piperead_loop p n s = Ret (take n (pipe_queue (pipes s p))) (s\<lparr>pipes := (pipes s)(p := q)\<rparr>) \<and> pipe_ok q \<and>
      pipe_queue q = drop n (pipe_queue (pipes s p)) \<and> readopen q = readopen (pipes s p) \<and> writeopen q = writeopen (pipes s p)"
proof (induction n arbitrary: s)
  case 0
  then show ?case by (intro exI[of _ "pipes s p"]) simp
next
  case (Suc n)
  show ?case
  proof (cases "pipe_queue (pipes s p) = []")
    case True
    then show ?thesis using Suc.prems pipe_empty[of "pipes s p"] by (intro exI[of _ "pipes s p"]) (simp add: keval)
  next
    case False
    let ?r = "(pipes s p)\<lparr>nread := nread (pipes s p) + 1\<rparr>"
    let ?s = "s\<lparr>pipes := (pipes s)(p := ?r)\<rparr>"
    note get = pipe_get[OF False]
    then have "pipe_ok (pipes ?s p)" using Suc.prems by (simp add: pipe_ok_def)
    from Suc.IH[OF this] obtain q where q: "piperead_loop p n ?s = Ret (take n (pipe_queue (pipes ?s p))) (?s\<lparr>pipes := (pipes ?s)(p := q)\<rparr>)"
        "pipe_ok q" "pipe_queue q = drop n (pipe_queue (pipes ?s p))" "readopen q = readopen (pipes ?s p)" "writeopen q = writeopen (pipes ?s p)"
      by blast
    have step: "piperead_loop p (Suc n) s =
        kbind (piperead_loop p n) (\<lambda>bs. ret (pdata (pipes s p) ! (unat (nread (pipes s p)) mod PIPESIZE) # bs)) ?s"
      using False pipe_empty[of "pipes s p"] by (simp add: kthen_apply kbind_apply)
    have "?s\<lparr>pipes := (pipes ?s)(p := q)\<rparr> = s\<lparr>pipes := (pipes s)(p := q)\<rparr>" by simp
    note q(1)[unfolded this]
    then have "piperead_loop p (Suc n) s = Ret (take (Suc n) (pipe_queue (pipes s p))) (s\<lparr>pipes := (pipes s)(p := q)\<rparr>)"
      unfolding step kbind_apply by (simp add: get[THEN arg_cong[of _ _ "take (Suc n)"]])
    moreover have "pipe_queue q = drop (Suc n) (pipe_queue (pipes s p))" by (subst get) (simp add: q(3))
    moreover have "readopen q = readopen (pipes s p)" "writeopen q = writeopen (pipes s p)" using q(4,5) by simp_all
    ultimately show ?thesis using q(2) by blast
  qed
qed

lemma pipewrite_runs:
  fixes s :: "'z pipest_scheme"
  assumes "fs_ready s" and "pipe_ok (pipes s p)" and "length (pipe_queue (pipes s p)) + length bs \<le> PIPESIZE"
  shows "\<exists>q. pipewrite p bs s = Ret (int (length bs)) (s\<lparr>pipes := (pipes s)(p := q), procs := wake (ChPipeR p) (procs s)\<rparr>) \<and> pipe_ok q \<and>
      pipe_queue q = pipe_queue (pipes s p) @ bs \<and> readopen q = readopen (pipes s p) \<and> writeopen q = writeopen (pipes s p)"
proof -
  let ?a = "lk_take (LkPipe p) s"
  have a: "acquire (LkPipe p) s = Ret () ?a" using assms(1) by (intro acquire_free) simp
  have "pipe_ok (pipes ?a p)" "length (pipe_queue (pipes ?a p)) + length bs \<le> PIPESIZE" using assms by (simp_all add: lk_take_def)
  from pipewrite_loop_fits[OF this] obtain q where q: "pipewrite_loop p bs ?a = Ret True (?a\<lparr>pipes := (pipes ?a)(p := q)\<rparr>)" "pipe_ok q"
      "pipe_queue q = pipe_queue (pipes ?a p) @ bs" "readopen q = readopen (pipes ?a p)" "writeopen q = writeopen (pipes ?a p)"
    by blast
  let ?b = "?a\<lparr>pipes := (pipes ?a)(p := q)\<rparr>"
  have w: "wakeup (ChPipeR p) ?b = Ret () (?b\<lparr>procs := wake (ChPipeR p) (procs ?b)\<rparr>)"
    using assms(1) fs_readyD(1)[OF assms(1), of LkPtable] by (intro wakeup_eq) (simp_all add: lk_free_def)
  let ?c = "?b\<lparr>procs := wake (ChPipeR p) (procs ?b)\<rparr>"
  have "release (LkPipe p) ?c = Ret () (?c\<lparr>locks := locks s, cpus := cpus s\<rparr>)"
    using assms(1) by (intro release_after_acquire) simp_all
  moreover have "?c\<lparr>locks := locks s, cpus := cpus s\<rparr> = s\<lparr>pipes := (pipes s)(p := q), procs := wake (ChPipeR p) (procs s)\<rparr>"
    by (simp add: lk_take_def)
  ultimately have "pipewrite p bs s = Ret (int (length bs)) (s\<lparr>pipes := (pipes s)(p := q), procs := wake (ChPipeR p) (procs s)\<rparr>)"
    using a q(1) w by (simp add: pipewrite_def keval del: fun_upd_apply)
  moreover have "pipes ?a p = pipes s p" by (simp add: lk_take_def)
  ultimately show ?thesis using q(2-5) by metis
qed

lemma piperead_runs:
  fixes s :: "'z pipest_scheme"
  assumes "fs_ready s" and "pipe_ok (pipes s p)" and "pipe_queue (pipes s p) \<noteq> [] \<or> \<not> writeopen (pipes s p)"
  shows "\<exists>q. piperead p (int n) s = Ret (int (min n (length (pipe_queue (pipes s p)))), take n (pipe_queue (pipes s p)))
        (s\<lparr>pipes := (pipes s)(p := q), procs := wake (ChPipeW p) (procs s)\<rparr>) \<and> pipe_ok q \<and>
      pipe_queue q = drop n (pipe_queue (pipes s p)) \<and> readopen q = readopen (pipes s p) \<and> writeopen q = writeopen (pipes s p)"
proof -
  let ?a = "lk_take (LkPipe p) s"
  have a: "acquire (LkPipe p) s = Ret () ?a" using assms(1) by (intro acquire_free) simp
  have pa: "pipes ?a p = pipes s p" by (simp add: lk_take_def)
  have "pipe_ok (pipes ?a p)" using assms pa by simp
  from piperead_loop_takes[OF this, of n] obtain q where q:
      "piperead_loop p n ?a = Ret (take n (pipe_queue (pipes ?a p))) (?a\<lparr>pipes := (pipes ?a)(p := q)\<rparr>)" "pipe_ok q"
      "pipe_queue q = drop n (pipe_queue (pipes ?a p))" "readopen q = readopen (pipes ?a p)" "writeopen q = writeopen (pipes ?a p)"
    by blast
  let ?b = "?a\<lparr>pipes := (pipes ?a)(p := q)\<rparr>"
  have w: "wakeup (ChPipeW p) ?b = Ret () (?b\<lparr>procs := wake (ChPipeW p) (procs ?b)\<rparr>)"
    using assms(1) fs_readyD(1)[OF assms(1), of LkPtable] by (intro wakeup_eq) (simp_all add: lk_free_def)
  let ?c = "?b\<lparr>procs := wake (ChPipeW p) (procs ?b)\<rparr>"
  have "release (LkPipe p) ?c = Ret () (?c\<lparr>locks := locks s, cpus := cpus s\<rparr>)"
    using assms(1) by (intro release_after_acquire) simp_all
  moreover have "?c\<lparr>locks := locks s, cpus := cpus s\<rparr> = s\<lparr>pipes := (pipes s)(p := q), procs := wake (ChPipeW p) (procs s)\<rparr>"
    by (simp add: lk_take_def)
  moreover have "\<not> (nread (pipes ?a p) = nwrite (pipes ?a p) \<and> writeopen (pipes ?a p))"
    using assms(3) pipe_empty[of "pipes s p"] pa by auto
  ultimately have "piperead p (int n) s = Ret (int (min n (length (pipe_queue (pipes s p)))), take n (pipe_queue (pipes s p)))
      (s\<lparr>pipes := (pipes s)(p := q), procs := wake (ChPipeW p) (procs s)\<rparr>)"
    using a q(1) w pa by (auto simp: piperead_def keval min.commute simp del: fun_upd_apply)
  then show ?thesis using q(2-5) pa by metis
qed

text \<open>C11. A pipe is a first-in first-out queue: a write that fits appends its bytes, and a following read takes the oldest
  bytes, at most as many as asked for, also when the 32 bit counters wrap around.\<close>

theorem pipe_is_queue:
  fixes s :: "'z pipest_scheme"
  assumes "fs_ready s" and "pipe_ok (pipes s p)" and "bs \<noteq> []" and "length (pipe_queue (pipes s p)) + length bs \<le> PIPESIZE"
  shows "\<exists>t u. pipewrite p bs s = Ret (int (length bs)) t \<and>
     piperead p (int n) t = Ret (int (min n (length (pipe_queue (pipes s p) @ bs))), take n (pipe_queue (pipes s p) @ bs)) u \<and>
     pipe_queue (pipes u p) = drop n (pipe_queue (pipes s p) @ bs) \<and> pipe_ok (pipes u p)"
proof -
  from pipewrite_runs[OF assms(1,2,4)] obtain q where
    q: "pipewrite p bs s = Ret (int (length bs)) (s\<lparr>pipes := (pipes s)(p := q), procs := wake (ChPipeR p) (procs s)\<rparr>)"
      "pipe_ok q" "pipe_queue q = pipe_queue (pipes s p) @ bs" by blast
  let ?t = "s\<lparr>pipes := (pipes s)(p := q), procs := wake (ChPipeR p) (procs s)\<rparr>"
  have "fs_ready ?t" using assms(1) unfolding fs_ready_def lk_free_def by simp
  moreover have "pipe_ok (pipes ?t p)" "pipe_queue (pipes ?t p) \<noteq> [] \<or> \<not> writeopen (pipes ?t p)" using q assms(3) by simp_all
  ultimately obtain v where v: "piperead p (int n) ?t = Ret (int (min n (length (pipe_queue (pipes ?t p)))), take n (pipe_queue (pipes ?t p)))
        (?t\<lparr>pipes := (pipes ?t)(p := v), procs := wake (ChPipeW p) (procs ?t)\<rparr>)" "pipe_ok v"
      "pipe_queue v = drop n (pipe_queue (pipes ?t p))"
    using piperead_runs[of ?t p n] by blast
  have pt: "pipe_queue (pipes ?t p) = pipe_queue (pipes s p) @ bs" using q(3) by simp
  show ?thesis using q(1) v(1)[unfolded pt] v(2,3) pt by (intro exI conjI) (assumption+, simp_all)
qed

text \<open>C12. A write to a full pipe waits: with a reader and a process that is not killed, it wakes the readers and sleeps until
  there is room, the pipe's lock released; without a reader it fails with -1.\<close>

theorem pipe_full_waits:
  fixes s :: "'z pipest_scheme"
  assumes "on_cpu c s" and "pipe_ok (pipes s p)" and "length (pipe_queue (pipes s p)) = PIPESIZE" and "\<not> killed (procs s ! c)"
  shows "if readopen (pipes s p)
     then \<exists>t. pipewrite p (b # bs) s = Switched t \<and> pipes t = pipes s \<and> lk_free (LkPipe p) t \<and>
            state (procs t ! c) = SLEEPING \<and> chan (procs t ! c) = Some (ChPipeW p)
     else pipewrite p (b # bs) s = Ret (- 1) s"
proof -
  let ?a = "lk_take (LkPipe p) s"
  have q: "quiet s" and c: "curproc s = Some c" "c < length (procs s)" using assms(1) by (simp_all add: on_cpu_def)
  have a: "acquire (LkPipe p) s = Ret () ?a" using q by (intro acquire_free) simp
  have pa: "pipes ?a = pipes s" "procs ?a = procs s" "curproc ?a = Some c" using c by (simp_all add: lk_take_def)
  have full: "nwrite (pipes s p) = nread (pipes s p) + word_of_nat PIPESIZE" using pipe_full[OF assms(2)] assms(3) by simp
  have k: "cur_killed ?a = Ret False ?a" using assms(4) pa by (simp add: cur_killed_def with_proc_def keval)
  show ?thesis
  proof (cases "readopen (pipes s p)")
    case False
    then show ?thesis using q a k full pa by (simp add: pipewrite_def keval)
  next
    case True
    have w: "wakeup (ChPipeR p) ?a = Ret () (?a\<lparr>procs := wake (ChPipeR p) (procs s)\<rparr>)"
      using q pa by (subst wakeup_eq) (simp_all add: lk_free_def quiet_def)
    have e: "?a\<lparr>procs := wake (ChPipeR p) (procs s)\<rparr> = lk_take (LkPipe p) (s\<lparr>procs := wake (ChPipeR p) (procs s)\<rparr>)"
      by (simp add: lk_take_def)
    have "on_cpu c (s\<lparr>procs := wake (ChPipeR p) (procs s)\<rparr>)"
      using q c by (simp add: on_cpu_def quiet_def lk_free_def)
    note sl = sleep_switches[OF this, of "LkPipe p" "ChPipeW p"]
    have "pipes (lk_take LkPtable (s\<lparr>procs := ps\<rparr>)) = pipes s" for ps by (simp add: lk_take_def)
    then show ?thesis using a k full pa w e sl True c q
      by (simp add: pipewrite_def keval wait_on_def lk_free_def quiet_def)
  qed
qed

section \<open>A concrete pipe\<close>

text \<open>The idle machine with one pipe, whose counters are about to wrap around; \<open>n\<close> bytes wait in it.\<close>

definition one_pipe :: "nat \<Rightarrow> pipest" where
  "one_pipe n = devs.extend (idle_console\<lparr>procs := replicate NPROC (idle_proc\<lparr>state := RUNNING\<rparr>)\<rparr>)
     (pipest.fields (\<lambda>_. \<lparr>pdata = replicate 512 7, nread = 0xFFFFFF00, nwrite = 0xFFFFFF00 + word_of_nat n,
        readopen = True, writeopen = True\<rparr>))"

lemma one_pipe_fields:
  "pipes (one_pipe n) p = \<lparr>pdata = replicate 512 7, nread = 0xFFFFFF00, nwrite = 0xFFFFFF00 + word_of_nat n, readopen = True, writeopen = True\<rparr>"
  "locks (one_pipe n) l = \<lparr>locked = 0, lkname = [], lkcpu = None\<rparr>"
  "this_cpu (one_pipe n) = \<lparr>ncli = 0, intena = True, ifl = True, cproc = Some 0\<rparr>"
  "procs (one_pipe n) = replicate NPROC (idle_proc\<lparr>state := RUNNING\<rparr>)"
  by (simp_all add: one_pipe_def pipest.defs devs.defs idle_console_def)

lemma one_pipe_ok: "n \<le> 512 \<Longrightarrow> pipe_ok (pipes (one_pipe n) p)" "n \<le> 512 \<Longrightarrow> length (pipe_queue (pipes (one_pipe n) p)) = n"
    "fs_ready (one_pipe n)" "on_cpu 0 (one_pipe n)"
proof -
  show l: "n \<le> 512 \<Longrightarrow> length (pipe_queue (pipes (one_pipe n) p)) = n"
    by (simp add: one_pipe_fields pipe_queue_def unat_of_nat take_bit_eq_mod)
  show "n \<le> 512 \<Longrightarrow> pipe_ok (pipes (one_pipe n) p)" using l by (simp add: pipe_ok_def one_pipe_fields PIPESIZE_def)
  show "fs_ready (one_pipe n)" unfolding fs_ready_def by (simp add: one_pipe_fields lk_free_def cpu_stable_def)
  show "on_cpu 0 (one_pipe n)" by (simp add: one_pipe_fields on_cpu_def quiet_def lk_free_def cpu_idle_def NPROC_def)
qed

theorem pipe_is_queue_witness:
  "fs_ready (one_pipe 2) \<and> pipe_ok (pipes (one_pipe 2) 0) \<and>
   (\<exists>t u. pipewrite 0 (replicate 300 9) (one_pipe 2) = Ret 300 t \<and> length (pipe_queue (pipes u 0)) = 202 \<and>
      piperead 0 (int 100) t = Ret (100, take 100 (pipe_queue (pipes (one_pipe 2) 0) @ replicate 300 9)) u)"
proof -
  have "length (pipe_queue (pipes (one_pipe 2) 0)) = 2" using one_pipe_ok(2)[of 2 0] by simp
  then show ?thesis
    using pipe_is_queue[OF one_pipe_ok(3) one_pipe_ok(1), of 2 "replicate 300 9" 0 100] one_pipe_ok(1)[of 2 0] one_pipe_ok(3)
    by (auto simp: PIPESIZE_def)
qed

theorem pipe_full_waits_witness:
  "on_cpu 0 (one_pipe 512) \<and> readopen (pipes (one_pipe 512) 0) \<and>
   (\<exists>t. pipewrite 0 [1] (one_pipe 512) = Switched t \<and> state (procs t ! 0) = SLEEPING)"
proof -
  have "readopen (pipes (one_pipe 512) 0)" "\<not> killed (procs (one_pipe 512) ! 0)"
    by (simp_all add: one_pipe_fields NPROC_def idle_proc_def)
  then show ?thesis
    using pipe_full_waits[OF one_pipe_ok(4) one_pipe_ok(1), of 512 0 1 "[]"] one_pipe_ok(2)[of 512 0] one_pipe_ok(4)[of 512]
    by (auto simp: PIPESIZE_def)
qed

end
