(* ===== verification/File.thy ===== *)
theory File
  imports Pipe
begin

text \<open>
  Open files (\<^verbatim>\<open>file.c\<close>) and \<^verbatim>\<open>pipealloc\<close> of \<^verbatim>\<open>pipe.c\<close>: the table of open file structures with its reference counts, and
  reading, writing and closing through them.  A pointer to a \<^verbatim>\<open>struct file\<close> is an index into \<open>files\<close>.
\<close>

section \<open>State\<close>

definition NFILE :: nat where "NFILE = 100"

datatype fdtype = FD_NONE | FD_PIPE | FD_INODE

record kfile =
  ftype :: fdtype
  fref :: int
  readable :: bool
  writable :: bool
  fpipe :: u32
  fip :: nat
  foff :: u32

record ftable = pipest +
  files :: "kfile list"

abbreviation upd_file :: "nat \<Rightarrow> (kfile \<Rightarrow> kfile) \<Rightarrow> 'z ftable_scheme \<Rightarrow> 'z ftable_scheme" where
  "upd_file i f s \<equiv> s\<lparr>files := upd_nth i f (files s)\<rparr>"

section \<open>Operations\<close>

definition fileinit :: "(unit, 'z ftable_scheme) km" where
  "fileinit = initlock LkFtable ''ftable''"

definition filealloc :: "(nat option, 'z ftable_scheme) km" where
  "filealloc =
     kthen (acquire LkFtable)
     (kbind (kget (\<lambda>s. first_index (\<lambda>f. fref f = 0) (files s))) (\<lambda>found.
      case found of
        Some i \<Rightarrow>
          kthen (kmod (upd_file i (\<lambda>f. f\<lparr>fref := 1\<rparr>)))
          (kthen (release LkFtable) (ret (Some i)))
      | None \<Rightarrow> kthen (release LkFtable) (ret None)))"

definition filedup :: "nat \<Rightarrow> (nat, 'z ftable_scheme) km" where
  "filedup i =
     kthen (acquire LkFtable)
     (kbind (kget (\<lambda>s. fref (files s ! i))) (\<lambda>r.
      if r < 1 then panic ''filedup''
      else
        kthen (kmod (upd_file i (\<lambda>f. f\<lparr>fref := fref f + 1\<rparr>)))
        (kthen (release LkFtable) (ret i))))"

definition fileclose :: "nat \<Rightarrow> (unit, 'z ftable_scheme) km" where
  "fileclose i =
     kthen (acquire LkFtable)
     (kbind (kget (\<lambda>s. fref (files s ! i))) (\<lambda>r.
      if r < 1 then panic ''fileclose''
      else
        kthen (kmod (upd_file i (\<lambda>f. f\<lparr>fref := fref f - 1\<rparr>)))
        (if r - 1 > 0 then release LkFtable
         else
           kbind (kget (\<lambda>s. files s ! i)) (\<lambda>ff.
           kthen (kmod (upd_file i (\<lambda>f. f\<lparr>fref := 0, ftype := FD_NONE\<rparr>)))
           (kthen (release LkFtable)
           (if ftype ff = FD_PIPE then pipeclose (fpipe ff) (writable ff)
            else if ftype ff = FD_INODE then
              kthen begin_op (kthen (iput (fip ff)) end_op)
            else ret ()))))))"

definition filestat :: "nat \<Rightarrow> (int \<times> stat option, 'z ftable_scheme) km" where
  "filestat i =
     kbind (kget (\<lambda>s. files s ! i)) (\<lambda>f.
     if ftype f = FD_INODE then
       kthen (ilock (fip f))
       (kbind (stati (fip f)) (\<lambda>st.
        kthen (iunlock (fip f)) (ret (0, Some st))))
     else ret (- 1, None))"

text \<open>The result and the bytes stored at \<^verbatim>\<open>addr\<close>.\<close>

definition fileread :: "nat \<Rightarrow> int \<Rightarrow> (int \<times> u8 list, 'z ftable_scheme) km" where
  "fileread i n =
     kbind (kget (\<lambda>s. files s ! i)) (\<lambda>f.
     if \<not> readable f then ret (- 1, [])
     else if ftype f = FD_PIPE then piperead (fpipe f) n
     else if ftype f = FD_INODE then
       kthen (ilock (fip f))
       (kbind (kget (\<lambda>s. foff (files s ! i))) (\<lambda>off.
        kbind (readi (fip f) off (word_of_int n)) (\<lambda>(r, bs).
        kthen (kwhen (r > 0) (kmod (upd_file i (\<lambda>f. f\<lparr>foff := foff f + word_of_int r\<rparr>))))
        (kthen (iunlock (fip f)) (ret (r, bs))))))
     else panic ''fileread'')"

definition WRITE_MAX :: nat where
  "WRITE_MAX = (LOGSIZE - 1 - 1 - 2) div 2 * 512"

text \<open>
  The loop of \<^verbatim>\<open>filewrite\<close> over the bytes not yet written; \<open>nw\<close> is \<^verbatim>\<open>i\<close>.  The caller's buffer is given by its
  bytes, so \<^verbatim>\<open>n\<close> is their number (\<^verbatim>\<open>sys_write\<close> rejects a negative one before the call).
\<close>

function filewrite_loop :: "nat \<Rightarrow> nat \<Rightarrow> u8 list \<Rightarrow> (nat, 'z ftable_scheme) km" where
  "filewrite_loop i nw src =
     (if src = [] then ret nw
      else
        let n1 = min WRITE_MAX (length src) in
        kbind (kget (\<lambda>s. fip (files s ! i))) (\<lambda>ip.
        kthen begin_op
        (kthen (ilock ip)
        (kbind (kget (\<lambda>s. foff (files s ! i))) (\<lambda>off.
         kbind (writei ip (take n1 src) off (word_of_nat n1)) (\<lambda>r.
         kthen (kwhen (r > 0) (kmod (upd_file i (\<lambda>f. f\<lparr>foff := foff f + word_of_int r\<rparr>))))
         (kthen (iunlock ip)
         (kthen end_op
         (if r < 0 then ret nw
          else if r \<noteq> int n1 then panic ''short filewrite''
          else filewrite_loop i (nw + n1) (drop n1 src))))))))))"
  by pat_completeness auto
termination
  by (relation "measure (\<lambda>(i, nw, src). length src)") (auto simp: WRITE_MAX_def LOGSIZE_def)

declare filewrite_loop.simps [simp del]

definition filewrite :: "nat \<Rightarrow> u8 list \<Rightarrow> (int, 'z ftable_scheme) km" where
  "filewrite i src =
     kbind (kget (\<lambda>s. files s ! i)) (\<lambda>f.
     if \<not> writable f then ret (- 1)
     else if ftype f = FD_PIPE then pipewrite (fpipe f) src
     else if ftype f = FD_INODE then
       kbind (filewrite_loop i 0 src) (\<lambda>k. ret (if k = length src then int (length src) else - 1))
     else panic ''filewrite'')"

text \<open>\<^verbatim>\<open>pipealloc\<close>: the read end and the write end, or \<open>None\<close> for -1.\<close>

definition pipealloc :: "((nat \<times> nat) option, 'z ftable_scheme) km" where
  "pipealloc =
     kbind filealloc (\<lambda>f0.
     case f0 of
       None \<Rightarrow> ret None
     | Some a \<Rightarrow>
         kbind filealloc (\<lambda>f1.
         case f1 of
           None \<Rightarrow> kthen (fileclose a) (ret None)
         | Some b \<Rightarrow>
             kbind kalloc (\<lambda>p.
             if p = 0 then kthen (fileclose a) (kthen (fileclose b) (ret None))
             else
               kthen (kmod (upd_pipe p (\<lambda>q. q\<lparr>readopen := True, writeopen := True, nwrite := 0, nread := 0\<rparr>)))
               (kthen (initlock (LkPipe p) ''pipe'')
               (kthen (kmod (upd_file a (\<lambda>f. f\<lparr>ftype := FD_PIPE, readable := True, writable := False, fpipe := p\<rparr>)))
               (kthen (kmod (upd_file b (\<lambda>f. f\<lparr>ftype := FD_PIPE, readable := False, writable := True, fpipe := p\<rparr>)))
                (ret (Some (a, b)))))))))"

end
