(* ===== verification/Syscall_Args.thy ===== *)
theory Syscall_Args
  imports Proc
begin

text \<open>
  Fetching system call arguments (\<^verbatim>\<open>syscall.c\<close>).  The arguments lie on the user stack, at the address the trap frame
  has saved; the kernel reads them through the page table of the running process.  An option value is the C result:
  \<open>None\<close> is -1 with nothing stored at the destination.
\<close>

section \<open>Trap frame\<close>

text \<open>Offsets of the fields of \<^verbatim>\<open>struct trapframe\<close>.\<close>

definition TF_EAX :: u32 where "TF_EAX = 28"
definition TF_ES :: u32 where "TF_ES = 40"
definition TF_DS :: u32 where "TF_DS = 44"
definition TF_TRAPNO :: u32 where "TF_TRAPNO = 48"
definition TF_ERR :: u32 where "TF_ERR = 52"
definition TF_EIP :: u32 where "TF_EIP = 56"
definition TF_CS :: u32 where "TF_CS = 60"
definition TF_EFLAGS :: u32 where "TF_EFLAGS = 64"
definition TF_ESP :: u32 where "TF_ESP = 68"
definition TF_SS :: u32 where "TF_SS = 72"

section \<open>Operations\<close>

definition fetchint :: "u32 \<Rightarrow> (u32 option, 'z ptable_scheme) km" where
  "fetchint addr =
     with_proc (\<lambda>p.
     kbind (kget (\<lambda>s. sz (procs s ! p))) (\<lambda>n.
     if addr \<ge> n \<or> addr + 4 > n then ret None
     else kbind (user_rd32 addr) (\<lambda>v. ret (Some v))))"

text \<open>The scan for the terminating zero: the bytes before it, or \<open>None\<close> if there is none below \<open>ep\<close>.\<close>

function fetchstr_loop :: "u32 \<Rightarrow> u32 \<Rightarrow> (u8 list option, 'z vm_scheme) km" where
  "fetchstr_loop a ep =
     (if a < ep then
        kbind (user_rd8 a) (\<lambda>c.
        if c = 0 then ret (Some [])
        else kbind (fetchstr_loop (a + 1) ep) (\<lambda>r. ret (map_option (\<lambda>cs. c # cs) r)))
      else ret None)"
  by pat_completeness auto
termination
proof (relation "measure (\<lambda>(a, ep). unat ep - unat a)", simp, goal_cases)
  case (1 a ep x)
  then have "unat a < unat ep" by (simp add: word_less_nat_alt)
  then have "unat (a + 1) = Suc (unat a)" using unat_u32_less[of ep] by (simp add: unat_word_ariths)
  then show ?case using \<open>unat a < unat ep\<close> by simp
qed

declare fetchstr_loop.simps [simp del]

text \<open>The value stored at \<^verbatim>\<open>*pp\<close>, if one is stored, and the string; its length is the C result, \<open>None\<close> is -1.\<close>

definition fetchstr :: "u32 \<Rightarrow> (u32 option \<times> u8 list option, 'z ptable_scheme) km" where
  "fetchstr addr =
     with_proc (\<lambda>p.
     kbind (kget (\<lambda>s. sz (procs s ! p))) (\<lambda>n.
     if addr \<ge> n then ret (None, None)
     else kbind (fetchstr_loop addr n) (\<lambda>r. ret (Some addr, r))))"

definition argint :: "u32 \<Rightarrow> (u32 option, 'z ptable_scheme) km" where
  "argint n =
     with_proc (\<lambda>p.
     kbind (kget (\<lambda>s. tf (procs s ! p))) (\<lambda>t.
     kbind (rd32 (t + TF_ESP)) (\<lambda>esp.
     fetchint (esp + 4 + 4 * n))))"

definition argptr :: "u32 \<Rightarrow> u32 \<Rightarrow> (u32 option, 'z ptable_scheme) km" where
  "argptr n len =
     kbind (argint n) (\<lambda>r.
     case r of
       None \<Rightarrow> ret None
     | Some i \<Rightarrow>
         with_proc (\<lambda>p.
         kbind (kget (\<lambda>s. sz (procs s ! p))) (\<lambda>lim.
         if sint len < 0 \<or> i \<ge> lim \<or> i + len > lim then ret None else ret (Some i))))"

definition argArray :: "u32 \<Rightarrow> u32 \<Rightarrow> (u32 option, 'z ptable_scheme) km" where
  "argArray n len =
     kbind (argint n) (\<lambda>r.
     case r of
       None \<Rightarrow> ret None
     | Some i \<Rightarrow>
         with_proc (\<lambda>p.
         kbind (kget (\<lambda>s. sz (procs s ! p))) (\<lambda>lim.
         if sint len < 0 \<or> i \<ge> lim \<or> i + len > lim then ret None else ret (Some i))))"

definition argstr :: "u32 \<Rightarrow> (u32 option \<times> u8 list option, 'z ptable_scheme) km" where
  "argstr n =
     kbind (argint n) (\<lambda>r.
     case r of None \<Rightarrow> ret (None, None) | Some addr \<Rightarrow> fetchstr addr)"

text \<open>The string of \<^verbatim>\<open>argstr\<close>, for the callers that give up on -1.\<close>

abbreviation str_arg :: "u32 \<Rightarrow> (u8 list option, 'z ptable_scheme) km" where
  "str_arg n \<equiv> kbind (argstr n) (\<lambda>(_, cs). ret cs)"

section \<open>Arguments stay inside the process\<close>

lemma user_rd8_Ret: "user_rd8 a s = Ret c t \<longleftrightarrow> t = s \<and> (\<exists>b. mmu s False a = Some b \<and> c = mem s b)"
  by (auto simp: user_rd8_def keval split: option.splits)

lemma user_rd_state: "user_rd a n s = Ret bs t \<Longrightarrow> t = s \<and> length bs = n"
  by (induction n arbitrary: a bs) (auto simp: keval user_rd8_Ret split: outcome.splits)

lemma fetchint_state: "fetchint a s = Ret r t \<Longrightarrow> t = s"
  by (auto simp: fetchint_def with_proc_def user_rd32_def keval split: option.splits if_splits outcome.splits dest: user_rd_state)

lemma argint_state: "argint n s = Ret r t \<Longrightarrow> t = s"
  by (auto simp: argint_def with_proc_def rd32_def keval split: option.splits dest: fetchint_state)

lemma fetchstr_loop_Some:
  "fetchstr_loop a ep s = Ret r t \<Longrightarrow>
     t = s \<and> (\<forall>cs. r = Some cs \<longrightarrow> unat a + length cs < unat ep \<and> 0 \<notin> set cs \<and> user_rd a (Suc (length cs)) s = Ret (cs @ [0]) s)"
proof (induction a ep arbitrary: r rule: fetchstr_loop.induct)
  case (1 a ep)
  show ?case
  proof (cases "a < ep")
    case False
    then show ?thesis using 1(2) by (simp add: fetchstr_loop.simps[of a])
  next
    case True
    then have n: "unat (a + 1) = Suc (unat a)" and l: "unat a < unat ep"
      using unat_u32_less[of ep] by (simp_all add: unat_word_ariths word_less_nat_alt)
    from 1(2) True obtain c where c: "user_rd8 a s = Ret c s"
      by (auto simp: fetchstr_loop.simps[of a] keval user_rd8_Ret split: outcome.splits)
    show ?thesis
    proof (cases "c = 0")
      case True
      then show ?thesis using 1(2) \<open>a < ep\<close> c l by (auto simp: fetchstr_loop.simps[of a] keval)
    next
      case False
      with 1(2) \<open>a < ep\<close> c obtain q where "fetchstr_loop (a + 1) ep s = Ret q t" "r = map_option ((#) c) q"
        by (auto simp: fetchstr_loop.simps[of a] keval split: outcome.splits)
      then show ?thesis using 1(1)[OF \<open>a < ep\<close> False, of q] c n False by (auto simp: keval)
    qed
  qed
qed

text \<open>C26. The pointers and lengths that pass the checks of \<^verbatim>\<open>argptr\<close> describe a block that lies inside the memory of the
  process, without wrap-around; the check itself changes nothing.\<close>

theorem argptr_in_process:
  assumes "curproc s = Some p" and "sz (procs s ! p) \<le> KERNBASE" and "argptr n len s = Ret (Some a) t"
  shows "t = s \<and> 0 \<le> sint len \<and> unat a + unat len \<le> unat (sz (procs s ! p))"
proof -
  from assms(3) obtain r u where r: "argint n s = Ret r u" by (auto simp: argptr_def keval split: outcome.splits)
  with argint_state have "u = s" by blast
  with assms(1,3) r have g: "t = s" "\<not> sint len < 0" "a < sz (procs s ! p)" "a + len \<le> sz (procs s ! p)"
    by (auto simp: argptr_def with_proc_def keval split: option.splits if_splits)
  have k: "unat (sz (procs s ! p)) \<le> 2 ^ 31" using assms(2) by (simp add: word_le_nat_alt KERNBASE_def)
  have "unat len = nat (sint len)" using g(2) by (intro unat_nonnegative) simp
  then have "unat len < 2 ^ 31" using sint_lt[of len] by simp
  moreover have "unat a < 2 ^ 31" using g(3) k by (simp add: word_less_nat_alt)
  ultimately have "unat (a + len) = unat a + unat len" by (simp add: unat_word_ariths)
  then show ?thesis using g by (simp add: word_le_nat_alt)
qed

text \<open>A process whose stack at address 8 holds a return address and the argument 16, a pointer to the string \<open>ab\<close>.\<close>

definition user_stack :: ptable where
  "user_stack = (one_running Q3)\<lparr>
     mem := put_bytes (store32 (store32 (store32 (store32 (\<lambda>_. 0) 0x80001000 0x2007) 0x80002000 0x3007) 0x80004044 8) 0x8000300C 16)
       0x80003010 [97, 98, 0],
     cr3 := \<lambda>_. 0x1000,
     procs := [idle_proc\<lparr>state := RUNNING, sz := 4096, tf := 0x80004000\<rparr>]\<rparr>"

text \<open>C27. A string argument is what the process has in memory: \<^verbatim>\<open>argstr\<close> returns the length of the string at the pointer it
  stores, the string has no zero inside and a zero behind it, and string and terminator lie inside the process.\<close>

theorem argstr_is_string:
  assumes "curproc s = Some p" and "argstr n s = Ret (x, Some cs) t"
  shows "t = s \<and> (\<exists>a. x = Some a \<and> unat a + length cs < unat (sz (procs s ! p)) \<and> 0 \<notin> set cs \<and>
     user_rd a (Suc (length cs)) s = Ret (cs @ [0]) s)"
proof -
  from assms(2) obtain r u where r: "argint n s = Ret r u" by (auto simp: argstr_def keval split: outcome.splits)
  with argint_state have "u = s" by blast
  with assms r obtain a where "x = Some a" "fetchstr_loop a (sz (procs s ! p)) s = Ret (Some cs) t"
    by (auto simp: argstr_def fetchstr_def with_proc_def keval split: option.splits if_splits outcome.splits)
  then show ?thesis using fetchstr_loop_Some[of a "sz (procs s ! p)" s "Some cs" t] by simp
qed

lemma user_stack_mmu:
  assumes "va \<in> {12, 13, 14, 15, 16, 17, 18}"
  shows "mmu user_stack False va = Some (0x80003000 + va)"
proof -
  have "load32 (mem user_stack) 0x80001000 = 0x2007" "load32 (mem user_stack) 0x80002000 = 0x3007"
    by (simp_all add: user_stack_def load32_def store32_def byte_of_def join32_def)
  then show ?thesis using assms
    by (auto simp: mmu_def user_stack_def P2V_def KERNBASE_def PTE_P_def PTE_ADDR_def PDX_def PTX_def)
qed

lemma user_stack_mem:
  "mem user_stack 0x8000300C = 16" "mem user_stack 0x8000300D = 0" "mem user_stack 0x8000300E = 0" "mem user_stack 0x8000300F = 0"
  "mem user_stack 0x80003010 = 97" "mem user_stack 0x80003011 = 98" "mem user_stack 0x80003012 = 0"
  "load32 (mem user_stack) 0x80004044 = 8"
  by (simp_all add: user_stack_def load32_def store32_def byte_of_def join32_def)

lemma user_stack_proc:
  "curproc user_stack = Some 0" "procs user_stack = [idle_proc\<lparr>state := RUNNING, sz := 4096, tf := 0x80004000\<rparr>]"
  by (simp_all add: user_stack_def one_running_def)

lemmas user_stack_simps = user_stack_mmu user_stack_mem user_stack_proc

lemma user_rd_4: "user_rd a 4 = user_rd a (Suc (Suc (Suc (Suc 0))))"
  by (rule arg_cong[of _ _ "user_rd a"]) simp

lemma user_stack_argint: "argint 0 user_stack = Ret (Some 16) user_stack"
  by (simp add: argint_def fetchint_def with_proc_def rd32_def user_rd32_def user_rd_4 user_rd8_def keval
    get32_def join32_def TF_ESP_def user_stack_simps)

lemma user_stack_scan: "fetchstr_loop 16 4096 user_stack = Ret (Some [97, 98]) user_stack"
  by (simp add: fetchstr_loop.simps[of 16] fetchstr_loop.simps[of 17] fetchstr_loop.simps[of 18] user_rd8_def keval user_stack_simps)

theorem argptr_in_process_witness:
  "curproc user_stack = Some 0 \<and> sz (procs user_stack ! 0) \<le> KERNBASE \<and> argptr 0 4 user_stack = Ret (Some 16) user_stack \<and>
   unat (16 :: u32) + unat (4 :: u32) \<le> unat (sz (procs user_stack ! 0))"
proof -
  have a: "argptr 0 4 user_stack = Ret (Some 16) user_stack"
    by (simp add: argptr_def keval user_stack_argint with_proc_def user_stack_proc)
  have k: "sz (procs user_stack ! 0) \<le> KERNBASE" by (simp add: user_stack_proc KERNBASE_def)
  show ?thesis using argptr_in_process[OF user_stack_proc(1) k a] a k user_stack_proc(1) by blast
qed

theorem argstr_is_string_witness:
  "curproc user_stack = Some 0 \<and> argstr 0 user_stack = Ret (Some 16, Some [97, 98]) user_stack \<and>
   user_rd 16 3 user_stack = Ret [97, 98, 0] user_stack"
proof -
  have a: "argstr 0 user_stack = Ret (Some 16, Some [97, 98]) user_stack"
    by (simp add: argstr_def fetchstr_def keval user_stack_argint user_stack_scan with_proc_def user_stack_proc)
  show ?thesis using argstr_is_string[OF user_stack_proc(1) a] a user_stack_proc(1)
    by (simp add: numeral_3_eq_3 del: user_rd.simps)
qed

end
