(* ===== verification/Proc_Life.thy ===== *)
theory Proc_Life
  imports File Syscall_Args
begin

text \<open>
  The life of a process (\<^verbatim>\<open>proc.c\<close>): \<^verbatim>\<open>userinit\<close>, \<^verbatim>\<open>fork\<close>, \<^verbatim>\<open>exit\<close>, \<^verbatim>\<open>wait\<close> and \<^verbatim>\<open>forkret\<close>, over the process table, the
  page tables, the open files and the inode cache.  \<open>forkret_first\<close> is the static variable \<^verbatim>\<open>first\<close> of \<^verbatim>\<open>forkret\<close>;
  \<open>initcode_start\<close> and \<open>initcode_size\<close> are the linker symbols of the first program.  \<open>lapic\<close> is
  the address of the local interrupt controller (0 if there is none) and \<open>lapic_writes\<close> the register writes it has
  seen, as index and value.  A store past the end of one of
  the 64 element child tables is a fault.
\<close>

section \<open>State\<close>

definition NOFILE :: nat where "NOFILE = 16"

record kernel = ftable +
  forkret_first :: bool
  initcode_start :: u32
  initcode_size :: u32
  lapic :: u32
  lapic_writes :: "(u32 \<times> u32) list"

definition SEG_UCODE :: u16 where "SEG_UCODE = 4"
definition SEG_UDATA :: u16 where "SEG_UDATA = 5"
definition DPL_USER :: u16 where "DPL_USER = 3"
definition FL_IF :: u32 where "FL_IF = 0x200"

definition wr16 :: "u32 \<Rightarrow> u16 \<Rightarrow> (unit, 'z kmem_scheme) km" where
  "wr16 a v = kmod (\<lambda>s. s\<lparr>mem := put_bytes (mem s) a (le16 v)\<rparr>)"

section \<open>Creation\<close>

definition userinit :: "(unit, 'z kernel_scheme) km" where
  "userinit =
     kbind allocproc (\<lambda>np.
     case np of
       None \<Rightarrow> fault ''allocproc''
     | Some p \<Rightarrow>
         kthen (kmod (\<lambda>s. s\<lparr>initproc := Some p\<rparr>))
         (kbind setupkvm (\<lambda>d.
          kthen (kmod (upd_proc p (\<lambda>q. q\<lparr>pgdir := d\<rparr>)))
         (if d = 0 then panic ''user init: out of memory?''
          else
            kbind (kget (\<lambda>s. (initcode_start s, initcode_size s))) (\<lambda>(code, len).
            kthen (inituvm d code len)
           (kthen (kmod (upd_proc p (\<lambda>q. q\<lparr>sz := PGSIZE\<rparr>)))
           (kbind (kget (\<lambda>s. tf (procs s ! p))) (\<lambda>t.
            kthen (kmod (\<lambda>s. s\<lparr>mem := memset (mem s) t 0 TRAPFRAME_SIZE\<rparr>))
           (kthen (wr16 (t + TF_CS) (push_bit 3 SEG_UCODE OR DPL_USER))
           (kthen (wr16 (t + TF_DS) (push_bit 3 SEG_UDATA OR DPL_USER))
           (kthen (wr16 (t + TF_ES) (push_bit 3 SEG_UDATA OR DPL_USER))
           (kthen (wr16 (t + TF_SS) (push_bit 3 SEG_UDATA OR DPL_USER))
           (kthen (wr32 (t + TF_EFLAGS) FL_IF)
           (kthen (wr32 (t + TF_ESP) PGSIZE)
           (kthen (wr32 (t + TF_EIP) 0)
           (kthen (kmod (upd_proc p (\<lambda>q. q\<lparr>pname := patch 0 (safestrcpy (view (bytes ''initcode'')) 16) (pname q)\<rparr>)))
           (kbind (namei (bytes ''/'')) (\<lambda>ip.
            kthen (kmod (upd_proc p (\<lambda>q. q\<lparr>cwd := ip\<rparr>)))
           (kthen (acquire LkPtable)
           (kthen (kmod (upd_proc p (\<lambda>q. q\<lparr>state := RUNNABLE\<rparr>)))
            (release LkPtable)))))))))))))))))))))"

text \<open>The copying of the open files from process \<open>c\<close> to process \<open>np\<close>.\<close>

definition fork_files :: "nat \<Rightarrow> nat \<Rightarrow> (unit, 'z kernel_scheme) km" where
  "fork_files c np =
     kfor [0..<NOFILE] (\<lambda>i.
       kbind (kget (\<lambda>s. ofile (procs s ! c) ! i)) (\<lambda>f.
       case f of
         None \<Rightarrow> ret ()
       | Some k \<Rightarrow>
           kbind (filedup k) (\<lambda>k.
           kmod (upd_proc np (\<lambda>q. q\<lparr>ofile := (ofile q)[i := Some k]\<rparr>)))))"

definition fork :: "(int, 'z kernel_scheme) km" where
  "fork =
     kbind allocproc (\<lambda>found.
     case found of
       None \<Rightarrow> ret (- 1)
     | Some np \<Rightarrow>
         with_proc (\<lambda>c.
         kbind (kget (\<lambda>s. procs s ! c)) (\<lambda>cur.
         kbind (copyuvm (pgdir cur) (sz cur)) (\<lambda>d.
         kthen (kmod (upd_proc np (\<lambda>q. q\<lparr>pgdir := d\<rparr>)))
        (if d = 0 then
           kbind (kget (\<lambda>s. kstack (procs s ! np))) (\<lambda>k.
           kthen (kfree k)
          (kthen (kmod (upd_proc np (\<lambda>q. q\<lparr>kstack := 0, state := UNUSED\<rparr>)))
           (ret (- 1))))
         else
           kthen (kmod (upd_proc np (\<lambda>q. q\<lparr>sz := sz cur, parent := Some c\<rparr>)))
          (kbind (kget (\<lambda>s. tf (procs s ! np))) (\<lambda>t.
           kthen (kmod (\<lambda>s. s\<lparr>mem := memmove (mem s) t (tf cur) TRAPFRAME_SIZE\<rparr>))
          (kthen (wr32 (t + TF_EAX) 0)
          (kthen (fork_files c np)
          (case cwd cur of
             None \<Rightarrow> fault ''idup''
           | Some ip \<Rightarrow>
               kbind (idup ip) (\<lambda>ip.
               kthen (kmod (upd_proc np (\<lambda>q. q\<lparr>cwd := Some ip,
                        pname := patch 0 (safestrcpy (view (pname cur)) 16) (pname q)\<rparr>)))
              (kbind (kget (\<lambda>s. pid (procs s ! np))) (\<lambda>n.
               kthen (acquire LkPtable)
              (kthen (kmod (upd_proc np (\<lambda>q. q\<lparr>state := RUNNABLE\<rparr>)))
              (kthen (release LkPtable)
               (ret n))))))))))))))))"

text \<open>The first scheduling of a new process.\<close>

definition forkret :: "(unit, 'z kernel_scheme) km" where
  "forkret =
     kthen (release LkPtable)
     (kbind (kget forkret_first) (\<lambda>f.
      kwhen f
        (kthen (kmod (\<lambda>s. s\<lparr>forkret_first := False\<rparr>))
        (kthen (iinit ROOTDEV)
         (initlog ROOTDEV)))))"

section \<open>Exit and wait\<close>

definition close_all :: "nat \<Rightarrow> (unit, 'z kernel_scheme) km" where
  "close_all c =
     kfor [0..<NOFILE] (\<lambda>fd.
       kbind (kget (\<lambda>s. ofile (procs s ! c) ! fd)) (\<lambda>f.
       case f of
         None \<Rightarrow> ret ()
       | Some k \<Rightarrow>
           kthen (fileclose k)
           (kmod (upd_proc c (\<lambda>q. q\<lparr>ofile := (ofile q)[fd := None]\<rparr>)))))"

text \<open>The times and the priority of the exiting process, stored in the tables of its parent.\<close>

definition record_child :: "nat \<Rightarrow> nat \<Rightarrow> (unit, 'z ptable_scheme) km" where
  "record_child c par =
     kbind (kget (\<lambda>s. allChildSize (procs s ! par))) (\<lambda>n.
     if n \<ge> 64 then fault ''childRTime''
     else kmod (\<lambda>s.
       let q = procs s ! c in
       upd_proc par (\<lambda>r. r\<lparr>childRTime := (childRTime r)[n := rtime q], childCTime := (childCTime r)[n := ctime q],
         childETime := (childETime r)[n := ticks s], childPiority := (childPiority r)[n := piority q],
         allChildSize := n + 1\<rparr>) s))"

text \<open>The loop that passes the children of \<open>c\<close> to the first process.\<close>

definition reparent :: "nat \<Rightarrow> (unit, 'z ptable_scheme) km" where
  "reparent c =
     kbind (kget initproc) (\<lambda>ini.
     kfor [0..<NPROC] (\<lambda>i.
       kbind (kget (\<lambda>s. procs s ! i)) (\<lambda>q.
       kwhen (parent q = Some c)
         (kthen (kmod (upd_proc i (\<lambda>q. q\<lparr>parent := ini\<rparr>)))
         (kwhen (state q = ZOMBIE)
           (case ini of None \<Rightarrow> ret () | Some p \<Rightarrow> wakeup1 (ChProc p)))))))"

definition exit_locked :: "nat \<Rightarrow> (unit, 'z ptable_scheme) km" where
  "exit_locked c =
     kbind (kget (\<lambda>s. parent (procs s ! c))) (\<lambda>par.
     case par of
       None \<Rightarrow> fault ''proc->parent''
     | Some par \<Rightarrow>
         kthen (record_child c par)
        (kthen (wakeup1 (ChProc par))
        (kthen (reparent c)
        (kthen (kmod (\<lambda>s. upd_proc c (\<lambda>q. q\<lparr>state := ZOMBIE, etime := ticks s\<rparr>) s))
        (kthen sched
         (panic ''zombie exit\<newline>''))))))"

definition exit :: "(unit, 'z kernel_scheme) km" where
  "exit =
     with_proc (\<lambda>c.
     kbind (kget initproc) (\<lambda>ini.
     if ini = Some c then panic ''init exiting''
     else
       kthen (close_all c)
      (kthen begin_op
      (kbind (kget (\<lambda>s. cwd (procs s ! c))) (\<lambda>d.
       case d of
         None \<Rightarrow> fault ''iput''
       | Some ip \<Rightarrow>
           kthen (iput ip)
          (kthen end_op
          (kthen (kmod (upd_proc c (\<lambda>q. q\<lparr>cwd := None\<rparr>)))
          (kthen (acquire LkPtable)
           (exit_locked c)))))))))"

definition reap :: "nat \<Rightarrow> (int, 'z ptable_scheme) km" where
  "reap i =
     kbind (kget (\<lambda>s. procs s ! i)) (\<lambda>q.
     kthen (kfree (kstack q))
    (kthen (kmod (upd_proc i (\<lambda>q. q\<lparr>kstack := 0\<rparr>)))
    (kthen (freevm (pgdir q))
    (kthen (kmod (upd_proc i (\<lambda>q. q\<lparr>pid := 0, parent := None, pname := (pname q)[0 := 0], killed := False, state := UNUSED\<rparr>)))
    (kthen (release LkPtable)
     (ret (pid q)))))))"

text \<open>The scan for exited children: whether there are children, and the process identifier of one that was reaped.\<close>

fun wait_scan :: "nat \<Rightarrow> bool \<Rightarrow> nat list \<Rightarrow> (bool \<times> int option, 'z ptable_scheme) km" where
  "wait_scan c havekids [] = ret (havekids, None)"
| "wait_scan c havekids (i # is) =
     kbind (kget (\<lambda>s. procs s ! i)) (\<lambda>q.
     if parent q \<noteq> Some c then wait_scan c havekids is
     else if state q = ZOMBIE then kbind (reap i) (\<lambda>n. ret (True, Some n))
     else wait_scan c True is)"

text \<open>One round of the loop of \<^verbatim>\<open>wait\<close>, with the table lock held; a process that sleeps is at its head again when it
  resumes.\<close>

definition wait_round :: "nat \<Rightarrow> (int, 'z ptable_scheme) km" where
  "wait_round c =
     kbind (wait_scan c False [0..<NPROC]) (\<lambda>(havekids, r).
     case r of
       Some n \<Rightarrow> ret n
     | None \<Rightarrow>
         kbind (kget (\<lambda>s. killed (procs s ! c))) (\<lambda>k.
         if \<not> havekids \<or> k then kthen (release LkPtable) (ret (- 1))
         else wait_on (ChProc c) LkPtable))"

definition wait :: "(int, 'z ptable_scheme) km" where
  "wait = kthen (acquire LkPtable) (with_proc wait_round)"

end
