(* ===== verification/Exec.thy ===== *)
theory Exec
  imports Proc_Life
begin

text \<open>
  Program loading: \<^verbatim>\<open>loaduvm\<close> of \<^verbatim>\<open>vm.c\<close> and \<^verbatim>\<open>exec.c\<close>.  The path and the argument strings are given by their bytes.
  The fields of the ELF headers are read at the offsets of \<^verbatim>\<open>elf.h\<close>.
\<close>

section \<open>ELF\<close>

definition ELF_MAGIC :: u32 where "ELF_MAGIC = 0x464C457F"
definition ELF_PROG_LOAD :: u32 where "ELF_PROG_LOAD = 1"
definition ELFHDR_SIZE :: nat where "ELFHDR_SIZE = 52"
definition PROGHDR_SIZE :: nat where "PROGHDR_SIZE = 32"
definition MAXARG :: nat where "MAXARG = 32"

record elfhdr =
  magic :: u32
  entry :: u32
  phoff :: u32
  phnum :: u16

definition elf_of :: "u8 list \<Rightarrow> elfhdr" where
  "elf_of b = \<lparr>magic = get32 b 0, entry = get32 b 24, phoff = get32 b 28, phnum = get16 b 44\<rparr>"

record proghdr =
  ph_type :: u32
  ph_off :: u32
  vaddr :: u32
  filesz :: u32
  memsz :: u32

definition ph_of :: "u8 list \<Rightarrow> proghdr" where
  "ph_of b = \<lparr>ph_type = get32 b 0, ph_off = get32 b 4, vaddr = get32 b 8, filesz = get32 b 16, memsz = get32 b 20\<rparr>"

section \<open>Loading\<close>

function loaduvm_loop :: "u32 \<Rightarrow> u32 \<Rightarrow> nat \<Rightarrow> u32 \<Rightarrow> u32 \<Rightarrow> u32 \<Rightarrow> (int, 'z devs_scheme) km" where
  "loaduvm_loop dir addr ip offset i len =
     (if i < len then
        if unat i + 4096 \<ge> 2 ^ 32 then fault ''address wraps''
        else
          kbind (walkpgdir dir (addr + i) False) (\<lambda>pte.
          if pte = 0 then panic ''loaduvm: address should exist''
          else
            kbind (rd32 pte) (\<lambda>e.
            let pa = PTE_ADDR e; n = (if len - i < PGSIZE then len - i else PGSIZE) in
            kbind (readi ip (offset + i) n) (\<lambda>(r, bs).
            kthen (kmod (\<lambda>s. s\<lparr>mem := put_bytes (mem s) (P2V pa) bs\<rparr>))
            (if word_of_int r \<noteq> n then ret (- 1)
             else loaduvm_loop dir addr ip offset (i + PGSIZE) len))))
      else ret 0)"
  by pat_completeness auto
termination
  by (relation "measure (\<lambda>(dir, addr, ip, offset, i, len). 2 ^ 32 - unat i)")
    (auto simp: PGSIZE_def unat_word_ariths)

declare loaduvm_loop.simps [simp del]

definition loaduvm :: "u32 \<Rightarrow> u32 \<Rightarrow> nat \<Rightarrow> u32 \<Rightarrow> u32 \<Rightarrow> (int, 'z devs_scheme) km" where
  "loaduvm dir addr ip offset len =
     (if addr mod PGSIZE \<noteq> 0 then panic ''loaduvm: addr must be page aligned''
      else loaduvm_loop dir addr ip offset 0 len)"

text \<open>The loop over the program headers, with \<open>n\<close> of them left: the size of the image, or \<open>None\<close> for \<^verbatim>\<open>goto bad\<close>.\<close>

fun exec_load :: "u32 \<Rightarrow> nat \<Rightarrow> u32 \<Rightarrow> u32 \<Rightarrow> nat \<Rightarrow> (u32 option, 'z devs_scheme) km" where
  "exec_load d ip off img 0 = ret (Some img)"
| "exec_load d ip off img (Suc n) =
     kbind (readi ip off (word_of_nat PROGHDR_SIZE)) (\<lambda>(r, bs).
     if r \<noteq> int PROGHDR_SIZE then ret None
     else
       let ph = ph_of bs in
       if ph_type ph \<noteq> ELF_PROG_LOAD then exec_load d ip (off + word_of_nat PROGHDR_SIZE) img n
       else if memsz ph < filesz ph then ret None
       else if vaddr ph + memsz ph < vaddr ph then ret None
       else
         kbind (allocuvm d img (vaddr ph + memsz ph)) (\<lambda>top.
         if top = 0 then ret None
         else if vaddr ph mod PGSIZE \<noteq> 0 then ret None
         else
           kbind (loaduvm d (vaddr ph) ip (ph_off ph) (filesz ph)) (\<lambda>l.
           if l < 0 then ret None
           else exec_load d ip (off + word_of_nat PROGHDR_SIZE) top n)))"

text \<open>The loop over the arguments: the stack pointer and the entries of \<^verbatim>\<open>ustack\<close> for them.\<close>

fun exec_push :: "u32 \<Rightarrow> nat \<Rightarrow> u32 \<Rightarrow> u8 list list \<Rightarrow> ((u32 \<times> u32 list) option, 'z kmem_scheme) km" where
  "exec_push d argc sp [] = ret (Some (sp, []))"
| "exec_push d argc sp (a # as) =
     (if argc \<ge> MAXARG then ret None
      else
        let sp' = (sp - (word_of_nat (length a) + 1)) AND NOT 3 in
        kbind (copyout d sp' (a @ [0])) (\<lambda>r.
        if r < 0 then ret None
        else kbind (exec_push d (Suc argc) sp' as) (\<lambda>r. ret (map_option (\<lambda>(s', us). (s', sp' # us)) r))))"

text \<open>The last element of the path.\<close>

definition exec_name :: "u8 list \<Rightarrow> u8 list" where
  "exec_name path = rev (takeWhile (\<lambda>c. c \<noteq> 47) (rev path))"

text \<open>The label \<^verbatim>\<open>bad\<close>.\<close>

definition exec_bad :: "u32 \<Rightarrow> nat option \<Rightarrow> (int, 'z devs_scheme) km" where
  "exec_bad d ip =
     kthen (kwhen (d \<noteq> 0) (freevm d))
     (kthen (case ip of None \<Rightarrow> ret () | Some k \<Rightarrow> kthen (iunlockput k) end_op)
      (ret (- 1)))"

text \<open>From the user stack on, with the image of size \<open>img\<close> loaded.\<close>

definition exec_stack :: "u32 \<Rightarrow> u32 \<Rightarrow> u32 \<Rightarrow> u8 list \<Rightarrow> u8 list list \<Rightarrow> (int, 'z devs_scheme) km" where
  "exec_stack d start img path argv =
     kbind (allocuvm d (PGROUNDUP img) (PGROUNDUP img + 2 * PGSIZE)) (\<lambda>top.
     if top = 0 then exec_bad d None
     else
       kthen (clearpteu d (top - 2 * PGSIZE))
      (kbind (exec_push d 0 top argv) (\<lambda>r.
       case r of
         None \<Rightarrow> exec_bad d None
       | Some (sp, us) \<Rightarrow>
           let argc = word_of_nat (length argv);
               ustack = [0xFFFFFFFF, argc, sp - (argc + 1) * 4] @ us @ [0];
               sp' = sp - (3 + argc + 1) * 4 in
           kbind (copyout d sp' (concat (map le32 ustack))) (\<lambda>r.
           if r < 0 then exec_bad d None
           else with_proc (\<lambda>p.
             kbind (kget (\<lambda>s. procs s ! p)) (\<lambda>q.
             kthen (kmod (upd_proc p (\<lambda>q. q\<lparr>pname := patch 0 (safestrcpy (view (exec_name path)) 16) (pname q),
                      pgdir := d, sz := top\<rparr>)))
            (kthen (wr32 (tf q + TF_EIP) start)
            (kthen (wr32 (tf q + TF_ESP) sp')
            (kthen (switchuvm (kstack q) d)
            (kthen (freevm (pgdir q))
             (ret 0)))))))))))"

definition exec :: "u8 list \<Rightarrow> u8 list list \<Rightarrow> (int, 'z devs_scheme) km" where
  "exec path argv =
     kthen begin_op
    (kbind (namei path) (\<lambda>found.
     case found of
       None \<Rightarrow> kthen end_op (ret (- 1))
     | Some ip \<Rightarrow>
         kthen (ilock ip)
        (kbind (readi ip 0 (word_of_nat ELFHDR_SIZE)) (\<lambda>(r, bs).
         if (word_of_int r :: u32) < word_of_nat ELFHDR_SIZE then exec_bad 0 (Some ip)
         else if length bs < ELFHDR_SIZE then fault ''elf''
         else
           let elf = elf_of bs in
           if magic elf \<noteq> ELF_MAGIC then exec_bad 0 (Some ip)
           else
             kbind setupkvm (\<lambda>d.
             if d = 0 then exec_bad 0 (Some ip)
             else
               kbind (exec_load d ip (phoff elf) 0 (unat (phnum elf))) (\<lambda>r.
               case r of
                 None \<Rightarrow> exec_bad d (Some ip)
               | Some img \<Rightarrow>
                   kthen (iunlockput ip)
                  (kthen end_op
                   (exec_stack d (entry elf) img path argv))))))))"

end
