(* ===== verification/Sysproc.thy ===== *)
theory Sysproc
  imports Exec
begin

text \<open>
  The process system calls (\<^verbatim>\<open>sysproc.c\<close>).  A call returns the C \<^verbatim>\<open>int\<close> of its result.  Reading a local variable that a
  failed \<^verbatim>\<open>argint\<close> or \<^verbatim>\<open>argstr\<close> left unset, and reading outside the 64 element child tables, is a fault.
\<close>

definition sys_fork :: "(int, 'z kernel_scheme) km" where
  "sys_fork = fork"

definition sys_exit :: "(int, 'z kernel_scheme) km" where
  "sys_exit = kthen exit (ret 0)"

definition sys_wait :: "(int, 'z kernel_scheme) km" where
  "sys_wait = wait"

definition sys_kill :: "(int, 'z ptable_scheme) km" where
  "sys_kill =
     kbind (argint 0) (\<lambda>r.
     case r of None \<Rightarrow> ret (- 1) | Some n \<Rightarrow> kill (sint n))"

definition sys_getpid :: "(int, 'z ptable_scheme) km" where
  "sys_getpid = with_proc (\<lambda>p. kget (\<lambda>s. pid (procs s ! p)))"

definition sys_sbrk :: "(int, 'z ptable_scheme) km" where
  "sys_sbrk =
     kbind (argint 0) (\<lambda>r.
     case r of
       None \<Rightarrow> ret (- 1)
     | Some n \<Rightarrow>
         kbind (with_proc (\<lambda>p. kget (\<lambda>s. sz (procs s ! p)))) (\<lambda>addr.
         kbind (growproc n) (\<lambda>g.
         if g < 0 then ret (- 1) else ret (sint addr))))"

text \<open>The loop of \<^verbatim>\<open>sys_sleep\<close>, with \<^verbatim>\<open>tickslock\<close> held; a process that sleeps is at its head again when it resumes.  The
  comparison is between unsigned numbers.\<close>

definition sys_sleep_loop :: "u32 \<Rightarrow> u32 \<Rightarrow> (int, 'z ptable_scheme) km" where
  "sys_sleep_loop ticks0 n =
     kbind (kget ticks) (\<lambda>now.
     if now - ticks0 < n then
       with_proc (\<lambda>p.
       kbind (kget (\<lambda>s. killed (procs s ! p))) (\<lambda>k.
       if k then kthen (release LkTicks) (ret (- 1))
       else wait_on ChTicks LkTicks))
     else kthen (release LkTicks) (ret 0))"

definition sys_sleep :: "(int, 'z ptable_scheme) km" where
  "sys_sleep =
     kbind (argint 0) (\<lambda>r.
     case r of
       None \<Rightarrow> ret (- 1)
     | Some n \<Rightarrow>
         kthen (acquire LkTicks)
        (kbind (kget ticks) (\<lambda>ticks0. sys_sleep_loop ticks0 n)))"

definition sys_uptime :: "(int, 'z ptable_scheme) km" where
  "sys_uptime =
     kthen (acquire LkTicks)
     (kbind (kget ticks) (\<lambda>x. kthen (release LkTicks) (ret (sint x))))"

definition sys_getppid :: "(int, 'z ptable_scheme) km" where
  "sys_getppid =
     with_proc (\<lambda>p.
     kbind (kget (\<lambda>s. parent (procs s ! p))) (\<lambda>q.
     case q of None \<Rightarrow> fault ''proc->parent'' | Some q \<Rightarrow> kget (\<lambda>s. pid (procs s ! q) + 6)))"

definition sys_getPerformanceData :: "(int, 'z ptable_scheme) km" where
  "sys_getPerformanceData =
     kbind (argstr 0) (\<lambda>(w, _).
     kbind (argstr 1) (\<lambda>(r, _).
     with_proc (\<lambda>p.
     kbind (kget (\<lambda>s. procs s ! p)) (\<lambda>q.
     case w of
       None \<Rightarrow> fault ''wtime''
     | Some wt \<Rightarrow>
         kthen (user_wr8 wt (ucast (etime q - ctime q - rtime q)))
        (case r of
           None \<Rightarrow> fault ''rtime''
         | Some rt \<Rightarrow> kthen (user_wr8 rt (ucast (rtime q))) (ret 1))))))"

text \<open>An element of one of the child tables.\<close>

definition child_at :: "(proc \<Rightarrow> 'a list) \<Rightarrow> u32 option \<Rightarrow> ('a, 'z ptable_scheme) km" where
  "child_at tab r =
     (case r of
        None \<Rightarrow> fault ''childAt''
      | Some i \<Rightarrow>
          if sint i < 0 \<or> sint i \<ge> 64 then fault ''childAt''
          else with_proc (\<lambda>p. kget (\<lambda>s. tab (procs s ! p) ! nat (sint i))))"

definition sys_getAllChildsRtime :: "(int, 'z ptable_scheme) km" where
  "sys_getAllChildsRtime = kbind (argint 0) (\<lambda>r. kbind (child_at childRTime r) (\<lambda>v. ret (sint v)))"

definition sys_getAllChildsEtime :: "(int, 'z ptable_scheme) km" where
  "sys_getAllChildsEtime = kbind (argint 0) (\<lambda>r. kbind (child_at childETime r) (\<lambda>v. ret (sint v)))"

definition sys_getAllChildsCtime :: "(int, 'z ptable_scheme) km" where
  "sys_getAllChildsCtime = kbind (argint 0) (\<lambda>r. kbind (child_at childCTime r) (\<lambda>v. ret (sint v)))"

definition sys_getChildPiorityAt :: "(int, 'z ptable_scheme) km" where
  "sys_getChildPiorityAt = kbind (argint 0) (\<lambda>r. child_at childPiority r)"

definition sys_getChildSize :: "(int, 'z ptable_scheme) km" where
  "sys_getChildSize = with_proc (\<lambda>p. kget (\<lambda>s. int (allChildSize (procs s ! p))))"

definition sys_nice :: "(int, 'z ptable_scheme) km" where
  "sys_nice =
     with_proc (\<lambda>p.
     kbind (kget (\<lambda>s. piority (procs s ! p))) (\<lambda>c.
     if c = HIGH_PIORITY then kthen (kmod (upd_proc p (\<lambda>q. q\<lparr>piority := MEDIUM_PIORITY\<rparr>))) (ret MEDIUM_PIORITY)
     else if c = MEDIUM_PIORITY then kthen (kmod (upd_proc p (\<lambda>q. q\<lparr>piority := LOW_PIORITY\<rparr>))) (ret LOW_PIORITY)
     else if c = LOW_PIORITY then kthen (kmod (upd_proc p (\<lambda>q. q\<lparr>piority := HIGH_PIORITY\<rparr>))) (ret HIGH_PIORITY)
     else kthen (cprintf ''Error:Unkonwn piority detected\<newline>'' []) (ret (- 1))))"

definition sys_enableContextSwitchPrint :: "(int, 'z ptable_scheme) km" where
  "sys_enableContextSwitchPrint =
     kbind (argint 0) (\<lambda>r.
     case r of
       None \<Rightarrow> fault ''isEnable''
     | Some v \<Rightarrow>
         kthen (kmod (\<lambda>s. s\<lparr>printRunningProcIsValid := (if sint v > 0 then 1 else 0)\<rparr>)) (ret 0))"

end
