(* ===== verification/Sysfile.thy ===== *)
theory Sysfile
  imports Sysproc
begin

text \<open>
  The file system calls (\<^verbatim>\<open>sysfile.c\<close>): descriptors, reading and writing through them, and the calls that change the
  directory tree.  Reads and writes move the bytes between the file and the memory of the process.
\<close>

definition O_RDONLY :: u32 where "O_RDONLY = 0"
definition O_WRONLY :: u32 where "O_WRONLY = 1"
definition O_RDWR :: u32 where "O_RDWR = 2"
definition O_CREATE :: u32 where "O_CREATE = 0x200"
definition STAT_SIZE :: u32 where "STAT_SIZE = 20"

section \<open>Descriptors\<close>

text \<open>The descriptor and its file.\<close>

definition argfd :: "u32 \<Rightarrow> ((nat \<times> nat) option, 'z ptable_scheme) km" where
  "argfd n =
     kbind (argint n) (\<lambda>r.
     case r of
       None \<Rightarrow> ret None
     | Some v \<Rightarrow>
         if sint v < 0 \<or> sint v \<ge> int NOFILE then ret None
         else with_proc (\<lambda>p.
           kbind (kget (\<lambda>s. ofile (procs s ! p) ! unat v)) (\<lambda>f.
           ret (map_option (\<lambda>k. (unat v, k)) f))))"

definition fdalloc :: "nat \<Rightarrow> (int, 'z ptable_scheme) km" where
  "fdalloc f =
     with_proc (\<lambda>p.
     kbind (kget (\<lambda>s. first_index (\<lambda>x. x = None) (ofile (procs s ! p)))) (\<lambda>found.
     case found of
       None \<Rightarrow> ret (- 1)
     | Some fd \<Rightarrow>
         kthen (kmod (upd_proc p (\<lambda>q. q\<lparr>ofile := (ofile q)[fd := Some f]\<rparr>)))
         (ret (int fd))))"

definition sys_dup :: "(int, 'z ftable_scheme) km" where
  "sys_dup =
     kbind (argfd 0) (\<lambda>a.
     case a of
       None \<Rightarrow> ret (- 1)
     | Some (_, f) \<Rightarrow>
         kbind (fdalloc f) (\<lambda>fd.
         if fd < 0 then ret (- 1) else kthen (filedup f) (ret fd)))"

definition sys_read :: "(int, 'z ftable_scheme) km" where
  "sys_read =
     kbind (argfd 0) (\<lambda>a.
     case a of
       None \<Rightarrow> ret (- 1)
     | Some (_, f) \<Rightarrow>
         kbind (argint 2) (\<lambda>b.
         case b of
           None \<Rightarrow> ret (- 1)
         | Some n \<Rightarrow>
             kbind (argptr 1 n) (\<lambda>c.
             case c of
               None \<Rightarrow> ret (- 1)
             | Some p \<Rightarrow>
                 kbind (fileread f (sint n)) (\<lambda>(r, bs).
                 kthen (user_wr p bs) (ret r)))))"

definition sys_write :: "(int, 'z ftable_scheme) km" where
  "sys_write =
     kbind (argfd 0) (\<lambda>a.
     case a of
       None \<Rightarrow> ret (- 1)
     | Some (_, f) \<Rightarrow>
         kbind (argint 2) (\<lambda>b.
         case b of
           None \<Rightarrow> ret (- 1)
         | Some n \<Rightarrow>
             kbind (argptr 1 n) (\<lambda>c.
             case c of
               None \<Rightarrow> ret (- 1)
             | Some p \<Rightarrow>
                 kbind (user_rd p (unat n)) (\<lambda>bs. filewrite f bs))))"

definition sys_close :: "(int, 'z ftable_scheme) km" where
  "sys_close =
     kbind (argfd 0) (\<lambda>a.
     case a of
       None \<Rightarrow> ret (- 1)
     | Some (fd, f) \<Rightarrow>
         kthen (with_proc (\<lambda>p. kmod (upd_proc p (\<lambda>q. q\<lparr>ofile := (ofile q)[fd := None]\<rparr>))))
        (kthen (fileclose f)
         (ret 0)))"

text \<open>The stores of \<^verbatim>\<open>stati\<close> into the \<^verbatim>\<open>struct stat\<close> of the process.\<close>

definition put_stat :: "u32 \<Rightarrow> stat \<Rightarrow> (unit, 'z vm_scheme) km" where
  "put_stat a st =
     kthen (user_wr (a + 4) (le32 (st_dev st)))
    (kthen (user_wr (a + 8) (le32 (st_ino st)))
    (kthen (user_wr a (le16 (st_type st)))
    (kthen (user_wr (a + 12) (le16 (st_nlink st)))
     (user_wr (a + 16) (le32 (st_size st))))))"

definition sys_fstat :: "(int, 'z ftable_scheme) km" where
  "sys_fstat =
     kbind (argfd 0) (\<lambda>a.
     case a of
       None \<Rightarrow> ret (- 1)
     | Some (_, f) \<Rightarrow>
         kbind (argptr 1 STAT_SIZE) (\<lambda>c.
         case c of
           None \<Rightarrow> ret (- 1)
         | Some p \<Rightarrow>
             kbind (filestat f) (\<lambda>(r, st).
             kthen (case st of None \<Rightarrow> ret () | Some st \<Rightarrow> put_stat p st)
             (ret r))))"

section \<open>Links\<close>

definition add_nlink :: "nat \<Rightarrow> u16 \<Rightarrow> (unit, 'z icache_scheme) km" where
  "add_nlink ip d = kthen (kmod (upd_inode ip (\<lambda>i. i\<lparr>inlink := inlink i + d\<rparr>))) (iupdate ip)"

text \<open>The label \<^verbatim>\<open>bad\<close> of \<^verbatim>\<open>sys_link\<close>.\<close>

definition link_bad :: "nat \<Rightarrow> (int, 'z devs_scheme) km" where
  "link_bad ip =
     kthen (ilock ip)
    (kthen (add_nlink ip (- 1))
    (kthen (iunlockput ip)
    (kthen end_op
     (ret (- 1)))))"

definition link_to :: "nat \<Rightarrow> u8 list \<Rightarrow> (int, 'z devs_scheme) km" where
  "link_to ip new =
     kbind (nameiparent new) (\<lambda>r.
     case r of
       None \<Rightarrow> link_bad ip
     | Some (dp, name) \<Rightarrow>
         kthen (ilock dp)
        (kbind (kget (\<lambda>s. (getinode dp s, getinode ip s))) (\<lambda>(d, i).
         kbind (if idev d \<noteq> idev i then ret (- 1) else dirlink dp name (inum i)) (\<lambda>l.
         if l < 0 then kthen (iunlockput dp) (link_bad ip)
         else
           kthen (iunlockput dp)
          (kthen (iput ip)
          (kthen end_op
           (ret 0)))))))"

definition sys_link :: "(int, 'z devs_scheme) km" where
  "sys_link =
     kbind (str_arg 0) (\<lambda>a.
     case a of
       None \<Rightarrow> ret (- 1)
     | Some old \<Rightarrow>
         kbind (str_arg 1) (\<lambda>b.
         case b of
           None \<Rightarrow> ret (- 1)
         | Some new \<Rightarrow>
             kthen begin_op
            (kbind (namei old) (\<lambda>r.
             case r of
               None \<Rightarrow> kthen end_op (ret (- 1))
             | Some ip \<Rightarrow>
                 kthen (ilock ip)
                (kbind (kget (\<lambda>s. itype (getinode ip s))) (\<lambda>ty.
                 if ty = T_DIR then kthen (iunlockput ip) (kthen end_op (ret (- 1)))
                 else
                   kthen (add_nlink ip 1)
                  (kthen (iunlock ip)
                   (link_to ip new))))))))"

fun isdirempty_loop :: "nat \<Rightarrow> nat list \<Rightarrow> (bool, 'z devs_scheme) km" where
  "isdirempty_loop dp [] = ret True"
| "isdirempty_loop dp (off # offs) =
     kbind (readi dp (word_of_nat off) (word_of_nat DIRENT_SIZE)) (\<lambda>(r, de).
     if r \<noteq> int DIRENT_SIZE then panic ''isdirempty: readi''
     else if get16 de 0 \<noteq> 0 then ret False
     else isdirempty_loop dp offs)"

definition isdirempty :: "nat \<Rightarrow> (bool, 'z devs_scheme) km" where
  "isdirempty dp =
     kbind (kget (\<lambda>s. unat (isize (getinode dp s)))) (\<lambda>n.
     isdirempty_loop dp (drop 2 (dirent_offs n)))"

text \<open>The label \<^verbatim>\<open>bad\<close> of \<^verbatim>\<open>sys_unlink\<close>.\<close>

definition unlink_bad :: "nat \<Rightarrow> (int, 'z devs_scheme) km" where
  "unlink_bad dp = kthen (iunlockput dp) (kthen end_op (ret (- 1)))"

text \<open>The removal of the entry at \<open>off\<close> of \<open>dp\<close>, which names \<open>ip\<close>; both are locked.\<close>

definition unlink_entry :: "nat \<Rightarrow> nat \<Rightarrow> nat \<Rightarrow> (int, 'z devs_scheme) km" where
  "unlink_entry dp ip off =
     kbind (kget (\<lambda>s. itype (getinode ip s))) (\<lambda>ty.
     kbind (writei dp (replicate DIRENT_SIZE 0) (word_of_nat off) (word_of_nat DIRENT_SIZE)) (\<lambda>w.
     if w \<noteq> int DIRENT_SIZE then panic ''unlink: writei''
     else
       kthen (kwhen (ty = T_DIR) (add_nlink dp (- 1)))
      (kthen (iunlockput dp)
      (kthen (add_nlink ip (- 1))
      (kthen (iunlockput ip)
      (kthen end_op
       (ret 0)))))))"

definition sys_unlink :: "(int, 'z devs_scheme) km" where
  "sys_unlink =
     kbind (str_arg 0) (\<lambda>a.
     case a of
       None \<Rightarrow> ret (- 1)
     | Some path \<Rightarrow>
         kthen begin_op
        (kbind (nameiparent path) (\<lambda>r.
         case r of
           None \<Rightarrow> kthen end_op (ret (- 1))
         | Some (dp, name) \<Rightarrow>
             kthen (ilock dp)
            (if namecmp name (bytes ''.'') = 0 \<or> namecmp name (bytes ''..'') = 0 then unlink_bad dp
             else
               kbind (dirlookup dp name) (\<lambda>hit.
               case hit of
                 None \<Rightarrow> unlink_bad dp
               | Some (ip, off) \<Rightarrow>
                   kthen (ilock ip)
                  (kbind (kget (\<lambda>s. getinode ip s)) (\<lambda>i.
                   if sint (inlink i) < 1 then panic ''unlink: nlink < 1''
                   else
                     kbind (if itype i = T_DIR then isdirempty ip else ret True) (\<lambda>ok.
                     if \<not> ok then kthen (iunlockput ip) (unlink_bad dp)
                     else unlink_entry dp ip off))))))))"

section \<open>Creation\<close>

text \<open>The part of \<^verbatim>\<open>create\<close> for a name that is not in the locked directory \<open>dp\<close>.  \<^verbatim>\<open>ialloc\<close> does not return 0.\<close>

definition create_new :: "nat \<Rightarrow> u8 list \<Rightarrow> u16 \<Rightarrow> u16 \<Rightarrow> u16 \<Rightarrow> (nat, 'z devs_scheme) km" where
  "create_new dp name type major minor =
     kbind (kget (\<lambda>s. getinode dp s)) (\<lambda>d.
     kbind (ialloc (idev d) type) (\<lambda>ip.
     kthen (ilock ip)
    (kthen (kmod (upd_inode ip (\<lambda>i. i\<lparr>imajor := major, iminor := minor, inlink := 1\<rparr>)))
    (kthen (iupdate ip)
    (kbind (kget (\<lambda>s. inum (getinode ip s))) (\<lambda>i.
     kthen (kwhen (type = T_DIR)
       (kthen (add_nlink dp 1)
       (kbind (dirlink ip (bytes ''.'') i) (\<lambda>a.
        kbind (if a < 0 then ret (- 1) else dirlink ip (bytes ''..'') (inum d)) (\<lambda>b.
        if b < 0 then panic ''create dots'' else ret ())))))
    (kbind (dirlink dp name i) (\<lambda>l.
     if l < 0 then panic ''create: dirlink''
     else kthen (iunlockput dp) (ret ip)))))))))"

definition create :: "u8 list \<Rightarrow> u16 \<Rightarrow> u16 \<Rightarrow> u16 \<Rightarrow> (nat option, 'z devs_scheme) km" where
  "create path type major minor =
     kbind (nameiparent path) (\<lambda>r.
     case r of
       None \<Rightarrow> ret None
     | Some (dp, name) \<Rightarrow>
         kthen (ilock dp)
        (kbind (dirlookup dp name) (\<lambda>hit.
         case hit of
           Some (ip, _) \<Rightarrow>
             kthen (iunlockput dp)
            (kthen (ilock ip)
            (kbind (kget (\<lambda>s. itype (getinode ip s))) (\<lambda>ty.
             if type = T_FILE \<and> ty = T_FILE then ret (Some ip)
             else kthen (iunlockput ip) (ret None))))
         | None \<Rightarrow> kbind (create_new dp name type major minor) (\<lambda>ip. ret (Some ip)))))"

text \<open>The inode to open, locked; \<open>None\<close> after the early returns.\<close>

definition open_inode :: "u8 list \<Rightarrow> u32 \<Rightarrow> (nat option, 'z devs_scheme) km" where
  "open_inode path omode =
     (if omode AND O_CREATE \<noteq> 0 then create path T_FILE 0 0
      else
        kbind (namei path) (\<lambda>r.
        case r of
          None \<Rightarrow> ret None
        | Some ip \<Rightarrow>
            kthen (ilock ip)
           (kbind (kget (\<lambda>s. itype (getinode ip s))) (\<lambda>ty.
            if ty = T_DIR \<and> omode \<noteq> O_RDONLY then kthen (iunlockput ip) (ret None)
            else ret (Some ip)))))"

text \<open>From \<^verbatim>\<open>filealloc\<close> on, with the inode locked.\<close>

definition open_file :: "nat \<Rightarrow> u32 \<Rightarrow> (int, 'z ftable_scheme) km" where
  "open_file ip omode =
     kbind filealloc (\<lambda>f.
     kbind (case f of None \<Rightarrow> ret (- 1) | Some k \<Rightarrow> fdalloc k) (\<lambda>fd.
     case f of
       None \<Rightarrow> kthen (iunlockput ip) (kthen end_op (ret (- 1)))
     | Some k \<Rightarrow>
         if fd < 0 then kthen (fileclose k) (kthen (iunlockput ip) (kthen end_op (ret (- 1))))
         else
           kthen (iunlock ip)
          (kthen end_op
          (kthen (kmod (upd_file k (\<lambda>f. f\<lparr>ftype := FD_INODE, fip := ip, foff := 0,
                   readable := (omode AND O_WRONLY = 0),
                   writable := (omode AND O_WRONLY \<noteq> 0 \<or> omode AND O_RDWR \<noteq> 0)\<rparr>)))
           (ret fd)))))"

definition sys_open :: "(int, 'z ftable_scheme) km" where
  "sys_open =
     kbind (str_arg 0) (\<lambda>a.
     case a of
       None \<Rightarrow> ret (- 1)
     | Some path \<Rightarrow>
         kbind (argint 1) (\<lambda>b.
         case b of
           None \<Rightarrow> ret (- 1)
         | Some omode \<Rightarrow>
             kthen begin_op
            (kbind (open_inode path omode) (\<lambda>r.
             case r of
               None \<Rightarrow> kthen end_op (ret (- 1))
             | Some ip \<Rightarrow> open_file ip omode))))"

definition sys_mkdir :: "(int, 'z devs_scheme) km" where
  "sys_mkdir =
     kthen begin_op
    (kbind (str_arg 0) (\<lambda>a.
     kbind (case a of None \<Rightarrow> ret None | Some path \<Rightarrow> create path T_DIR 0 0) (\<lambda>r.
     case r of
       None \<Rightarrow> kthen end_op (ret (- 1))
     | Some ip \<Rightarrow> kthen (iunlockput ip) (kthen end_op (ret 0)))))"

definition sys_mknod :: "(int, 'z devs_scheme) km" where
  "sys_mknod =
     kthen begin_op
    (kbind (str_arg 0) (\<lambda>a.
     kbind (case a of None \<Rightarrow> ret None | Some _ \<Rightarrow> argint 1) (\<lambda>b.
     kbind (case b of None \<Rightarrow> ret None | Some _ \<Rightarrow> argint 2) (\<lambda>c.
     kbind (case (a, b, c) of
              (Some path, Some major, Some minor) \<Rightarrow> create path T_DEV (ucast major) (ucast minor)
            | _ \<Rightarrow> ret None) (\<lambda>r.
     case r of
       None \<Rightarrow> kthen end_op (ret (- 1))
     | Some ip \<Rightarrow> kthen (iunlockput ip) (kthen end_op (ret 0)))))))"

definition sys_chdir :: "(int, 'z devs_scheme) km" where
  "sys_chdir =
     kthen begin_op
    (kbind (str_arg 0) (\<lambda>a.
     kbind (case a of None \<Rightarrow> ret None | Some path \<Rightarrow> namei path) (\<lambda>r.
     case r of
       None \<Rightarrow> kthen end_op (ret (- 1))
     | Some ip \<Rightarrow>
         kthen (ilock ip)
        (kbind (kget (\<lambda>s. itype (getinode ip s))) (\<lambda>ty.
         if ty \<noteq> T_DIR then kthen (iunlockput ip) (kthen end_op (ret (- 1)))
         else
           kthen (iunlock ip)
          (with_proc (\<lambda>p.
           kbind (kget (\<lambda>s. cwd (procs s ! p))) (\<lambda>old.
           case old of
             None \<Rightarrow> fault ''iput''
           | Some k \<Rightarrow>
               kthen (iput k)
              (kthen end_op
              (kthen (kmod (upd_proc p (\<lambda>q. q\<lparr>cwd := Some ip\<rparr>)))
               (ret 0)))))))))))"

section \<open>Programs and pipes\<close>

text \<open>The loop of \<^verbatim>\<open>sys_exec\<close>, with \<open>n\<close> elements of \<^verbatim>\<open>argv\<close> left: the argument strings.\<close>

fun exec_args :: "nat \<Rightarrow> u32 \<Rightarrow> (u8 list list option, 'z ptable_scheme) km" where
  "exec_args 0 ua = ret None"
| "exec_args (Suc n) ua =
     kbind (fetchint ua) (\<lambda>r.
     case r of
       None \<Rightarrow> ret None
     | Some uarg \<Rightarrow>
         if uarg = 0 then ret (Some [])
         else
           kbind (fetchstr uarg) (\<lambda>(_, str).
           case str of
             None \<Rightarrow> ret None
           | Some cs \<Rightarrow> kbind (exec_args n (ua + 4)) (\<lambda>r. ret (map_option (\<lambda>rest. cs # rest) r))))"

definition sys_exec :: "(int, 'z devs_scheme) km" where
  "sys_exec =
     kbind (str_arg 0) (\<lambda>a.
     case a of
       None \<Rightarrow> ret (- 1)
     | Some path \<Rightarrow>
         kbind (argint 1) (\<lambda>b.
         case b of
           None \<Rightarrow> ret (- 1)
         | Some uargv \<Rightarrow>
             kbind (exec_args MAXARG uargv) (\<lambda>r.
             case r of None \<Rightarrow> ret (- 1) | Some argv \<Rightarrow> exec path argv)))"

definition sys_pipe :: "(int, 'z ftable_scheme) km" where
  "sys_pipe =
     kbind (argptr 0 8) (\<lambda>a.
     case a of
       None \<Rightarrow> ret (- 1)
     | Some fd \<Rightarrow>
         kbind pipealloc (\<lambda>r.
         case r of
           None \<Rightarrow> ret (- 1)
         | Some (rf, wfl) \<Rightarrow>
             kbind (fdalloc rf) (\<lambda>fd0.
             kbind (if fd0 < 0 then ret (- 1) else fdalloc wfl) (\<lambda>fd1.
             if fd0 < 0 \<or> fd1 < 0 then
               kthen (kwhen (fd0 \<ge> 0)
                 (with_proc (\<lambda>p. kmod (upd_proc p (\<lambda>q. q\<lparr>ofile := (ofile q)[nat fd0 := None]\<rparr>)))))
              (kthen (fileclose rf)
              (kthen (fileclose wfl)
               (ret (- 1))))
             else
               kthen (user_wr fd (le32 (word_of_int fd0)))
              (kthen (user_wr (fd + 4) (le32 (word_of_int fd1)))
               (ret 0))))))"

end
