(* ===== verification/Lapic.thy ===== *)
theory Lapic
  imports Proc_Life
begin

text \<open>
  The local interrupt controller and the real-time clock (\<^verbatim>\<open>lapic.c\<close>).  Writes to controller registers are recorded in
  order.  What the hardware answers is an argument: the version register and the number of polls until an interrupt
  is delivered for \<^verbatim>\<open>lapicinit\<close>, the successive values of the clock registers for \<^verbatim>\<open>cmostime\<close>.
\<close>

section \<open>Interrupt controller\<close>

definition LAPIC_ID :: u32 where "LAPIC_ID = 8"
definition LAPIC_TPR :: u32 where "LAPIC_TPR = 32"
definition LAPIC_EOI :: u32 where "LAPIC_EOI = 44"
definition LAPIC_SVR :: u32 where "LAPIC_SVR = 60"
definition LAPIC_ESR :: u32 where "LAPIC_ESR = 160"
definition LAPIC_ICRLO :: u32 where "LAPIC_ICRLO = 192"
definition LAPIC_ICRHI :: u32 where "LAPIC_ICRHI = 196"
definition LAPIC_TIMER :: u32 where "LAPIC_TIMER = 200"
definition LAPIC_PCINT :: u32 where "LAPIC_PCINT = 208"
definition LAPIC_LINT0 :: u32 where "LAPIC_LINT0 = 212"
definition LAPIC_LINT1 :: u32 where "LAPIC_LINT1 = 216"
definition LAPIC_ERROR :: u32 where "LAPIC_ERROR = 220"
definition LAPIC_TICR :: u32 where "LAPIC_TICR = 224"
definition LAPIC_TDCR :: u32 where "LAPIC_TDCR = 248"

definition lapicw :: "u32 \<Rightarrow> u32 \<Rightarrow> (unit, 'z kernel_scheme) km" where
  "lapicw index v = kmod (\<lambda>s. s\<lparr>lapic_writes := lapic_writes s @ [(index, v)]\<rparr>)"

text \<open>\<open>ver\<close> is the version register.  The loop that waits for delivery ends when the hardware has delivered.\<close>

definition lapicinit :: "u32 \<Rightarrow> (unit, 'z kernel_scheme) km" where
  "lapicinit ver =
     kbind (kget lapic) (\<lambda>l.
     if l = 0 then ret ()
     else
       kthen (lapicw LAPIC_SVR (0x100 OR (32 + 31)))
      (kthen (lapicw LAPIC_TDCR 0xB)
      (kthen (lapicw LAPIC_TIMER (0x20000 OR (32 + 0)))
      (kthen (lapicw LAPIC_TICR 10000000)
      (kthen (lapicw LAPIC_LINT0 0x10000)
      (kthen (lapicw LAPIC_LINT1 0x10000)
      (kthen (kwhen (drop_bit 16 ver AND 0xFF \<ge> 4) (lapicw LAPIC_PCINT 0x10000))
      (kthen (lapicw LAPIC_ERROR (32 + 19))
      (kthen (lapicw LAPIC_ESR 0)
      (kthen (lapicw LAPIC_ESR 0)
      (kthen (lapicw LAPIC_EOI 0)
      (kthen (lapicw LAPIC_ICRHI 0)
      (kthen (lapicw LAPIC_ICRLO (0x80000 OR 0x500 OR 0x8000))
       (lapicw LAPIC_TPR 0))))))))))))))"

definition lapiceoi :: "(unit, 'z kernel_scheme) km" where
  "lapiceoi = kbind (kget lapic) (\<lambda>l. kwhen (l \<noteq> 0) (lapicw LAPIC_EOI 0))"

text \<open>The warm reset vector, then the start-up messages of the universal algorithm.  The two port writes that set the
  shutdown code of the clock chip are not recorded.\<close>

definition lapicstartap :: "u8 \<Rightarrow> u32 \<Rightarrow> (unit, 'z kernel_scheme) km" where
  "lapicstartap apicid addr =
     kthen (wr16 (P2V (push_bit 4 0x40 OR 0x67)) 0)
    (kthen (wr16 (P2V (push_bit 4 0x40 OR 0x67) + 2) (ucast (drop_bit 4 addr)))
    (kthen (lapicw LAPIC_ICRHI (push_bit 24 (ucast apicid)))
    (kthen (lapicw LAPIC_ICRLO (0x500 OR 0x8000 OR 0x4000))
    (kthen (lapicw LAPIC_ICRLO (0x500 OR 0x8000))
     (kfor [0..<2] (\<lambda>_.
       kthen (lapicw LAPIC_ICRHI (push_bit 24 (ucast apicid)))
       (lapicw LAPIC_ICRLO (0x600 OR drop_bit 12 addr))))))))"

section \<open>Clock\<close>

record rtcdate =
  second :: u32
  minute :: u32
  hour :: u32
  day :: u32
  month :: u32
  year :: u32

text \<open>One \<^verbatim>\<open>fill_rtcdate\<close>, given what the clock registers hold.\<close>

definition fill_rtcdate :: "(u32 \<Rightarrow> u8) \<Rightarrow> rtcdate" where
  "fill_rtcdate cmos =
     \<lparr>second = ucast (cmos 0), minute = ucast (cmos 2), hour = ucast (cmos 4), day = ucast (cmos 7),
      month = ucast (cmos 8), year = ucast (cmos 9)\<rparr>"

definition CONV :: "u32 \<Rightarrow> u32" where
  "CONV x = drop_bit 4 x * 10 + (x AND 0xF)"

text \<open>The loop of \<^verbatim>\<open>cmostime\<close>.  Each round sees the registers at two moments; status register A is read at the first.
  \<open>None\<close> if the clock changes during every round.\<close>

fun stable_date :: "((u32 \<Rightarrow> u8) \<times> (u32 \<Rightarrow> u8)) list \<Rightarrow> rtcdate option" where
  "stable_date [] = None"
| "stable_date ((a, b) # rounds) =
     (if a 0xA AND 0x80 \<noteq> 0 then stable_date rounds
      else if fill_rtcdate a = fill_rtcdate b then Some (fill_rtcdate a)
      else stable_date rounds)"

definition cmostime :: "u8 \<Rightarrow> ((u32 \<Rightarrow> u8) \<times> (u32 \<Rightarrow> u8)) list \<Rightarrow> rtcdate option" where
  "cmostime statb rounds =
     map_option (\<lambda>t.
       let t1 = (if statb AND 4 = 0
                 then \<lparr>second = CONV (second t), minute = CONV (minute t), hour = CONV (hour t), day = CONV (day t),
                       month = CONV (month t), year = CONV (year t)\<rparr>
                 else t)
       in t1\<lparr>year := year t1 + 2000\<rparr>) (stable_date rounds)"

end
