(* ===== verification/Trap.thy ===== *)
theory Trap
  imports Sysfile Lapic
begin

text \<open>
  System call dispatch (\<^verbatim>\<open>syscall.c\<close>) and the trap handler (\<^verbatim>\<open>trap.c\<close>).  The registers of the interrupted code are in the
  trap frame at \<open>tf\<close>.  What the devices deliver to their interrupt handlers, and the faulting address in \<^verbatim>\<open>%cr2\<close>, are
  arguments of \<open>trap\<close>.
\<close>

section \<open>System calls\<close>

text \<open>The table \<^verbatim>\<open>syscalls\<close>, by the numbers of \<^verbatim>\<open>syscall.h\<close>.\<close>

definition syscalls :: "(int, 'z kernel_scheme) km option list" where
  "syscalls =
     [None, Some sys_fork, Some sys_exit, Some sys_wait, Some sys_pipe, Some sys_read, Some sys_kill, Some sys_exec,
      Some sys_fstat, Some sys_chdir, Some sys_dup, Some sys_getpid, Some sys_sbrk, Some sys_sleep, Some sys_uptime,
      Some sys_open, Some sys_write, Some sys_mknod, Some sys_unlink, Some sys_link, Some sys_mkdir, Some sys_close,
      Some sys_getppid, Some sys_getPerformanceData, Some sys_getAllChildsCtime, Some sys_getAllChildsEtime,
      Some sys_getAllChildsRtime, Some sys_getChildSize, Some sys_nice, Some sys_enableContextSwitchPrint,
      Some sys_getChildPiorityAt]"

definition syscall :: "(unit, 'z kernel_scheme) km" where
  "syscall =
     with_proc (\<lambda>p.
     kbind (kget (\<lambda>s. procs s ! p)) (\<lambda>q.
     kbind (rd32 (tf q + TF_EAX)) (\<lambda>num.
     case (if sint num > 0 \<and> sint num < int (length (syscalls :: (int, 'z kernel_scheme) km option list))
           then syscalls ! unat num else None) of
       Some f \<Rightarrow>
         kbind f (\<lambda>r.
         with_proc (\<lambda>p. kbind (kget (\<lambda>s. tf (procs s ! p))) (\<lambda>t. wr32 (t + TF_EAX) (word_of_int r))))
     | None \<Rightarrow>
         kthen (cprintf ''%d %s: unknown sys call %d\<newline>'' [AInt (word_of_int (pid q)), AStr (Some (pname q)), AInt num])
         (wr32 (tf q + TF_EAX) (- 1)))))"

section \<open>Traps\<close>

definition T_SYSCALL :: u32 where "T_SYSCALL = 64"
definition T_IRQ0 :: u32 where "T_IRQ0 = 32"
definition IRQ_TIMER :: u32 where "IRQ_TIMER = 0"
definition IRQ_KBD :: u32 where "IRQ_KBD = 1"
definition IRQ_COM1 :: u32 where "IRQ_COM1 = 4"
definition IRQ_IDE :: u32 where "IRQ_IDE = 14"
definition IRQ_SPURIOUS :: u32 where "IRQ_SPURIOUS = 31"

definition rd16 :: "u32 \<Rightarrow> (u16, 'z kmem_scheme) km" where
  "rd16 a = kget (\<lambda>s. join16 (mem s a) (mem s (a + 1)))"

text \<open>\<^verbatim>\<open>exit()\<close> if the current process exists, has been killed and, with \<open>user\<close>, the trap came from user space.\<close>

definition exit_if_killed :: "bool \<Rightarrow> (unit, 'z kernel_scheme) km" where
  "exit_if_killed user =
     kbind (kget (\<lambda>s. case curproc s of None \<Rightarrow> False | Some p \<Rightarrow> killed (procs s ! p))) (\<lambda>k.
     kwhen (k \<and> user) exit)"

definition timer_tick :: "(unit, 'z ptable_scheme) km" where
  "timer_tick =
     kthen (acquire LkTicks)
    (kthen (kmod (\<lambda>s. s\<lparr>ticks := ticks s + 1\<rparr>))
    (kbind (kget curproc) (\<lambda>c.
     kthen (case c of
              None \<Rightarrow> ret ()
            | Some p \<Rightarrow>
                kbind (kget (\<lambda>s. state (procs s ! p))) (\<lambda>st.
                kwhen (st = RUNNING) (kmod (upd_proc p (\<lambda>q. q\<lparr>rtime := rtime q + 1\<rparr>)))))
    (kthen (wakeup ChTicks)
     (release LkTicks)))))"

text \<open>The handler of the disk interrupt in \<^verbatim>\<open>memide.c\<close>.\<close>

definition ideintr :: "(unit, 'z kernel_scheme) km" where
  "ideintr = ret ()"

text \<open>The \<^verbatim>\<open>switch\<close>: \<open>kbd\<close> and \<open>com\<close> are the bytes the keyboard and the serial port deliver.\<close>

definition trap_dispatch :: "u32 \<Rightarrow> u32 \<Rightarrow> u16 \<Rightarrow> u32 \<Rightarrow> u8 list \<Rightarrow> u8 list \<Rightarrow> (unit, 'z kernel_scheme) km" where
  "trap_dispatch t no cs cr2 kbd com =
     (if no = T_IRQ0 + IRQ_TIMER then
        kbind (kget mycpu) (\<lambda>c. kthen (kwhen (c = 0) timer_tick) lapiceoi)
      else if no = T_IRQ0 + IRQ_IDE then kthen ideintr lapiceoi
      else if no = T_IRQ0 + IRQ_IDE + 1 then ret ()
      else if no = T_IRQ0 + IRQ_KBD then kthen (kbdintr kbd) lapiceoi
      else if no = T_IRQ0 + IRQ_COM1 then kthen (uartintr com) lapiceoi
      else if no = T_IRQ0 + 7 \<or> no = T_IRQ0 + IRQ_SPURIOUS then
        kbind (kget mycpu) (\<lambda>c.
        kbind (rd32 (t + TF_EIP)) (\<lambda>eip.
        kthen (cprintf ''cpu%d: spurious interrupt at %x:%x\<newline>'' [AInt (word_of_nat c), AInt (ucast cs), AInt eip])
        lapiceoi))
      else
        kbind (kget mycpu) (\<lambda>c.
        kbind (rd32 (t + TF_EIP)) (\<lambda>eip.
        kbind (kget curproc) (\<lambda>cp.
        case (if cs AND 3 = 0 then None else cp) of
          None \<Rightarrow>
            kthen (cprintf ''unexpected trap %d from cpu %d eip %x (cr2=0x%x)\<newline>''
                     [AInt no, AInt (word_of_nat c), AInt eip, AInt cr2])
            (panic ''trap'')
        | Some p \<Rightarrow>
            kbind (kget (\<lambda>s. procs s ! p)) (\<lambda>q.
            kbind (rd32 (t + TF_ERR)) (\<lambda>err.
            kthen (cprintf ''pid %d %s: trap %d err %d on cpu %d eip 0x%x addr 0x%x--kill proc\<newline>''
                     [AInt (word_of_int (pid q)), AStr (Some (pname q)), AInt no, AInt err, AInt (word_of_nat c),
                      AInt eip, AInt cr2])
            (kmod (upd_proc p (\<lambda>q. q\<lparr>killed := True\<rparr>)))))))))"

definition trap :: "u32 \<Rightarrow> u32 \<Rightarrow> u8 list \<Rightarrow> u8 list \<Rightarrow> (unit, 'z kernel_scheme) km" where
  "trap t cr2 kbd com =
     kbind (rd32 (t + TF_TRAPNO)) (\<lambda>no.
     if no = T_SYSCALL then
       with_proc (\<lambda>p.
       kthen (exit_if_killed True)
      (kthen (kmod (upd_proc p (\<lambda>q. q\<lparr>tf := t\<rparr>)))
      (kthen syscall
       (exit_if_killed True))))
     else
       kbind (rd16 (t + TF_CS)) (\<lambda>cs.
       kthen (trap_dispatch t no cs cr2 kbd com)
      (kthen (exit_if_killed (cs AND 3 = DPL_USER))
      (kbind (kget (\<lambda>s. case curproc s of None \<Rightarrow> False | Some p \<Rightarrow> state (procs s ! p) = RUNNING)) (\<lambda>running.
       kthen (kwhen (running \<and> no = T_IRQ0 + IRQ_TIMER) yield)
       (exit_if_killed (cs AND 3 = DPL_USER)))))))"

end
