(* ===== verification/Frames.thy ===== *)
theory Frames
  imports Trap
begin

text \<open>
  What the layers below the process and file tables leave alone.  \<open>core_view\<close> is the part of the state that belongs to
  process life and to the file table; \<open>calm m\<close> says that \<open>m\<close> neither changes it nor gives up the CPU other than by
  \<^verbatim>\<open>sleep\<close>.  One lemma per layer shows that memory, disk, inode, directory, device and pipe operations are calm, and so
  are the system calls made of them.
\<close>

named_theorems calm_intro \<open>code that leaves the process and file tables alone\<close>

section \<open>The protected part of the state\<close>

definition idle :: "procstate \<Rightarrow> bool" where
  "idle st \<longleftrightarrow> st = UNUSED \<or> st = EMBRYO \<or> st = ZOMBIE"

lemma idle_simps [simp]:
  "idle UNUSED" "idle EMBRYO" "idle ZOMBIE" "\<not> idle RUNNABLE" "\<not> idle RUNNING" "\<not> idle SLEEPING"
  by (simp_all add: idle_def)

record pcore =
  c_ofile :: "nat option list"
  c_idle :: bool
  c_parent :: "nat option"
  c_pid :: int
  c_children :: "u32 list \<times> u32 list \<times> u32 list \<times> int list \<times> nat"
  c_ctime :: u32

definition proc_core :: "proc \<Rightarrow> pcore" where
  "proc_core q = \<lparr>c_ofile = ofile q, c_idle = idle (state q), c_parent = parent q, c_pid = pid q,
     c_children = (childCTime q, childRTime q, childETime q, childPiority q, allChildSize q), c_ctime = ctime q\<rparr>"

record core =
  c_procs :: "pcore list"
  c_frefs :: "int list"
  c_cur :: "nat option"
  c_cpu :: nat
  c_init :: "nat option"

definition core_view :: "'z ftable_scheme \<Rightarrow> core" where
  "core_view s = \<lparr>c_procs = map proc_core (procs s), c_frefs = map fref (files s), c_cur = curproc s, c_cpu = mycpu s,
     c_init = initproc s\<rparr>"

lemma map_upd_nth: "(\<And>q. f (g q) = f q) \<Longrightarrow> map f (upd_nth p g ps) = map f ps"
  by (simp add: upd_nth_def map_update) (metis list_update_id map_update)

lemma core_view_fields [simp]:
  "core_view (s\<lparr>nextpid := n\<rparr>) = core_view s" "core_view (k\<lparr>lapic_writes := w\<rparr>) = core_view k"
  "core_view (s\<lparr>locks := x0\<rparr>) = core_view s" "core_view (s\<lparr>panicked := x1\<rparr>) = core_view s"
  "core_view (s\<lparr>cons_locking := x2\<rparr>) = core_view s" "core_view (s\<lparr>uart := x3\<rparr>) = core_view s"
  "core_view (s\<lparr>uart_out := x4\<rparr>) = core_view s" "core_view (s\<lparr>crt := x5\<rparr>) = core_view s"
  "core_view (s\<lparr>crtpos := x6\<rparr>) = core_view s" "core_view (s\<lparr>mem := x7\<rparr>) = core_view s"
  "core_view (s\<lparr>use_lock := x8\<rparr>) = core_view s" "core_view (s\<lparr>freelist := x9\<rparr>) = core_view s"
  "core_view (s\<lparr>kern_end := x10\<rparr>) = core_view s" "core_view (s\<lparr>kpgdir := x11\<rparr>) = core_view s"
  "core_view (s\<lparr>cr3 := x12\<rparr>) = core_view s" "core_view (s\<lparr>esp0 := x13\<rparr>) = core_view s"
  "core_view (s\<lparr>sym_data := x14\<rparr>) = core_view s" "core_view (s\<lparr>policyChooser := x15\<rparr>) = core_view s"
  "core_view (s\<lparr>GRTExists := x16\<rparr>) = core_view s" "core_view (s\<lparr>FRRExists := x17\<rparr>) = core_view s"
  "core_view (s\<lparr>printRunningProcIsValid := x18\<rparr>) = core_view s" "core_view (s\<lparr>ticks := x19\<rparr>) = core_view s"
  "core_view (s\<lparr>slocks := x20\<rparr>) = core_view s" "core_view (s\<lparr>disk := x21\<rparr>) = core_view s"
  "core_view (s\<lparr>dtrace := x22\<rparr>) = core_view s" "core_view (s\<lparr>bufs := x23\<rparr>) = core_view s"
  "core_view (s\<lparr>lstart := x24\<rparr>) = core_view s" "core_view (s\<lparr>lsize := x25\<rparr>) = core_view s"
  "core_view (s\<lparr>outstanding := x26\<rparr>) = core_view s" "core_view (s\<lparr>committing := x27\<rparr>) = core_view s"
  "core_view (s\<lparr>ldev := x28\<rparr>) = core_view s" "core_view (s\<lparr>lhn := x29\<rparr>) = core_view s"
  "core_view (s\<lparr>lhblock := x30\<rparr>) = core_view s" "core_view (s\<lparr>inodes := x31\<rparr>) = core_view s"
  "core_view (s\<lparr>sb := x32\<rparr>) = core_view s" "core_view (s\<lparr>input_buf := x33\<rparr>) = core_view s"
  "core_view (s\<lparr>input_r := x34\<rparr>) = core_view s" "core_view (s\<lparr>input_w := x35\<rparr>) = core_view s"
  "core_view (s\<lparr>input_e := x36\<rparr>) = core_view s" "core_view (s\<lparr>dev_read := x37\<rparr>) = core_view s"
  "core_view (s\<lparr>dev_write := x38\<rparr>) = core_view s" "core_view (s\<lparr>kbd_shift := x39\<rparr>) = core_view s"
  "core_view (s\<lparr>pipes := x40\<rparr>) = core_view s"
  by (simp_all add: core_view_def)

lemma core_view_cpus [simp]: "cproc (c (mycpu s)) = cproc (this_cpu s) \<Longrightarrow> core_view (s\<lparr>cpus := c\<rparr>) = core_view s"
  by (simp add: core_view_def)

lemma core_view_lock [simp]: "core_view (upd_lock l f s) = core_view s"
  by (simp add: upd_lock_def)

lemma core_view_cpu [simp]: "cproc (f (this_cpu s)) = cproc (this_cpu s) \<Longrightarrow> core_view (upd_cpu f s) = core_view s"
  by (simp add: upd_cpu_def)

lemma core_view_procs [simp]:
  "(\<And>q. proc_core (f q) = proc_core q) \<Longrightarrow> core_view (s\<lparr>procs := upd_nth p f (procs s)\<rparr>) = core_view s"
  by (simp add: core_view_def map_upd_nth)

lemma core_view_files [simp]:
  "(\<And>q. fref (f q) = fref q) \<Longrightarrow> core_view (s\<lparr>files := upd_nth p f (files s)\<rparr>) = core_view s"
  by (simp add: core_view_def map_upd_nth)

lemma proc_core_fields [simp]:
  "proc_core (q\<lparr>sz := a\<rparr>) = proc_core q" "proc_core (q\<lparr>pgdir := a\<rparr>) = proc_core q" "proc_core (q\<lparr>chan := c\<rparr>) = proc_core q"
  "proc_core (q\<lparr>killed := k\<rparr>) = proc_core q" "proc_core (q\<lparr>cwd := w\<rparr>) = proc_core q" "proc_core (q\<lparr>pname := n\<rparr>) = proc_core q"
  "proc_core (q\<lparr>processCounter := i\<rparr>) = proc_core q" "proc_core (q\<lparr>piority := i\<rparr>) = proc_core q"
  "proc_core (q\<lparr>kintena := k\<rparr>) = proc_core q" "proc_core (q\<lparr>rtime := a\<rparr>) = proc_core q"
  "proc_core (q\<lparr>kstack := a\<rparr>) = proc_core q" "proc_core (q\<lparr>tf := a\<rparr>) = proc_core q" "proc_core (q\<lparr>pcontext := a\<rparr>) = proc_core q"
  "proc_core (q\<lparr>etime := a\<rparr>) = proc_core q"
  "idle (state q) = idle st \<Longrightarrow> proc_core (q\<lparr>state := st\<rparr>) = proc_core q"
  by (simp_all add: proc_core_def)

lemma core_view_wake [simp]:
  "core_view (s\<lparr>procs := map (\<lambda>q. if state q = SLEEPING \<and> chan q = Some c then q\<lparr>state := RUNNABLE\<rparr> else q) (procs s)\<rparr>) = core_view s"
  by (simp add: core_view_def o_def if_distrib[of proc_core] cong: if_cong)

section \<open>Calm code\<close>

text \<open>The CPU runs a process that is in use, or none.\<close>

definition live_core :: "core \<Rightarrow> bool" where
  "live_core v \<longleftrightarrow> (\<forall>p. c_cur v = Some p \<longrightarrow> p < length (c_procs v) \<and> \<not> c_idle (c_procs v ! p))"

definition live :: "'z ftable_scheme \<Rightarrow> bool" where
  "live s \<longleftrightarrow> live_core (core_view s)"

lemma live_iff: "live s \<longleftrightarrow> (\<forall>p. curproc s = Some p \<longrightarrow> p < length (procs s) \<and> \<not> idle (state (procs s ! p)))"
  by (auto simp: live_def live_core_def core_view_def proc_core_def)

text \<open>The CPU is given up with its process asleep on a channel, the table lock held, no other lock counted on this CPU
  and interrupts off.\<close>

definition asleep :: "'z ftable_scheme \<Rightarrow> bool" where
  "asleep s \<longleftrightarrow> (\<exists>p. curproc s = Some p \<and> state (procs s ! p) = SLEEPING \<and> chan (procs s ! p) \<noteq> None) \<and>
     holding LkPtable s \<and> ncli (this_cpu s) = 1 \<and> \<not> ifl (this_cpu s)"

definition calm :: "('a, 'z ftable_scheme) km \<Rightarrow> bool" where
  "calm m \<longleftrightarrow> (\<forall>s. live s \<longrightarrow>
     (\<forall>x t. m s = Ret x t \<longrightarrow> core_view t = core_view s) \<and>
     (\<forall>t. m s = Switched t \<longrightarrow> core_view t = core_view s \<and> asleep t))"

lemma calmD:
  assumes "calm m" and "live s"
  shows "m s = Ret x t \<Longrightarrow> core_view t = core_view s \<and> live t"
    and "m s = Switched t \<Longrightarrow> core_view t = core_view s \<and> live t \<and> asleep t"
  using assms unfolding calm_def live_def by metis+

lemma calm_prim [calm_intro]:
  "calm (ret x)" "calm (Ret x)" "calm (kget h)" "calm (panic msg)" "calm (fault msg)" "calm (\<lambda>_. Panic msg)" "calm (\<lambda>_. Fault msg)"
  "calm (\<lambda>_. Spin)" "(\<And>s. core_view (g s) = core_view s) \<Longrightarrow> calm (kmod g)"
  by (simp_all add: calm_def panic_def fault_def)

lemma calm_kbind [calm_intro]:
  assumes "calm (m :: ('a, 'z ftable_scheme) km)" and "\<And>x. calm (n x)"
  shows "calm (kbind m n)"
  unfolding calm_def
proof (intro allI impI)
  fix s :: "'z ftable_scheme"
  assume l: "live s"
  show "(\<forall>x t. kbind m n s = Ret x t \<longrightarrow> core_view t = core_view s) \<and>
     (\<forall>t. kbind m n s = Switched t \<longrightarrow> core_view t = core_view s \<and> asleep t)"
  proof (cases "m s")
    case (Ret x u)
    then have e: "kbind m n s = n x u" by (simp add: kbind_apply)
    have u: "core_view u = core_view s" "live u" using calmD(1)[OF assms(1) l Ret] by auto
    show ?thesis unfolding e using calmD[OF assms(2) u(2), of x] u(1) by metis
  next
    case (Switched u)
    then have e: "kbind m n s = Switched u" by (simp add: kbind_apply)
    show ?thesis unfolding e using calmD(2)[OF assms(1) l Switched] by simp
  qed (simp_all add: kbind_apply)
qed

lemma calm_kthen [calm_intro]: "calm m \<Longrightarrow> calm n \<Longrightarrow> calm (kthen m n)"
  unfolding kthen_def by (rule calm_kbind)

lemma calm_if [calm_intro]: "(c \<Longrightarrow> calm m) \<Longrightarrow> (\<not> c \<Longrightarrow> calm n) \<Longrightarrow> calm (if c then m else n)"
  by simp

lemma calm_kwhen [calm_intro]: "calm m \<Longrightarrow> calm (kwhen c m)"
  by (simp add: kwhen_def calm_prim)

lemma calm_option [calm_intro]: "(v = None \<Longrightarrow> calm m) \<Longrightarrow> (\<And>y. v = Some y \<Longrightarrow> calm (k y)) \<Longrightarrow> calm (case v of None \<Rightarrow> m | Some y \<Rightarrow> k y)"
  by (simp split: option.split)

lemma calm_prod [calm_intro]: "(\<And>a b. x = (a, b) \<Longrightarrow> calm (m a b)) \<Longrightarrow> calm (case x of (a, b) \<Rightarrow> m a b)"
  by (cases x) simp

lemma calm_kfor [calm_intro]: "(\<And>x. x \<in> set xs \<Longrightarrow> calm (body x)) \<Longrightarrow> calm (kfor xs body)"
  by (induction xs) (simp_all add: calm_prim(2)[of "()"] calm_prim calm_kthen)

lemma calm_with_proc [calm_intro]: "(\<And>p. calm (f p)) \<Longrightarrow> calm (with_proc f)"
  by (auto simp: with_proc_def intro!: calm_intro)

section \<open>Locks, console and memory\<close>

lemma calm_pushcli [calm_intro]:
  "calm pushcli" "calm popcli" "calm (xchg_locked a0)" "calm (acquire_note a1)" "calm (release_forget a2)"
  "calm (acquire_enter a3)" "calm (release_clear a4)"
  by (auto simp: pushcli_def popcli_def xchg_locked_def acquire_note_def release_forget_def acquire_enter_def
      release_clear_def Let_def
      intro!: calm_intro)

lemma calm_acquire [calm_intro]:
  "calm (acquire a0)" "calm (release a1)"
  by (auto simp: acquire_def release_def Let_def intro!: calm_intro)

lemma calm_uartputc [calm_intro]:
  "calm (uartputc a0)" "calm (cgaputc a1)" "calm (consputc a2)" "calm (printint a3 a4 a5)"
  by (auto simp: uartputc_def cgaputc_def consputc_def printint_def Let_def intro!: calm_intro)

lemma calm_cprintf_loop [calm_intro]: "calm (cprintf_loop fmt args :: (unit, 'z ftable_scheme) km)"
proof (induction fmt arbitrary: args rule: length_induct)
  case (1 fmt)
  show ?case
  proof (cases fmt)
    case c: (Cons c fmt1)
    have ih: "calm (cprintf_loop f as :: (unit, 'z ftable_scheme) km)" if "length f \<le> length fmt1" for f as
      using 1 c that by (simp add: le_imp_less_Suc)
    show ?thesis
    proof (cases "c = 0 \<or> c \<noteq> 37 \<or> fmt1 = []")
      case True
      then show ?thesis using c ih by (auto intro!: calm_intro)
    next
      case False
      then obtain d fmt2 where d: "fmt1 = d # fmt2" by (cases fmt1) auto
      then have "calm (cprintf_loop fmt2 as :: (unit, 'z ftable_scheme) km)" for as using ih by simp
      then show ?thesis using False unfolding c d by (cases args; cases "hd args") (auto intro!: calm_intro)
    qed
  qed (simp add: calm_prim)
qed

lemma calm_cprintf [calm_intro]: "calm (cprintf a0 a1)"
  by (auto simp: cprintf_def Let_def intro!: calm_intro)

lemma calm_kfree [calm_intro]:
  "calm (kfree a0)" "calm kalloc"
  by (auto simp: kfree_def kalloc_def Let_def intro!: calm_intro)

lemma calm_rd32 [calm_intro]:
  "calm (rd32 a0)" "calm (wr32 a1 a2)" "calm (lcr3 a3)" "calm (user_rd8 a4)" "calm (user_wr8 a5 a6)"
  "calm (walkpgdir a7 a8 a9)" "calm (switchuvm a10 a11)"
  by (auto simp: rd32_def wr32_def lcr3_def user_rd8_def user_wr8_def walkpgdir_def switchuvm_def Let_def intro!: calm_intro)

lemma calm_clearpteu [calm_intro]:
  "calm (clearpteu a0 a1)" "calm (uva2ka a2 a3)"
  by (auto simp: clearpteu_def uva2ka_def Let_def intro!: calm_intro)

lemma calm_mappages_loop [calm_intro]: "calm (mappages_loop a0 a1 a2 a3 a4)"
  by (induction a0 a1 a2 a3 a4 rule: mappages_loop.induct, subst mappages_loop.simps) (auto simp: Let_def intro!: calm_intro)

lemma calm_mappages [calm_intro]: "calm (mappages a0 a1 a2 a3 a4)"
  by (auto simp: mappages_def Let_def intro!: calm_intro)

lemma calm_map_all [calm_intro]: "calm (map_all a0 a1)"
  by (induction a0 a1 rule: map_all.induct) (auto simp: Let_def intro!: calm_intro)

lemma calm_setupkvm [calm_intro]: "calm setupkvm"
  by (auto simp: setupkvm_def Let_def intro!: calm_intro)

lemma calm_deallocuvm_loop [calm_intro]: "calm (deallocuvm_loop a0 a1 a2)"
  by (induction a0 a1 a2 rule: deallocuvm_loop.induct, subst deallocuvm_loop.simps) (auto simp: Let_def intro!: calm_intro)

lemma calm_deallocuvm [calm_intro]:
  "calm (deallocuvm a0 a1 a2)" "calm (freevm a3)"
  by (auto simp: deallocuvm_def freevm_def Let_def intro!: calm_intro)

lemma calm_allocuvm_loop [calm_intro]: "calm (allocuvm_loop a0 a1 a2 a3)"
  by (induction a0 a1 a2 a3 rule: allocuvm_loop.induct, subst allocuvm_loop.simps) (auto simp: Let_def intro!: calm_intro)

lemma calm_allocuvm [calm_intro]: "calm (allocuvm a0 a1 a2)"
  by (auto simp: allocuvm_def Let_def intro!: calm_intro)

lemma calm_copyuvm_loop [calm_intro]: "calm (copyuvm_loop a0 a1 a2 a3)"
  by (induction a0 a1 a2 a3 rule: copyuvm_loop.induct, subst copyuvm_loop.simps) (auto simp: Let_def intro!: calm_intro)

lemma calm_copyuvm [calm_intro]: "calm (copyuvm a0 a1)"
  by (auto simp: copyuvm_def Let_def intro!: calm_intro)

lemma calm_copyout [calm_intro]: "calm (copyout a0 a1 a2)"
  by (induction a0 a1 a2 rule: copyout.induct, subst copyout.simps) (auto simp: Let_def intro!: calm_intro)

lemma calm_user_rd [calm_intro]: "calm (user_rd a0 a1)"
  by (induction a1 arbitrary: a0) (auto simp: Let_def intro!: calm_intro)

lemma calm_user_rd32 [calm_intro]: "calm (user_rd32 a0)"
  by (auto simp: user_rd32_def Let_def intro!: calm_intro)

lemma calm_user_wr [calm_intro]: "calm (user_wr a0 a1)"
  by (induction a1 arbitrary: a0) (auto simp: Let_def intro!: calm_intro)

text \<open>Going to sleep: \<^verbatim>\<open>sched\<close> itself checks the lock, the counter and the interrupt flag.\<close>

lemma sched_asleep:
  assumes "sched s = Switched t" and "curproc s = Some p" and "state (procs s ! p) = SLEEPING" and "chan (procs s ! p) \<noteq> None"
    and "p < length (procs s)"
  shows "core_view t = core_view s \<and> asleep t"
  using assms
  by (auto simp: sched_def with_proc_def keval asleep_def holding_def split: if_splits option.splits)

lemma calm_sleep_enter: "calm (sleep_enter c lk)"
  unfolding calm_def
proof (intro allI impI)
  fix s :: "'b ftable_scheme"
  assume l: "live s"
  let ?pre = "kwhen (lk \<noteq> LkPtable) (kthen (acquire LkPtable) (release lk)) :: (unit, 'b ftable_scheme) km"
  have pre: "calm ?pre" by (auto intro!: calm_intro)
  show "(\<forall>x t. sleep_enter c lk s = Ret x t \<longrightarrow> core_view t = core_view s) \<and>
     (\<forall>t. sleep_enter c lk s = Switched t \<longrightarrow> core_view t = core_view s \<and> asleep t)"
  proof (cases "curproc s")
    case (Some p)
    show ?thesis
    proof (cases "?pre s")
      case (Ret x u)
      note u = calmD(1)[OF pre l Ret]
      then have p: "curproc u = Some p" "p < length (procs u)" "\<not> idle (state (procs u ! p))"
        using Some by (auto simp: core_view_def live_iff)
      let ?v = "upd_proc p (\<lambda>q. q\<lparr>chan := Some c, state := SLEEPING\<rparr>) u"
      have "map proc_core (procs ?v) = map proc_core (procs u)"
        using p by (intro nth_equalityI) (auto simp: upd_nth_nth proc_core_def)
      then have v: "core_view ?v = core_view u" by (simp add: core_view_def)
      have "sleep_enter c lk s = sched ?v" using Some Ret by (simp add: sleep_enter_def keval)
      then show ?thesis using sched_asleep[of ?v _ p] p u v sched_not_Ret[of ?v] by auto
    next
      case (Switched u)
      then show ?thesis using Some calmD(2)[OF pre l Switched] by (simp add: sleep_enter_def keval)
    qed (simp_all add: Some sleep_enter_def keval)
  qed (simp add: sleep_enter_def keval)
qed

lemma calm_noret:
  assumes "\<And>s x t. m s \<noteq> Ret x t" and "\<And>s t. m s = Switched t \<Longrightarrow> n s = Switched t" and "calm n"
  shows "calm m"
  unfolding calm_def using assms(1) calmD(2)[OF assms(3) _ assms(2)] by blast

lemma calm_sleep [calm_intro]:
  "calm (sleep c lk :: (unit, 'z ftable_scheme) km)" "calm (wait_on c lk :: ('a, 'z ftable_scheme) km)"
proof -
  have e: "sleep_enter c lk s \<noteq> Ret x t" for s t :: "'z ftable_scheme" and x
    by (auto simp: sleep_enter_def sched_not_Ret dest!: kbind_RetD kthen_RetD split: option.splits)
  have "sleep c lk s = Switched t \<Longrightarrow> sleep_enter c lk s = Switched t" for s t :: "'z ftable_scheme"
    using e[of s] by (auto simp: sleep_def keval split: outcome.splits)
  from calm_noret[OF sleep_not_Ret this calm_sleep_enter] show c: "calm (sleep c lk :: (unit, 'z ftable_scheme) km)" .
  have "wait_on c lk s \<noteq> Ret x t" "wait_on c lk s = Switched t \<Longrightarrow> sleep c lk s = Switched t" for s t :: "'z ftable_scheme" and x :: 'a
    using sleep_not_Ret[of c lk s] by (auto simp: wait_on_def keval split: outcome.splits)
  from calm_noret[OF this c] show "calm (wait_on c lk :: ('a, 'z ftable_scheme) km)" .
qed

lemma calm_wakeup1 [calm_intro]:
  "calm (wakeup1 a0)" "calm (kill a1)" "calm (growproc a2)" "calm procdump" "calm (wakeup a3)"
  by (auto simp: wakeup1_def kill_def growproc_def procdump_def wakeup_def Let_def intro!: calm_intro)

lemma calm_acquiresleep_loop [calm_intro]:
  "calm (acquiresleep_loop a0)" "calm (releasesleep a1)" "calm (holdingsleep a2)" "calm (acquiresleep a3)"
  by (auto simp: acquiresleep_loop_def releasesleep_def holdingsleep_def acquiresleep_def Let_def intro!: calm_intro)

section \<open>Buffers, log, inodes and directories\<close>

lemma calm_iderw [calm_intro]:
  "calm (iderw a0)" "calm (bget a1 a2)" "calm (brelse a3)" "calm (set_data a4 a5)" "calm (bread a6 a7)"
  "calm (bwrite a8)"
  by (auto simp: iderw_def bget_def brelse_def set_data_def bread_def bwrite_def Let_def intro!: calm_intro)

lemma calm_readsb [calm_intro]:
  "calm (readsb a0)" "calm (lh_block a1)" "calm read_head" "calm begin_op_loop" "calm (log_write a2)"
  "calm install_trans" "calm write_head"
  by (auto simp: readsb_def lh_block_def read_head_def begin_op_loop_def log_write_def install_trans_def write_head_def
      Let_def intro!: calm_intro)

lemma calm_begin_op [calm_intro]:
  "calm begin_op" "calm write_log" "calm commit" "calm end_op"
  by (auto simp: begin_op_def write_log_def commit_def end_op_def Let_def intro!: calm_intro)

lemma calm_bzero [calm_intro]:
  "calm (bzero a0 a1)" "calm (bfree a2 a3)" "calm (iget a4 a5)" "calm (iupdate a6)" "calm (idup a7)" "calm (ilock a8)"
  "calm (iunlock a9)"
  by (auto simp: bzero_def bfree_def iget_def iupdate_def idup_def ilock_def iunlock_def Let_def intro!: calm_intro)

lemma calm_stati [calm_intro]:
  "calm (stati a0)" "calm (itrunc a1)" "calm (iput a2)" "calm (iunlockput a3)"
  by (auto simp: stati_def itrunc_def iput_def iunlockput_def Let_def intro!: calm_intro)

lemma calm_balloc_loop [calm_intro]: "calm (balloc_loop a0 a1)"
  by (induction a0 a1 rule: balloc_loop.induct) (auto simp: Let_def intro!: calm_intro)

lemma calm_balloc [calm_intro]:
  "calm (balloc a0)" "calm (bmap a1 a2)"
  by (auto simp: balloc_def bmap_def Let_def intro!: calm_intro)

lemma calm_ialloc_loop [calm_intro]: "calm (ialloc_loop a0 a1 a2)"
  by (induction a0 a1 a2 rule: ialloc_loop.induct) (auto simp: Let_def intro!: calm_intro)

lemma calm_ialloc [calm_intro]: "calm (ialloc a0 a1)"
  by (auto simp: ialloc_def Let_def intro!: calm_intro)

lemma calm_consolewrite [calm_intro]: "calm (consolewrite a0 a1)"
  by (auto simp: consolewrite_def Let_def intro!: calm_intro)

lemma calm_kill_line [calm_intro]: "calm (kill_line a0)"
  by (induction a0 rule: kill_line.induct) (auto simp: Let_def intro!: calm_intro)

lemma calm_cons_char [calm_intro]: "calm (cons_char a0)"
  by (auto simp: cons_char_def Let_def intro!: calm_intro)

lemma calm_cons_chars [calm_intro]: "calm (cons_chars a0 a1)"
  by (induction a0 a1 rule: cons_chars.induct) (auto simp: Let_def intro!: calm_intro)

lemma calm_consoleintr [calm_intro]:
  "calm (consoleintr a0)" "calm (kbdintr a1)" "calm (uartintr a2)"
  by (auto simp: consoleintr_def kbdintr_def uartintr_def Let_def intro!: calm_intro)

lemma calm_consoleread_loop [calm_intro]: "calm (consoleread_loop a0 a1 a2)"
  by (induction a0 a1 a2 rule: consoleread_loop.induct) (auto simp: Let_def intro!: calm_intro)

lemma calm_consoleread [calm_intro]: "calm (consoleread a0 a1)"
  by (auto simp: consoleread_def Let_def intro!: calm_intro)

lemma calm_devices [calm_intro]: "calm (call_dev_read f ip n)" "calm (call_dev_write g ip xs)"
  by (cases f; cases g; auto simp: call_dev_read_def call_dev_write_def intro!: calm_intro)+

lemma calm_readi_loop [calm_intro]: "calm (readi_loop a0 a1 a2)"
  by (induction a0 a1 a2 rule: readi_loop.induct, subst readi_loop.simps) (auto simp: Let_def intro!: calm_intro)

lemma calm_readi [calm_intro]: "calm (readi a0 a1 a2)"
  by (auto simp: readi_def Let_def intro!: calm_intro)

lemma calm_writei_loop [calm_intro]: "calm (writei_loop a0 a1 a2)"
  by (induction a0 a1 a2 rule: writei_loop.induct, subst writei_loop.simps) (auto simp: Let_def intro!: calm_intro)

lemma calm_writei [calm_intro]: "calm (writei a0 a1 a2 a3)"
  by (auto simp: writei_def Let_def intro!: calm_intro)

lemma calm_dirlookup_loop [calm_intro]: "calm (dirlookup_loop a0 a1 a2)"
  by (induction a0 a1 a2 rule: dirlookup_loop.induct) (auto simp: Let_def intro!: calm_intro)

lemma calm_dirlookup [calm_intro]: "calm (dirlookup a0 a1)"
  by (auto simp: dirlookup_def Let_def intro!: calm_intro)

lemma calm_empty_dirent [calm_intro]: "calm (empty_dirent a0 a1 a2)"
  by (induction a0 a1 a2 rule: empty_dirent.induct) (auto simp: Let_def intro!: calm_intro)

lemma calm_dirlink [calm_intro]: "calm (dirlink a0 a1 a2)"
  by (auto simp: dirlink_def Let_def intro!: calm_intro)

lemma calm_namex_loop [calm_intro]: "calm (namex_loop par ip path)"
  by (induction path arbitrary: ip rule: length_induct, subst namex_loop.simps) (auto simp: skipelem_shorter intro!: calm_intro)

lemma calm_namex [calm_intro]:
  "calm (namex a0 a1)" "calm (namei a2)" "calm (nameiparent a3)"
  by (auto simp: namex_def namei_def nameiparent_def Let_def intro!: calm_intro)

lemma calm_cur_killed [calm_intro]:
  "calm cur_killed" "calm (pipeclose a0 a1)"
  by (auto simp: cur_killed_def pipeclose_def Let_def intro!: calm_intro)

lemma calm_pipewrite_loop [calm_intro]: "calm (pipewrite_loop a0 a1)"
  by (induction a0 a1 rule: pipewrite_loop.induct) (auto simp: Let_def intro!: calm_intro)

lemma calm_pipewrite [calm_intro]: "calm (pipewrite a0 a1)"
  by (auto simp: pipewrite_def Let_def intro!: calm_intro)

lemma calm_piperead_loop [calm_intro]: "calm (piperead_loop a0 a1)"
  by (induction a0 a1 rule: piperead_loop.induct) (auto simp: Let_def intro!: calm_intro)

lemma calm_piperead [calm_intro]: "calm (piperead a0 a1)"
  by (auto simp: piperead_def Let_def intro!: calm_intro)

lemma calm_filestat [calm_intro]:
  "calm (filestat a0)" "calm (fileread a1 a2)"
  by (auto simp: filestat_def fileread_def Let_def intro!: calm_intro)

lemma calm_filewrite_loop [calm_intro]: "calm (filewrite_loop a0 a1 a2)"
  by (induction a0 a1 a2 rule: filewrite_loop.induct, subst filewrite_loop.simps) (auto simp: Let_def intro!: calm_intro)

lemma calm_filewrite [calm_intro]: "calm (filewrite a0 a1)"
  by (auto simp: filewrite_def Let_def intro!: calm_intro)

section \<open>System calls\<close>

lemma calm_fetchint [calm_intro]:
  "calm (fetchint a0)" "calm (argint a1)" "calm (argptr a2 a3)" "calm (argArray a4 a5)"
  by (auto simp: fetchint_def argint_def argptr_def argArray_def Let_def intro!: calm_intro)

lemma calm_fetchstr_loop [calm_intro]: "calm (fetchstr_loop a0 a1)"
  by (induction a0 a1 rule: fetchstr_loop.induct, subst fetchstr_loop.simps) (auto simp: Let_def intro!: calm_intro)

lemma calm_fetchstr [calm_intro]:
  "calm (fetchstr a0)" "calm (argstr a1)"
  by (auto simp: fetchstr_def argstr_def Let_def intro!: calm_intro)

lemma calm_exec_bad [calm_intro]: "calm (exec_bad a0 a1)"
  by (auto simp: exec_bad_def Let_def intro!: calm_intro)

lemma calm_loaduvm_loop [calm_intro]: "calm (loaduvm_loop d a ip off i len :: (int, 'z ftable_scheme) km)"
proof (induction i rule: measure_induct_rule[of "\<lambda>i. 2 ^ 32 - unat i"])
  case (less i)
  have "calm (loaduvm_loop d a ip off (i + PGSIZE) len :: (int, 'z ftable_scheme) km)" if "unat i + 4096 < 2 ^ 32"
    using that by (intro less) (simp add: PGSIZE_def unat_word_ariths)
  then show ?case by (subst loaduvm_loop.simps) (auto simp: Let_def intro!: calm_intro)
qed

lemma calm_loaduvm [calm_intro]: "calm (loaduvm a0 a1 a2 a3 a4)"
  by (auto simp: loaduvm_def Let_def intro!: calm_intro)

lemma calm_exec_load [calm_intro]: "calm (exec_load d ip off img n)"
  by (induction n arbitrary: off img) (auto simp: Let_def intro!: calm_intro)

lemma calm_exec_push [calm_intro]: "calm (exec_push a0 a1 a2 a3)"
  by (induction a0 a1 a2 a3 rule: exec_push.induct) (auto simp: Let_def intro!: calm_intro)

lemma calm_exec_stack [calm_intro]:
  "calm (exec_stack a0 a1 a2 a3 a4)" "calm (exec a5 a6)"
  by (auto simp: exec_stack_def exec_def Let_def intro!: calm_intro)

lemma calm_sys_kill [calm_intro]:
  "calm sys_kill" "calm sys_getpid" "calm sys_sbrk" "calm (sys_sleep_loop a0 a1)" "calm sys_uptime" "calm sys_getppid"
  "calm sys_getPerformanceData"
  by (auto simp: sys_kill_def sys_getpid_def sys_sbrk_def sys_sleep_loop_def sys_uptime_def sys_getppid_def
      sys_getPerformanceData_def Let_def
      intro!: calm_intro)

lemma calm_child_at [calm_intro]:
  "calm (child_at a0 a1)" "calm sys_getChildSize" "calm sys_nice" "calm sys_enableContextSwitchPrint" "calm sys_sleep"
  "calm sys_getAllChildsRtime" "calm sys_getAllChildsEtime"
  by (auto simp: child_at_def sys_getChildSize_def sys_nice_def sys_enableContextSwitchPrint_def sys_sleep_def
      sys_getAllChildsRtime_def sys_getAllChildsEtime_def Let_def
      intro!: calm_intro)

lemma calm_sys_getAllChildsCtime [calm_intro]:
  "calm sys_getAllChildsCtime" "calm sys_getChildPiorityAt"
  by (auto simp: sys_getAllChildsCtime_def sys_getChildPiorityAt_def Let_def intro!: calm_intro)

lemma calm_argfd [calm_intro]:
  "calm (argfd a0)" "calm (put_stat a1 a2)" "calm (add_nlink a3 a4)" "calm (unlink_bad a5)" "calm sys_chdir"
  "calm sys_read" "calm sys_write"
  by (auto simp: argfd_def put_stat_def add_nlink_def unlink_bad_def sys_chdir_def sys_read_def sys_write_def Let_def
      intro!: calm_intro)

lemma calm_sys_fstat [calm_intro]:
  "calm sys_fstat" "calm (link_bad a0)" "calm (unlink_entry a1 a2 a3)" "calm (create_new a4 a5 a6 a7 a8)"
  "calm (link_to a9 a10)" "calm (create a11 a12 a13 a14)" "calm sys_link"
  by (auto simp: sys_fstat_def link_bad_def unlink_entry_def create_new_def link_to_def create_def sys_link_def Let_def
      intro!: calm_intro)

lemma calm_open_inode [calm_intro]:
  "calm (open_inode a0 a1)" "calm sys_mkdir" "calm sys_mknod"
  by (auto simp: open_inode_def sys_mkdir_def sys_mknod_def Let_def intro!: calm_intro)

lemma calm_isdirempty_loop [calm_intro]: "calm (isdirempty_loop a0 a1)"
  by (induction a0 a1 rule: isdirempty_loop.induct) (auto simp: Let_def intro!: calm_intro)

lemma calm_isdirempty [calm_intro]:
  "calm (isdirempty a0)" "calm sys_unlink"
  by (auto simp: isdirempty_def sys_unlink_def Let_def intro!: calm_intro)

lemma calm_exec_args [calm_intro]: "calm (exec_args a0 a1)"
  by (induction a0 a1 rule: exec_args.induct) (auto simp: Let_def intro!: calm_intro)

lemma calm_sys_exec [calm_intro]: "calm sys_exec"
  by (auto simp: sys_exec_def Let_def intro!: calm_intro)

lemma calm_rd16 [calm_intro]:
  "calm (rd16 a0)" "calm timer_tick"
  by (auto simp: rd16_def timer_tick_def Let_def intro!: calm_intro)

end
