(* ===== verification/File_Refs.thy ===== *)
theory File_Refs
  imports Frames
begin

text \<open>
  Reference counts of the open-file table.  Every system call that returns leaves \<^verbatim>\<open>ref\<close> of each file equal to the number
  of descriptors that name it.  The proof follows the calls over \<open>core_view\<close>: \<open>does\<close> is a Hoare triple on the protected
  part of the state, in which everything calm is skipped, and \<open>refs d X\<close> says that the counts are off by \<open>d\<close>, as they are
  while a call holds a reference that is not yet, or no longer, in a descriptor.
\<close>

section \<open>Triples over the protected state\<close>

definition does :: "('z ftable_scheme \<Rightarrow> bool) \<Rightarrow> ('a, 'z ftable_scheme) km \<Rightarrow> core \<Rightarrow> ('a \<Rightarrow> core \<Rightarrow> bool) \<Rightarrow> bool" where
  "does S m v Q \<longleftrightarrow> (\<forall>s. live s \<and> core_view s = v \<longrightarrow>
     (\<forall>x t. m s = Ret x t \<longrightarrow> live t \<and> Q x (core_view t)) \<and> (\<forall>t. m s = Switched t \<longrightarrow> S t))"

lemma doesD:
  assumes "does S m (core_view s) Q" and "live s"
  shows "m s = Ret x t \<Longrightarrow> live t \<and> Q x (core_view t)" and "m s = Switched t \<Longrightarrow> S t"
  using assms unfolding does_def by blast+

lemma doesI:
  assumes "\<And>s x t. live s \<Longrightarrow> core_view s = v \<Longrightarrow> m s = Ret x t \<Longrightarrow> live t \<and> Q x (core_view t)"
    and "\<And>s t. live s \<Longrightarrow> core_view s = v \<Longrightarrow> m s = Switched t \<Longrightarrow> S t"
  shows "does S m v Q"
  using assms unfolding does_def by blast

lemma does_calm:
  assumes "calm m" and "asleep \<le> S" and "\<And>x. Q x v"
  shows "does S m v Q"
proof (rule doesI)
  show "live t \<and> Q x (core_view t)" if "live s" "core_view s = v" "m s = Ret x t" for s x t
    using calmD(1)[OF assms(1) that(1,3)] that(2) assms(3) by simp
  show "S t" if "live s" "core_view s = v" "m s = Switched t" for s t
    using calmD(2)[OF assms(1) that(1,3)] assms(2) by (auto simp: le_fun_def)
qed

lemma does_kbind:
  assumes "does S m v Q" and "\<And>x w. Q x w \<Longrightarrow> does S (n x) w R"
  shows "does S (kbind m n) v R"
proof (rule doesI)
  fix s :: "'a ftable_scheme"
  assume s: "live s" "core_view s = v"
  note m = doesD[OF assms(1)[folded s(2)] s(1)]
  { fix x t assume "kbind m n s = Ret x t"
    then obtain y u where "m s = Ret y u" "n y u = Ret x t" by (auto dest: kbind_RetD)
    then show "live t \<and> R x (core_view t)" using m(1)[of y u] doesD(1)[OF assms(2)] by blast }
  { fix t assume "kbind m n s = Switched t"
    then consider "m s = Switched t" | y u where "m s = Ret y u" "n y u = Switched t"
      by (auto simp: kbind_apply split: outcome.splits)
    then show "S t" using m doesD(2)[OF assms(2)] by cases blast+ }
qed

lemma does_kthen: "does S m v Q \<Longrightarrow> (\<And>x w. Q x w \<Longrightarrow> does S n w R) \<Longrightarrow> does S (kthen m n) v R"
  unfolding kthen_def by (rule does_kbind)

lemma does_calm_kbind: "calm m \<Longrightarrow> asleep \<le> S \<Longrightarrow> (\<And>x. does S (n x) v R) \<Longrightarrow> does S (kbind m n) v R"
  by (rule does_kbind[OF does_calm[of m S "\<lambda>_ w. w = v"]]) auto

lemma does_calm_kthen: "calm m \<Longrightarrow> asleep \<le> S \<Longrightarrow> does S n v R \<Longrightarrow> does S (kthen m n) v R"
  unfolding kthen_def by (rule does_calm_kbind)

lemma does_get:
  "(\<And>s. live s \<Longrightarrow> core_view s = v \<Longrightarrow> does S (n (f s)) v R) \<Longrightarrow> does S (kbind (kget f) n) v R"
  unfolding does_def kbind_apply kget_apply outcome.case by blast

lemma does_prim:
  "Q x v \<Longrightarrow> does S (ret x) v Q" "does S (panic msg) v Q'" "does S (fault msg) v Q''"
  by (simp_all add: does_def)

lemma does_upd_proc:
  assumes "\<And>q. proc_core (f q) = g (proc_core q)"
    and "live_core (v\<lparr>c_procs := upd_nth p g (c_procs v)\<rparr>)" and "Q () (v\<lparr>c_procs := upd_nth p g (c_procs v)\<rparr>)"
    and "p < length (c_procs v)"
  shows "does S (kmod (upd_proc p f)) v Q"
proof (rule doesI)
  fix s :: "'a ftable_scheme" and x t
  assume s: "live s" "core_view s = v" "kmod (upd_proc p f) s = Ret x t"
  have "map proc_core (upd_nth p f (procs s)) = upd_nth p g (map proc_core (procs s))"
    using assms(1,4) s(2) by (auto simp: upd_nth_def map_update core_view_def)
  then have "core_view t = v\<lparr>c_procs := upd_nth p g (c_procs v)\<rparr>" using s by (auto simp: core_view_def)
  then show "live t \<and> Q x (core_view t)" using assms(2,3) by (simp add: live_def)
qed simp

lemma does_upd_file:
  assumes "\<And>f. fref (h f) = g (fref f)" and "Q () (v\<lparr>c_frefs := upd_nth k g (c_frefs v)\<rparr>)" and "k < length (c_frefs v)"
  shows "does S (kmod (upd_file k h)) v Q"
proof (rule doesI)
  fix s :: "'a ftable_scheme" and x t
  assume s: "live s" "core_view s = v" "kmod (upd_file k h) s = Ret x t"
  have "map fref (upd_nth k h (files s)) = upd_nth k g (map fref (files s))"
    using assms(1,3) s(2) by (auto simp: upd_nth_def map_update core_view_def)
  then have "core_view t = v\<lparr>c_frefs := upd_nth k g (c_frefs v)\<rparr>" using s by (auto simp: core_view_def)
  then show "live t \<and> Q x (core_view t)" using assms(2) s(1,2) by (simp add: live_def live_core_def)
qed simp

text \<open>Reading the current process.\<close>

lemma does_with_proc:
  "(\<And>p. c_cur v = Some p \<Longrightarrow> p < length (c_procs v) \<Longrightarrow> \<not> c_idle (c_procs v ! p) \<Longrightarrow> does S (f p) v R) \<Longrightarrow> does S (with_proc f) v R"
  unfolding with_proc_def
proof (rule does_get)
  fix s :: "'a ftable_scheme"
  assume f: "\<And>p. c_cur v = Some p \<Longrightarrow> p < length (c_procs v) \<Longrightarrow> \<not> c_idle (c_procs v ! p) \<Longrightarrow> does S (f p) v R"
    and s: "live s" "core_view s = v"
  have "c_cur v = curproc s" "live_core v" using s by (auto simp: core_view_def live_def)
  then show "does S (case curproc s of None \<Rightarrow> fault ''proc'' | Some p \<Rightarrow> f p) v R"
    by (auto simp: live_core_def intro: does_prim f split: option.split)
qed

section \<open>Operations of the file table\<close>

lemma core_view_nth:
  "core_view s = v \<Longrightarrow> i < length (c_procs v) \<Longrightarrow> proc_core (procs s ! i) = c_procs v ! i"
  "core_view s = v \<Longrightarrow> k < length (c_frefs v) \<Longrightarrow> fref (files s ! k) = c_frefs v ! k"
  by (auto simp: core_view_def)

lemma core_ofile: "core_view s = v \<Longrightarrow> i < length (c_procs v) \<Longrightarrow> ofile (procs s ! i) = c_ofile (c_procs v ! i)"
  by (auto simp: core_view_def proc_core_def)

definition bump :: "nat \<Rightarrow> int \<Rightarrow> core \<Rightarrow> core" where
  "bump k n v = v\<lparr>c_frefs := upd_nth k (\<lambda>r. r + n) (c_frefs v)\<rparr>"

definition set_fd :: "nat \<Rightarrow> nat \<Rightarrow> nat option \<Rightarrow> core \<Rightarrow> core" where
  "set_fd p fd x v = v\<lparr>c_procs := upd_nth p (\<lambda>q. q\<lparr>c_ofile := (c_ofile q)[fd := x]\<rparr>) (c_procs v)\<rparr>"

lemma does_mono: "does S m v Q \<Longrightarrow> (\<And>x w. Q x w \<Longrightarrow> R x w) \<Longrightarrow> does S m v R"
  unfolding does_def by blast

lemma filealloc_does:
  assumes "asleep \<le> S"
  shows "does S filealloc v (\<lambda>r w. case r of None \<Rightarrow> w = v | Some k \<Rightarrow> k < length (c_frefs v) \<and> w = bump k 1 v)"
  unfolding filealloc_def
proof (intro does_calm_kthen does_get calm_intro assms, goal_cases)
  case (1 s)
  show ?case
  proof (cases "first_index (\<lambda>f. fref f = 0) (files s)")
    case None
    then show ?thesis unfolding None option.case by (intro does_calm_kthen calm_intro assms does_prim) simp
  next
    case (Some k)
    then have k: "k < length (c_frefs v)" "c_frefs v ! k = 0"
      using 1 first_index_SomeD[OF Some] by (auto simp: core_view_def)
    then have "does S (kmod (upd_file k (\<lambda>f. f\<lparr>fref := 1\<rparr>))) v (\<lambda>_ w. w = bump k 1 v)"
      by (intro does_upd_file[where g = "\<lambda>_. 1"]) (simp_all add: bump_def upd_nth_def)
    then show ?thesis unfolding Some option.case
      by (rule does_kthen) (auto intro!: does_calm_kthen calm_intro assms does_prim k)
  qed
qed

lemma filedup_does:
  assumes "asleep \<le> S" and "k < length (c_frefs v)"
  shows "does S (filedup k) v (\<lambda>r w. r = k \<and> w = bump k 1 v)"
  unfolding filedup_def
proof (intro does_calm_kthen does_get calm_intro assms, goal_cases)
  case (1 s)
  have "does S (kmod (upd_file k (\<lambda>f. f\<lparr>fref := fref f + 1\<rparr>))) v (\<lambda>_ w. w = bump k 1 v)"
    by (rule does_upd_file[where g = "\<lambda>r. r + 1"]) (use assms in \<open>simp_all add: bump_def\<close>)
  then show ?case by (auto intro!: does_prim does_calm_kthen calm_intro assms elim!: does_kthen)
qed

lemma fileclose_does:
  assumes S: "asleep \<le> S" and k: "k < length (c_frefs v)"
  shows "does S (fileclose k) v (\<lambda>_ w. w = bump k (- 1) v)"
  unfolding fileclose_def
proof (intro does_calm_kthen does_get calm_intro S, goal_cases)
  case (1 s)
  have r: "fref (files s ! k) = c_frefs v ! k" using 1(2) k by (rule core_view_nth(2))
  have dec: "does S (kmod (upd_file k (\<lambda>f. f\<lparr>fref := fref f - 1\<rparr>))) v (\<lambda>_ w. w = bump k (- 1) v)"
    by (rule does_upd_file[where g = "\<lambda>r. r + (- 1)"]) (use k in \<open>simp_all add: bump_def\<close>)
  have clear: "does S (kmod (upd_file k (\<lambda>f. f\<lparr>fref := 0, ftype := FD_NONE\<rparr>))) (bump k (- 1) v) (\<lambda>_ w. w = bump k (- 1) v)"
    if "c_frefs v ! k = 1"
    by (rule does_upd_file[where g = "\<lambda>_. 0"]) (use k that in \<open>simp_all add: bump_def upd_nth_def\<close>)
  consider "c_frefs v ! k < 1" | "c_frefs v ! k = 1" | "1 < c_frefs v ! k" by linarith
  then show ?case
  proof cases
    case 2
    then show ?thesis
      by (auto simp: r intro!: does_kthen[OF dec] does_get does_kthen[OF clear] does_calm calm_intro S)
  qed (auto simp: r intro!: does_prim does_kthen[OF dec] does_calm calm_intro S)
qed

lemma fdalloc_does:
  assumes "asleep \<le> S"
  shows "does S (fdalloc k) v (\<lambda>r w. if r < 0 then w = v else
     \<exists>p. c_cur v = Some p \<and> p < length (c_procs v) \<and> \<not> c_idle (c_procs v ! p) \<and> nat r < length (c_ofile (c_procs v ! p)) \<and>
       c_ofile (c_procs v ! p) ! nat r = None \<and> w = set_fd p (nat r) (Some k) v)"
  unfolding fdalloc_def
proof (intro does_with_proc does_get, goal_cases)
  case (1 p s)
  have o: "ofile (procs s ! p) = c_ofile (c_procs v ! p)" using 1 by (intro core_ofile)
  show ?case
  proof (cases "first_index (\<lambda>x. x = None) (ofile (procs s ! p))")
    case None
    then show ?thesis unfolding None option.case by (intro does_prim) simp
  next
    case (Some fd)
    have fd: "fd < length (c_ofile (c_procs v ! p))" "c_ofile (c_procs v ! p) ! fd = None"
      using first_index_SomeD[OF Some] unfolding o by simp_all
    have "live_core v" using 1 by (simp add: live_def)
    then have "does S (kmod (upd_proc p (\<lambda>q. q\<lparr>ofile := (ofile q)[fd := Some k]\<rparr>))) v (\<lambda>_ w. w = set_fd p fd (Some k) v)"
      using 1 by (intro does_upd_proc[where g = "\<lambda>q. q\<lparr>c_ofile := (c_ofile q)[fd := Some k]\<rparr>"])
        (auto simp: proc_core_def set_fd_def live_core_def upd_nth_nth)
    then show ?thesis unfolding Some option.case using 1 fd by (auto intro!: does_prim elim!: does_kthen)
  qed
qed

section \<open>Counting references\<close>

definition fd_count :: "core \<Rightarrow> nat \<Rightarrow> nat" where
  "fd_count v k = (\<Sum>q \<leftarrow> c_procs v. count_list (c_ofile q) (Some k))"

lemma fd_count_ofiles: "fd_count v k = (\<Sum>xs \<leftarrow> map c_ofile (c_procs v). count_list xs (Some k))"
  by (simp add: fd_count_def comp_def)

definition pcore_ok :: "pcore \<Rightarrow> bool" where
  "pcore_ok q \<longleftrightarrow> length (c_ofile q) = NOFILE \<and> (\<forall>k. Some k \<in> set (c_ofile q) \<longrightarrow> k < NFILE)"

text \<open>The slots in \<open>X\<close> may be idle and hold descriptors; the count of file \<open>k\<close> exceeds its descriptors by \<open>d k\<close>.\<close>

definition refs :: "(nat \<Rightarrow> int) \<Rightarrow> nat set \<Rightarrow> core \<Rightarrow> bool" where
  "refs d X v \<longleftrightarrow> length (c_procs v) = NPROC \<and> length (c_frefs v) = NFILE \<and> (\<forall>q \<in> set (c_procs v). pcore_ok q) \<and>
     (\<forall>i < NPROC. i \<notin> X \<longrightarrow> c_idle (c_procs v ! i) \<longrightarrow> set (c_ofile (c_procs v ! i)) \<subseteq> {None}) \<and>
     (\<forall>k < NFILE. c_frefs v ! k = int (fd_count v k) + d k)"

definition add_at :: "nat \<Rightarrow> int \<Rightarrow> (nat \<Rightarrow> int) \<Rightarrow> nat \<Rightarrow> int" where
  "add_at k n d = d(k := d k + n)"

lemma add_at_cancel [simp]: "add_at k (- n) (add_at k n d) = d" "add_at k n (add_at k (- n) d) = d"
  by (auto simp: add_at_def)

lemma add_at_commute: "add_at j m (add_at k n d) = add_at k n (add_at j m d)"
  by (auto simp: add_at_def)

lemma refs_bump: "refs d X v \<Longrightarrow> k < NFILE \<Longrightarrow> refs (add_at k n d) X (bump k n v)"
  by (auto simp: refs_def bump_def fd_count_def upd_nth_nth add_at_def)

lemma count_list_update:
  "i < length xs \<Longrightarrow> int (count_list (xs[i := y]) z) =
     int (count_list xs z) - (if xs ! i = z then 1 else 0) + (if y = z then 1 else 0)"
proof (induction xs arbitrary: i)
  case (Cons a xs)
  show ?case
  proof (cases i)
    case (Suc j)
    then show ?thesis using Cons.IH[of j] Cons.prems by (auto split: if_splits)
  qed simp
qed simp

lemma sum_list_update: "i < length xs \<Longrightarrow> int (sum_list (map f (xs[i := y]))) = int (sum_list (map f xs)) - int (f (xs ! i)) + int (f y)"
proof (induction xs arbitrary: i)
  case (Cons a xs)
  then show ?case by (cases i) simp_all
qed simp

lemma fd_count_set_fd:
  assumes "p < length (c_procs v)" and "fd < length (c_ofile (c_procs v ! p))"
  shows "int (fd_count (set_fd p fd x v) k) =
     int (fd_count v k) - (if c_ofile (c_procs v ! p) ! fd = Some k then 1 else 0) + (if x = Some k then 1 else 0)"
  using assms by (simp add: fd_count_def set_fd_def upd_nth_def sum_list_update count_list_update)

lemma set_update_cases: "x \<in> set (xs[i := y]) \<Longrightarrow> x = y \<or> x \<in> set xs"
  using set_update_subset_insert[of xs i y] by auto

lemma refs_set_fd:
  assumes r: "refs d X v" and p: "p < NPROC" and fd: "fd < NOFILE"
    and x: "\<And>k. x = Some k \<Longrightarrow> k < NFILE" and idle: "c_idle (c_procs v ! p) \<Longrightarrow> p \<in> X \<or> x = None"
    and e: "\<And>k. k < NFILE \<Longrightarrow> e k = d k + (if c_ofile (c_procs v ! p) ! fd = Some k then 1 else 0) - (if x = Some k then 1 else 0)"
  shows "refs e X (set_fd p fd x v)"
proof -
  let ?q = "c_procs v ! p"
  have l: "length (c_procs v) = NPROC" "length (c_frefs v) = NFILE" "pcore_ok ?q" using r p by (auto simp: refs_def)
  then have "pcore_ok (?q\<lparr>c_ofile := (c_ofile ?q)[fd := x]\<rparr>)"
    using x by (auto simp: pcore_ok_def dest!: set_update_cases)
  moreover have "pcore_ok q" if "q \<in> set (c_procs v)" for q using r that by (simp add: refs_def)
  ultimately have ok: "\<forall>q \<in> set (c_procs (set_fd p fd x v)). pcore_ok q"
    by (auto simp: set_fd_def upd_nth_def dest!: set_update_cases)
  have "set (c_ofile (c_procs (set_fd p fd x v) ! i)) \<subseteq> {None}" if "i < NPROC" "i \<notin> X" "c_idle (c_procs (set_fd p fd x v) ! i)" for i
    using r that idle l(1) by (auto simp: set_fd_def upd_nth_nth refs_def split: if_splits dest!: set_update_cases)
  moreover have "c_frefs (set_fd p fd x v) ! k = int (fd_count (set_fd p fd x v) k) + e k" if "k < NFILE" for k
  proof -
    have "int (fd_count (set_fd p fd x v) k) = int (fd_count v k) - (if c_ofile ?q ! fd = Some k then 1 else 0) + (if x = Some k then 1 else 0)"
      using l fd p by (intro fd_count_set_fd) (auto simp: pcore_ok_def)
    then show ?thesis using r that e[OF that] by (simp add: set_fd_def refs_def)
  qed
  ultimately show ?thesis using l ok by (simp add: refs_def set_fd_def)
qed

text \<open>A free descriptor takes a reference, a closed one leaves it to its caller.\<close>

lemma refs_open_fd:
  assumes "refs d X v" and "p < NPROC" and "fd < NOFILE" and "c_ofile (c_procs v ! p) ! fd = None" and "k < NFILE"
    and "c_idle (c_procs v ! p) \<Longrightarrow> p \<in> X"
  shows "refs (add_at k (- 1) d) X (set_fd p fd (Some k) v)"
  by (rule refs_set_fd[OF assms(1-3)]) (use assms in \<open>auto simp: add_at_def\<close>)

lemma refs_close_fd:
  assumes "refs d X v" and "p < NPROC" and "fd < NOFILE" and "c_ofile (c_procs v ! p) ! fd = Some k"
  shows "refs (add_at k 1 d) X (set_fd p fd None v)"
  by (rule refs_set_fd[OF assms(1-3)]) (use assms in \<open>auto simp: add_at_def\<close>)

lemma refs_fd:
  assumes "refs d X v" and "p < NPROC" and "fd < NOFILE" and "c_ofile (c_procs v ! p) ! fd = Some k"
  shows "k < NFILE"
proof -
  have "pcore_ok (c_procs v ! p)" using assms(1,2) by (auto simp: refs_def)
  then show ?thesis using assms(3,4) nth_mem[of fd "c_ofile (c_procs v ! p)"] by (auto simp: pcore_ok_def)
qed

lemma refs_lengths:
  assumes "refs d X v"
  shows "length (c_procs v) = NPROC" "length (c_frefs v) = NFILE" "i < NPROC \<Longrightarrow> length (c_ofile (c_procs v ! i)) = NOFILE"
  using assms by (auto simp: refs_def pcore_ok_def)

lemma refs_upd_other:
  assumes "c_ofile (f (c_procs v ! i)) = c_ofile (c_procs v ! i)" "c_idle (f (c_procs v ! i)) = c_idle (c_procs v ! i)"
    and "refs d X v"
  shows "refs d X (v\<lparr>c_procs := upd_nth i f (c_procs v)\<rparr>)"
proof (cases "i < length (c_procs v)")
  case True
  have "map c_ofile (upd_nth i f (c_procs v)) = map c_ofile (c_procs v)"
    using assms(1) True by (intro nth_equalityI) (auto simp: upd_nth_nth)
  then have "fd_count (v\<lparr>c_procs := upd_nth i f (c_procs v)\<rparr>) = fd_count v"
    by (intro ext) (simp add: fd_count_ofiles del: map_map)
  moreover have "pcore_ok q" if "q \<in> set (upd_nth i f (c_procs v))" for q
  proof -
    have "q = f (c_procs v ! i) \<or> q \<in> set (c_procs v)" using in_set_upd_nthD[OF that True] .
    moreover have "pcore_ok (c_procs v ! i)" "q \<in> set (c_procs v) \<Longrightarrow> pcore_ok q" using assms(3) True by (auto simp: refs_def)
    ultimately show ?thesis using assms(1) by (auto simp: pcore_ok_def)
  qed
  ultimately show ?thesis using assms True by (simp add: refs_def upd_nth_nth)
next
  case False
  then have "v\<lparr>c_procs := upd_nth i f (c_procs v)\<rparr> = v" by (simp add: upd_nth_def list_update_beyond)
  then show ?thesis using assms(3) by simp
qed

section \<open>Calls on descriptors\<close>

text \<open>With nothing in flight, the counts are exact.\<close>

abbreviation exact :: "core \<Rightarrow> bool" where
  "exact \<equiv> refs (\<lambda>_. 0) {}"

text \<open>Descriptor \<open>fd\<close> of the current process is file \<open>k\<close>.\<close>

definition slot_has :: "nat \<Rightarrow> nat \<Rightarrow> core \<Rightarrow> bool" where
  "slot_has fd k v \<longleftrightarrow> (\<exists>p. c_cur v = Some p \<and> p < length (c_procs v) \<and> \<not> c_idle (c_procs v ! p) \<and> fd < NOFILE \<and>
     c_ofile (c_procs v ! p) ! fd = Some k)"

lemma slot_has_file: "refs d X v \<Longrightarrow> slot_has fd k v \<Longrightarrow> k < NFILE"
  unfolding slot_has_def using refs_fd refs_lengths(1) by metis

lemma calm_initlock [calm_intro]: "calm (initlock l nm)"
  by (auto simp: initlock_def intro!: calm_intro)

lemma argfd_slot:
  assumes "asleep \<le> S"
  shows "does S (argfd n) v (\<lambda>r w. w = v \<and> (\<forall>fd k. r = Some (fd, k) \<longrightarrow> slot_has fd k v))"
  unfolding argfd_def
proof (intro does_calm_kbind calm_intro assms, goal_cases)
  case (1 r)
  show ?case
  proof (cases "\<exists>x. r = Some x \<and> \<not> (sint x < 0 \<or> int NOFILE \<le> sint x)")
    case True
    then obtain x where x: "r = Some x" "\<not> sint x < 0" "sint x < int NOFILE" by auto
    then have "unat x < NOFILE" using unat_nonnegative[of x] by simp
    then show ?thesis using x by (auto intro!: does_with_proc does_get does_prim simp: core_ofile slot_has_def)
  qed (auto intro!: does_prim split: option.split)
qed

lemma filealloc_refs:
  assumes "asleep \<le> S" and "refs d X v"
  shows "does S filealloc v (\<lambda>r w. case r of None \<Rightarrow> refs d X w | Some k \<Rightarrow> k < NFILE \<and> refs (add_at k 1 d) X w)"
  by (rule does_mono[OF filealloc_does[OF assms(1)]])
    (use assms(2) refs_bump[OF assms(2)] refs_lengths(2)[OF assms(2)] in \<open>auto split: option.splits\<close>)

lemma filedup_refs:
  assumes "asleep \<le> S" and "refs d X v" and "k < NFILE"
  shows "does S (filedup k) v (\<lambda>r w. r = k \<and> w = bump k 1 v \<and> refs (add_at k 1 d) X w)"
  by (rule does_mono[OF filedup_does[OF assms(1)]]) (use assms refs_bump[OF assms(2)] refs_lengths(2)[OF assms(2)] in auto)

lemma fileclose_refs:
  assumes "asleep \<le> S" and "refs d X v" and "k < NFILE"
  shows "does S (fileclose k) v (\<lambda>_ w. w = bump k (- 1) v \<and> refs (add_at k (- 1) d) X w)"
  by (rule does_mono[OF fileclose_does[OF assms(1)]]) (use assms refs_bump[OF assms(2)] refs_lengths(2)[OF assms(2)] in auto)

lemma fdalloc_refs:
  assumes "asleep \<le> S" and r: "refs d X v" and k: "k < NFILE"
  shows "does S (fdalloc k) v (\<lambda>r w. if r < 0 then w = v else refs (add_at k (- 1) d) X w \<and> slot_has (nat r) k w)"
proof (rule does_mono[OF fdalloc_does[OF assms(1)]], goal_cases)
  case (1 x w)
  show ?case
  proof (cases "x < 0")
    case False
    then obtain p where p: "c_cur v = Some p" "p < NPROC" "\<not> c_idle (c_procs v ! p)" "nat x < NOFILE"
      "c_ofile (c_procs v ! p) ! nat x = None" "w = set_fd p (nat x) (Some k) v"
      using 1 refs_lengths[OF r] by auto
    have "refs (add_at k (- 1) d) X w" unfolding p(6) by (rule refs_open_fd[OF r p(2,4,5) k]) (use p(3) in simp)
    moreover have "slot_has (nat x) k w"
      using p refs_lengths[OF r] by (auto simp: slot_has_def set_fd_def)
    ultimately show ?thesis using False by simp
  qed (use 1 r in simp)
qed

lemma clear_fd_refs:
  assumes "refs d X v" and "slot_has fd k v"
  shows "does S (with_proc (\<lambda>p. kmod (upd_proc p (\<lambda>q. q\<lparr>ofile := (ofile q)[fd := None]\<rparr>)))) v (\<lambda>_. refs (add_at k 1 d) X)"
proof (rule does_with_proc)
  fix p
  assume p: "c_cur v = Some p" "p < length (c_procs v)" "\<not> c_idle (c_procs v ! p)"
  then have "refs (add_at k 1 d) X (set_fd p fd None v)"
    using assms refs_lengths[OF assms(1)] by (intro refs_close_fd) (auto simp: slot_has_def)
  then show "does S (kmod (upd_proc p (\<lambda>q. q\<lparr>ofile := (ofile q)[fd := None]\<rparr>))) v (\<lambda>_. refs (add_at k 1 d) X)"
    using p by (intro does_upd_proc[where g = "\<lambda>q. q\<lparr>c_ofile := (c_ofile q)[fd := None]\<rparr>"])
      (auto simp: proc_core_def set_fd_def live_core_def upd_nth_nth)
qed

lemma sys_dup_does:
  assumes S: "asleep \<le> S" and r: "exact v"
  shows "does S sys_dup v (\<lambda>_. exact)"
  unfolding sys_dup_def
proof (rule does_kbind[OF argfd_slot[OF S]], goal_cases)
  case (1 a w)
  have dup: "does S (kthen (filedup k) (ret x)) u (\<lambda>_. exact)" if "k < NFILE" "refs (add_at k (- 1) (\<lambda>_. 0)) {} u" for k x u
    by (rule does_kthen[OF filedup_refs[OF S that(2,1)]]) (auto intro!: does_prim)
  show ?case using 1 r slot_has_file[OF r]
    by (auto intro!: does_prim dup does_kbind[OF fdalloc_refs[OF S r]] split: option.split if_splits)
qed

lemma sys_close_does:
  assumes S: "asleep \<le> S" and r: "exact v"
  shows "does S sys_close v (\<lambda>_. exact)"
  unfolding sys_close_def
proof (rule does_kbind[OF argfd_slot[OF S]], goal_cases)
  case (1 a w)
  have cl: "does S (kthen (fileclose k) (ret 0)) u (\<lambda>_. exact)" if "k < NFILE" "refs (add_at k 1 (\<lambda>_. 0)) {} u" for k u
    by (rule does_kthen[OF fileclose_refs[OF S that(2,1)]]) (auto intro!: does_prim)
  show ?case using 1 r slot_has_file[OF r]
    by (auto intro!: does_prim cl does_kthen[OF clear_fd_refs[OF r]] split: option.split)
qed

lemma open_file_does:
  assumes S: "asleep \<le> S" and r: "exact v"
  shows "does S (open_file ip omode) v (\<lambda>_. exact)"
  unfolding open_file_def
proof (rule does_kbind[OF filealloc_refs[OF S r]], goal_cases)
  case (1 f w)
  show ?case
  proof (cases f)
    case None
    then show ?thesis using 1 by (auto intro!: does_calm calm_intro S)
  next
    case (Some k)
    then have k: "k < NFILE" and c: "refs (add_at k 1 (\<lambda>_. 0)) {} w" using 1 by auto
    have undo: "does S (kthen (fileclose k) (kthen (iunlockput ip) (kthen end_op (ret (- 1))))) w (\<lambda>_. exact)"
      by (rule does_kthen[OF fileclose_refs[OF S c k]]) (auto intro!: does_calm calm_intro S)
    show ?thesis unfolding Some option.case
    proof (rule does_kbind[OF fdalloc_refs[OF S c k]], goal_cases)
      case (1 fd u)
      show ?case
      proof (cases "fd < 0")
        case False
        then show ?thesis using 1 by (auto intro!: does_calm calm_intro S)
      qed (use 1 undo in simp)
    qed
  qed
qed

lemma sys_open_does: "asleep \<le> S \<Longrightarrow> exact v \<Longrightarrow> does S sys_open v (\<lambda>_. exact)"
  unfolding sys_open_def
  by (auto intro!: does_calm_kbind does_calm_kthen calm_intro does_prim open_file_does split: option.split)

text \<open>A pipe comes with two references in flight.\<close>

lemma pipealloc_refs:
  assumes S: "asleep \<le> S" and r: "refs d X v"
  shows "does S pipealloc v (\<lambda>r w. case r of None \<Rightarrow> refs d X w
     | Some (a, b) \<Rightarrow> a < NFILE \<and> b < NFILE \<and> refs (add_at b 1 (add_at a 1 d)) X w)"
  unfolding pipealloc_def
proof (rule does_kbind[OF filealloc_refs[OF S r]], goal_cases)
  case (1 f0 w)
  show ?case
  proof (cases f0)
    case None
    then show ?thesis using 1 by (auto intro!: does_prim)
  next
    case (Some a)
    then have a: "a < NFILE" and c: "refs (add_at a 1 d) X w" using 1 by auto
    have one: "does S (kthen (fileclose a) (ret None)) u (\<lambda>r w. case r of None \<Rightarrow> refs d X w
        | Some (a, b) \<Rightarrow> a < NFILE \<and> b < NFILE \<and> refs (add_at b 1 (add_at a 1 d)) X w)" if "refs (add_at a 1 d) X u" for u
      by (rule does_kthen[OF fileclose_refs[OF S that a]]) (auto intro!: does_prim)
    show ?thesis unfolding Some option.case
    proof (rule does_kbind[OF filealloc_refs[OF S c]], goal_cases)
      case (1 f1 u)
      show ?case
      proof (cases f1)
        case None
        then show ?thesis using 1 one by auto
      next
        case (Some b)
        then have b: "b < NFILE" and e: "refs (add_at b 1 (add_at a 1 d)) X u" using 1 by auto
        have two: "does S (kthen (fileclose a) (kthen (fileclose b) (ret None))) u (\<lambda>r w. case r of None \<Rightarrow> refs d X w
            | Some (a, b) \<Rightarrow> a < NFILE \<and> b < NFILE \<and> refs (add_at b 1 (add_at a 1 d)) X w)"
          by (rule does_kthen[OF fileclose_refs[OF S e[unfolded add_at_commute[of b]] a]])
            (auto intro!: does_kthen[OF fileclose_refs[OF S _ b]] does_prim)
        show ?thesis unfolding Some option.case
        proof (rule does_calm_kbind[OF _ S], goal_cases)
          case (2 p)
          show ?case
          proof (cases "p = 0")
            case False
            then show ?thesis using a b e by (auto intro!: does_calm_kthen calm_intro S does_prim)
          qed (use two in simp)
        qed (rule calm_intro)
      qed
    qed
  qed
qed

lemma sys_pipe_does:
  assumes S: "asleep \<le> S" and r: "exact v"
  shows "does S sys_pipe v (\<lambda>_. exact)"
  unfolding sys_pipe_def
proof (rule does_calm_kbind[OF _ S], goal_cases)
  case (2 ptr)
  show ?case
  proof (cases ptr)
    case None
    then show ?thesis using r by (auto intro!: does_prim)
  next
    case (Some fd)
    show ?thesis unfolding Some option.case
    proof (rule does_kbind[OF pipealloc_refs[OF S r]], goal_cases)
      case (1 ab w)
      show ?case
      proof (cases ab)
        case None
        then show ?thesis using 1 by (auto intro!: does_prim)
      next
        case (Some p)
        obtain a b where p: "p = (a, b)" by (cases p)
        have a: "a < NFILE" and b: "b < NFILE" and e: "refs (add_at a 1 (add_at b 1 (\<lambda>_. 0))) {} w"
          using 1 Some p by (auto simp: add_at_commute)
        have undo: "does S (kthen (fileclose a) (kthen (fileclose b) (ret (- 1)))) u (\<lambda>_. exact)"
          if "refs (add_at a 1 (add_at b 1 (\<lambda>_. 0))) {} u" for u
          by (rule does_kthen[OF fileclose_refs[OF S that a]]) (auto intro!: does_kthen[OF fileclose_refs[OF S _ b]] does_prim)
        show ?thesis unfolding Some p option.case prod.case
        proof (rule does_kbind[OF fdalloc_refs[OF S e a]], goal_cases)
          case (1 fd0 u)
          show ?case
          proof (cases "fd0 < 0")
            case True
            then show ?thesis using 1 e by (auto intro!: does_calm_kbind calm_intro S does_calm_kthen[OF calm_prim(1)] undo)
          next
            case False
            then have u: "refs (add_at b 1 (\<lambda>_. 0)) {} u" "slot_has (nat fd0) a u" using 1 by auto
            have fail: "does S (kthen (with_proc (\<lambda>p. kmod (upd_proc p (\<lambda>q. q\<lparr>ofile := (ofile q)[nat fd0 := None]\<rparr>))))
                (kthen (fileclose a) (kthen (fileclose b) (ret (- 1))))) u (\<lambda>_. exact)"
              by (rule does_kthen[OF clear_fd_refs[OF u]]) (rule undo)
            show ?thesis unfolding if_not_P[OF False]
            proof (rule does_kbind[OF fdalloc_refs[OF S u(1) b]], goal_cases)
              case (1 fd1 x)
              then show ?case using False fail
                by (cases "fd1 < 0") (auto intro!: does_calm_kthen calm_intro S does_prim)
            qed
          qed
        qed
      qed
    qed
  qed
qed (rule calm_intro)

end
