(* ===== verification/Kernel_Inv.thy ===== *)
theory Kernel_Inv
  imports File_Refs
begin

text \<open>
  Creation, exit and collection of processes keep the reference counts of the file table, and so does every entry of the
  table of system calls.  The same proof shows how a system call may give up the CPU: asleep on a channel, or as a zombie.
\<close>

section \<open>Exact reference counts\<close>

text \<open>Every file has as many references as there are descriptors that name it, and unused slots have no descriptors.\<close>

definition file_refs :: "'z ftable_scheme \<Rightarrow> bool" where
  "file_refs s \<longleftrightarrow> length (procs s) = NPROC \<and> length (files s) = NFILE \<and>
     (\<forall>q \<in> set (procs s). length (ofile q) = NOFILE \<and> (\<forall>x \<in> set (ofile q). case x of None \<Rightarrow> True | Some k \<Rightarrow> k < NFILE) \<and>
        (idle (state q) \<longrightarrow> set (ofile q) \<subseteq> {None})) \<and>
     (\<forall>k < NFILE. fref (files s ! k) = int (\<Sum>q \<leftarrow> procs s. count_list (ofile q) (Some k)))"

lemma file_refs_core: "file_refs s \<longleftrightarrow> exact (core_view s)"
proof -
  have "(\<forall>q \<in> set (procs s). idle (state q) \<longrightarrow> set (ofile q) \<subseteq> {None}) \<longleftrightarrow>
      (\<forall>i < NPROC. c_idle (c_procs (core_view s) ! i) \<longrightarrow> set (c_ofile (c_procs (core_view s) ! i)) \<subseteq> {None})"
    if "length (procs s) = NPROC"
    using that by (auto simp: all_set_conv_all_nth core_view_def proc_core_def)
  moreover have "pcore_ok (proc_core q) \<longleftrightarrow> length (ofile q) = NOFILE \<and> (\<forall>x \<in> set (ofile q). case x of None \<Rightarrow> True | Some k \<Rightarrow> k < NFILE)" for q
    by (auto simp: pcore_ok_def proc_core_def split: option.splits)
  moreover have "fd_count (core_view s) k = (\<Sum>q \<leftarrow> procs s. count_list (ofile q) (Some k))" for k
    by (simp add: fd_count_def core_view_def proc_core_def comp_def)
  ultimately show ?thesis
    by (cases "length (procs s) = NPROC"; cases "length (files s) = NFILE") (auto simp: file_refs_def refs_def core_view_def)
qed

section \<open>More triples\<close>

lemma core_idle: "core_view s = v \<Longrightarrow> i < length (c_procs v) \<Longrightarrow> c_idle (c_procs v ! i) = idle (state (procs s ! i))"
  by (auto simp: core_view_def proc_core_def)

lemma does_live: "(live_core v \<Longrightarrow> does S m v Q) \<Longrightarrow> does S m v Q"
  unfolding does_def live_def by blast

lemma does_Ret [simp]: "Q x v \<Longrightarrow> does S (Ret x) v Q"
  by (simp add: does_def)

lemma does_kmod:
  assumes "\<And>s. live s \<Longrightarrow> core_view s = v \<Longrightarrow> live (g s) \<and> Q () (core_view (g s))"
  shows "does S (kmod g) v Q"
  using assms by (intro doesI) auto

lemma does_kfor_upt:
  assumes "I a v" and "a \<le> b" and "\<And>i w. a \<le> i \<Longrightarrow> i < b \<Longrightarrow> I i w \<Longrightarrow> does S (body i) w (\<lambda>_. I (Suc i))"
  shows "does S (kfor [a..<b] body) v (\<lambda>_. I b)"
  using assms(2,1,3)
proof (induction arbitrary: v rule: inc_induct)
  case base
  then show ?case by simp
next
  case (step n)
  have "[n..<b] = n # [Suc n..<b]" using step.hyps by (simp add: upt_conv_Cons)
  then show ?case using step by (auto intro!: does_kthen[of _ _ _ "\<lambda>_. I (Suc n)"])
qed

lemma live_upd:
  "live_core v \<Longrightarrow> (c_idle (f (c_procs v ! i)) \<Longrightarrow> c_idle (c_procs v ! i)) \<Longrightarrow>
   live_core (v\<lparr>c_procs := upd_nth i f (c_procs v)\<rparr>)"
  by (auto simp: live_core_def upd_nth_nth)

lemma does_keep:
  assumes "\<And>q. proc_core (f q) = g (proc_core q)" and "refs d X v"
    and "c_ofile (g (c_procs v ! i)) = c_ofile (c_procs v ! i)" "c_idle (g (c_procs v ! i)) = c_idle (c_procs v ! i)"
    and "i < NPROC"
  shows "does S (kmod (upd_proc i f)) v (\<lambda>_ w. w = v\<lparr>c_procs := upd_nth i g (c_procs v)\<rparr> \<and> refs d X w)"
proof (rule does_live, rule does_upd_proc[where g = g])
  show "proc_core (f q) = g (proc_core q)" for q by (rule assms(1))
  show "i < length (c_procs v)" using assms(2,5) by (simp add: refs_lengths)
  show "live_core v \<Longrightarrow> live_core (v\<lparr>c_procs := upd_nth i g (c_procs v)\<rparr>)" 
    by (rule live_upd) (use assms(4) in simp_all)
qed (use refs_upd_other[of g v i d X] assms in simp)

section \<open>Collecting a child\<close>

lemma reap_refs:
  assumes S: "asleep \<le> S" and r: "exact v" and i: "i < NPROC" and z: "c_idle (c_procs v ! i)"
  shows "does S (reap i) v (\<lambda>_. exact)"
proof -
  have tail: "does S (kthen (kmod (upd_proc i (\<lambda>q. q\<lparr>pid := 0, parent := None, pname := (pname q)[0 := 0], killed := False, state := UNUSED\<rparr>)))
      (kthen (release LkPtable) (ret n))) v (\<lambda>_. exact)" for n :: int
    by (rule does_kthen, rule does_keep[where g = "\<lambda>q. q\<lparr>c_idle := True, c_parent := None, c_pid := 0\<rparr>"])
      (use i z r in \<open>auto simp: proc_core_def intro!: does_calm_kthen calm_intro S does_prim\<close>)
  have k: "calm (kmod (upd_proc i (\<lambda>q. q\<lparr>kstack := 0\<rparr>)))" by (rule calm_prim) simp
  show ?thesis unfolding reap_def
    by (intro does_get does_calm_kthen[OF calm_kfree(1) S] does_calm_kthen[OF k S] does_calm_kthen[OF calm_deallocuvm(2) S] tail)
qed

lemma wait_scan_refs:
  assumes S: "asleep \<le> S" and r: "exact v"
  shows "set is \<subseteq> {..<NPROC} \<Longrightarrow> does S (wait_scan c hk is) v (\<lambda>_. exact)"
proof (induction "is" arbitrary: hk)
  case Nil
  then show ?case using r by simp
next
  case (Cons i "is")
  have z: "c_idle (c_procs v ! i)" if "core_view s = v" "state (procs s ! i) = ZOMBIE" for s :: "'a ftable_scheme"
    using core_idle[OF that(1), of i] Cons.prems refs_lengths(1)[OF r] that(2) by simp
  show ?case unfolding wait_scan.simps
  proof (rule does_get, goal_cases)
    case (1 s)
    show ?case using Cons z[OF 1(2)]
      by (auto intro!: does_kbind[OF reap_refs[OF S r]] does_prim)
  qed
qed

lemma wait_refs:
  assumes S: "asleep \<le> S" and r: "exact v"
  shows "does S wait v (\<lambda>_. exact)"
proof -
  have "does S (wait_round c) v (\<lambda>_. exact)" for c
    unfolding wait_round_def
    by (rule does_kbind[OF wait_scan_refs[OF S r]])
      (auto intro!: does_calm calm_intro S split: option.split)
  then show ?thesis unfolding wait_def by (auto intro!: does_calm_kthen calm_intro S does_with_proc)
qed

section \<open>Creating a process\<close>

lemma refs_perm:
  assumes "refs d {} v" and "mset ps = mset (c_procs v)"
  shows "refs d {} (v\<lparr>c_procs := ps\<rparr>)"
proof -
  have l: "set ps = set (c_procs v)" "length ps = NPROC" "length (c_procs v) = NPROC"
    using assms by (metis mset_eq_setD, metis size_mset refs_lengths(1), simp add: refs_lengths)
  have "sum_list (map f ps) = sum_list (map f (c_procs v))" for f :: "pcore \<Rightarrow> nat"
    using assms(2) by (metis mset_map sum_mset_sum_list)
  then have "fd_count (v\<lparr>c_procs := ps\<rparr>) k = fd_count v k" for k by (simp add: fd_count_def)
  moreover have "\<forall>q \<in> set (c_procs v). c_idle q \<longrightarrow> set (c_ofile q) \<subseteq> {None}"
    using assms(1) l(3) by (auto simp: refs_def all_set_conv_all_nth)
  then have "\<forall>i < NPROC. c_idle (ps ! i) \<longrightarrow> set (c_ofile (ps ! i)) \<subseteq> {None}" using l by (metis nth_mem)
  ultimately show ?thesis using assms(1) l by (simp add: refs_def)
qed

text \<open>The first-in first-out order of \<^verbatim>\<open>allocproc\<close> moves only runnable entries.\<close>

lemma sort_refs:
  assumes r: "exact v" and z: "c_idle (c_procs v ! p)" and p: "p < NPROC"
  shows "does S sortProcessFIFO v (\<lambda>_ w. exact w \<and> c_idle (c_procs w ! p))"
  unfolding sortProcessFIFO_def
proof (rule does_kmod)
  fix s :: "'a ftable_scheme"
  assume s: "live s" "core_view s = v"
  let ?ps = "fold fifo_pass [0..<length (procs s)] (procs s)"
  have "set [0..<length (procs s)] \<subseteq> {..<length (procs s)}" by auto
  note fifo_fold_facts[OF this]
  then have f: "mset ?ps = mset (procs s)" "length ?ps = length (procs s)"
    "\<And>j. state (?ps ! j) = RUNNABLE \<longleftrightarrow> state (procs s ! j) = RUNNABLE"
    "\<And>j. state (procs s ! j) \<noteq> RUNNABLE \<Longrightarrow> ?ps ! j = procs s ! j"
    by blast+
  have w: "core_view (s\<lparr>procs := ?ps\<rparr>) = v\<lparr>c_procs := map proc_core ?ps\<rparr>" using s(2) by (auto simp: core_view_def)
  have i: "idle (state (?ps ! j)) = idle (state (procs s ! j))" for j
    using f(3,4)[of j] by (cases "state (procs s ! j) = RUNNABLE") auto
  have "exact (core_view (s\<lparr>procs := ?ps\<rparr>))"
    unfolding w by (rule refs_perm[OF r]) (use f(1) s(2) in \<open>auto simp: core_view_def\<close>)
  moreover have "live (s\<lparr>procs := ?ps\<rparr>)" using s(1) f(2) i by (simp add: live_iff)
  moreover have "c_idle (c_procs (core_view (s\<lparr>procs := ?ps\<rparr>)) ! p)"
    using z p i refs_lengths(1)[OF r] s(2) f(2) by (auto simp: core_view_def proc_core_def)
  ultimately show "live (s\<lparr>procs := ?ps\<rparr>) \<and> exact (core_view (s\<lparr>procs := ?ps\<rparr>)) \<and> c_idle (c_procs (core_view (s\<lparr>procs := ?ps\<rparr>)) ! p)"
    by simp
qed

lemma does_idle:
  assumes "\<And>q. proc_core (f q) = (proc_core q)\<lparr>c_idle := True\<rparr>" and "refs d X v" and "c_idle (c_procs v ! p)" and "p < NPROC"
  shows "does S (kmod (upd_proc p f)) v (\<lambda>_. refs d X)"
  by (rule does_mono[OF does_keep[where g = "\<lambda>q. q\<lparr>c_idle := True\<rparr>"]]) (use assms in auto)

lemma alloc_kstack_refs:
  assumes S: "asleep \<le> S" and r: "exact v" and z: "c_idle (c_procs v ! p)" and p: "p < NPROC"
  shows "does S (alloc_kstack p) v (\<lambda>r w. exact w \<and> (\<forall>q. r = Some q \<longrightarrow> q = p \<and> c_idle (c_procs w ! p)))"
  unfolding alloc_kstack_def
proof (rule does_calm_kbind[OF calm_kfree(2) S], rule does_calm_kthen[OF _ S], goal_cases)
  case (2 k)
  have "does S (kthen (kmod (upd_proc p (\<lambda>q. q\<lparr>state := UNUSED\<rparr>))) (ret None)) v (\<lambda>r w. exact w \<and> (\<forall>q. r = Some q \<longrightarrow> q = p \<and> c_idle (c_procs w ! p)))"
    by (rule does_kthen[OF does_idle[OF _ r z p]]) (auto simp: proc_core_def intro!: does_prim)
  then show ?case using r z by (cases "k = 0") (auto simp: Let_def intro!: does_calm_kthen does_calm_kbind calm_intro S does_prim)
qed (auto intro!: calm_intro)

lemma claim_refs:
  assumes r: "exact v" and z: "c_idle (c_procs v ! p)" and p: "p < NPROC"
  shows "does S (kmod (\<lambda>s. upd_proc p (\<lambda>q. q\<lparr>state := EMBRYO, pid := nextpid s, rtime := 0, ctime := ticks s, allChildSize := 0\<rparr>)
       (s\<lparr>nextpid := nextpid s + 1\<rparr>))) v (\<lambda>_ w. exact w \<and> c_idle (c_procs w ! p))"
proof (rule does_kmod, goal_cases)
  case (1 s)
  let ?f = "\<lambda>q. q\<lparr>state := EMBRYO, pid := nextpid s, rtime := 0, ctime := ticks s, allChildSize := 0\<rparr>"
  let ?g = "\<lambda>c. c\<lparr>c_idle := True, c_pid := nextpid s, c_ctime := ticks s,
     c_children := (case c_children c of (a, b, d, e, n) \<Rightarrow> (a, b, d, e, 0))\<rparr>"
  have "proc_core (?f q) = ?g (proc_core q)" for q by (simp add: proc_core_def)
  then have "map proc_core (upd_nth p ?f (procs s)) = upd_nth p ?g (map proc_core (procs s))"
    using p refs_lengths(1)[OF r] 1(2) by (auto simp: upd_nth_def map_update core_view_def)
  then have w: "core_view (upd_proc p ?f (s\<lparr>nextpid := nextpid s + 1\<rparr>)) = v\<lparr>c_procs := upd_nth p ?g (c_procs v)\<rparr>"
    using 1(2) by (auto simp: core_view_def)
  have "exact (v\<lparr>c_procs := upd_nth p ?g (c_procs v)\<rparr>)" by (rule refs_upd_other) (use r z in auto)
  moreover have "live_core (v\<lparr>c_procs := upd_nth p ?g (c_procs v)\<rparr>)" by (rule live_upd) (use 1 z in \<open>auto simp: live_def\<close>)
  ultimately show ?case using p refs_lengths(1)[OF r] w by (simp add: live_def)
qed

lemma allocproc_refs:
  assumes S: "asleep \<le> S" and r: "exact v"
  shows "does S allocproc v (\<lambda>r w. exact w \<and> (\<forall>p. r = Some p \<longrightarrow> p < NPROC \<and> c_idle (c_procs w ! p)))"
  unfolding allocproc_def
proof (rule does_calm_kthen[OF calm_acquire(1) S], rule does_get, goal_cases)
  case (1 s)
  show ?case
  proof (cases "first_index (\<lambda>q. state q = UNUSED) (procs s)")
    case None
    then show ?thesis unfolding None option.case using r by (auto intro!: does_calm_kthen calm_intro S does_prim)
  next
    case (Some p)
    have p: "p < NPROC" "c_idle (c_procs v ! p)"
      using first_index_SomeD[OF Some] core_idle[OF 1(2), of p] refs_lengths(1)[OF r] 1(2) by (auto simp: core_view_def)
    have order: "does S (if pol = FRR then sortProcessFIFO else if pol = Q3 then kmod (upd_proc p (\<lambda>q. q\<lparr>piority := HIGH_PIORITY\<rparr>)) else ret ()) w
        (\<lambda>_ u. exact u \<and> c_idle (c_procs u ! p))" if "exact w" "c_idle (c_procs w ! p)" for pol w
      using that p(1) by (auto intro!: sort_refs does_prim does_calm[OF calm_prim(9) S])
    have fin: "does S (kthen (release LkPtable) (alloc_kstack p)) w (\<lambda>r w. exact w \<and> (\<forall>q. r = Some q \<longrightarrow> q < NPROC \<and> c_idle (c_procs w ! q)))"
      if "exact w" "c_idle (c_procs w ! p)" for w
      by (rule does_calm_kthen[OF calm_acquire(2) S], rule does_mono[OF alloc_kstack_refs[OF S that p(1)]]) (use p in auto)
    show ?thesis unfolding Some option.case
      by (rule does_kthen[OF claim_refs[OF r p(2,1)]], rule does_get, rule does_kthen[OF order]) (auto intro: fin)
  qed
qed

text \<open>The child gets its descriptors while it is still an embryo.\<close>

lemma fork_files_refs:
  assumes S: "asleep \<le> S" and r: "exact v" and np: "np < NPROC" "c_idle (c_procs v ! np)" and c: "c < NPROC" "\<not> c_idle (c_procs v ! c)"
  shows "does S (fork_files c np) v (\<lambda>_. refs (\<lambda>_. 0) {np})"
proof -
  define I where "I i w \<longleftrightarrow> refs (\<lambda>_. 0) {np} w \<and> c_idle (c_procs w ! np) \<and> (\<forall>j. i \<le> j \<and> j < NOFILE \<longrightarrow> c_ofile (c_procs w ! np) ! j = None)" for i w
  have "pcore_ok (c_procs v ! np)" "set (c_ofile (c_procs v ! np)) \<subseteq> {None}" using r np by (auto simp: refs_def)
  then have "c_ofile (c_procs v ! np) ! j = None" if "j < NOFILE" for j
    using that nth_mem[of j "c_ofile (c_procs v ! np)"] unfolding pcore_ok_def by fastforce
  then have start: "I 0 v" using r np by (auto simp: I_def refs_def)
  have step: "does S (kbind (kget (\<lambda>s. ofile (procs s ! c) ! i)) (\<lambda>f. case f of None \<Rightarrow> ret () | Some k \<Rightarrow>
      kbind (filedup k) (\<lambda>k. kmod (upd_proc np (\<lambda>q. q\<lparr>ofile := (ofile q)[i := Some k]\<rparr>))))) w (\<lambda>_. I (Suc i))"
    if w: "I i w" and i: "i < NOFILE" for i w
  proof (rule does_get, goal_cases)
    case (1 s)
    have rw: "refs (\<lambda>_. 0) {np} w" using w by (simp add: I_def)
    show ?case
    proof (cases "ofile (procs s ! c) ! i")
      case None
      then show ?thesis using w by (auto simp: I_def intro!: does_prim)
    next
      case (Some k)
      then have k: "k < NFILE"
        using refs_fd[OF rw c(1) i, of k] core_ofile[OF 1(2), of c] c(1) refs_lengths(1)[OF rw] by simp
      show ?thesis unfolding Some option.case
      proof (rule does_kbind[OF filedup_refs[OF S rw k]], goal_cases)
        case (1 k' u)
        let ?g = "\<lambda>q. q\<lparr>c_ofile := (c_ofile q)[i := Some k]\<rparr>"
        have u: "k' = k" "c_procs u = c_procs w" "refs (add_at k 1 (\<lambda>_. 0)) {np} u" using 1 by (auto simp: bump_def)
        have n: "np < length (c_procs w)" "length (c_ofile (c_procs w ! np)) = NOFILE" using np refs_lengths[OF rw] by auto
        have "refs (\<lambda>_. 0) {np} (set_fd np i (Some k) u)"
          using refs_open_fd[OF u(3) np(1) i, of k] w k i u(2) by (simp add: I_def)
        then have "I (Suc i) (set_fd np i (Some k) u)" using w n u(2) by (auto simp: I_def set_fd_def)
        moreover have "does S (kmod (upd_proc np (\<lambda>q. q\<lparr>ofile := (ofile q)[i := Some k]\<rparr>))) u (\<lambda>_ x. x = set_fd np i (Some k) u)"
          by (rule does_live, rule does_upd_proc[where g = ?g])
            (use n u(2) in \<open>auto simp: proc_core_def set_fd_def live_core_def upd_nth_nth\<close>)
        ultimately show ?case using u(1) by (auto elim: does_mono)
      qed
    qed
  qed
  have "does S (fork_files c np) v (\<lambda>_. I NOFILE)" unfolding fork_files_def
    by (rule does_kfor_upt[where I = I, OF start le0]) (rule step; assumption)
  then show ?thesis by (rule does_mono) (simp add: I_def)
qed

text \<open>A slot may change between idle and in use when it has no descriptors, or becomes one in use.\<close>

lemma refs_set_idle:
  assumes r: "refs d X v" and b: "b \<Longrightarrow> set (c_ofile (c_procs v ! p)) \<subseteq> {None}"
  shows "refs d (X - {p}) (v\<lparr>c_procs := upd_nth p (\<lambda>q. q\<lparr>c_idle := b\<rparr>) (c_procs v)\<rparr>)"
proof -
  let ?ps = "upd_nth p (\<lambda>q. q\<lparr>c_idle := b\<rparr>) (c_procs v)"
  have o: "map c_ofile ?ps = map c_ofile (c_procs v)" by (rule map_upd_nth) simp
  then have "fd_count (v\<lparr>c_procs := ?ps\<rparr>) = fd_count v" by (intro ext) (simp add: fd_count_ofiles del: map_map)
  moreover have "pcore_ok q" if "q \<in> set ?ps" for q
  proof -
    have "c_ofile q \<in> set (map c_ofile ?ps)" using that by simp
    then obtain q' where "q' \<in> set (c_procs v)" "c_ofile q = c_ofile q'" unfolding o by auto
    then show ?thesis using r by (auto simp: refs_def pcore_ok_def)
  qed
  moreover have "set (c_ofile (?ps ! i)) \<subseteq> {None}" if "i < NPROC" "i \<notin> X - {p}" "c_idle (?ps ! i)" for i
  proof (cases "i = p")
    case False
    then show ?thesis using that r by (simp add: refs_def)
  qed (use that b refs_lengths(1)[OF r] in simp)
  ultimately show ?thesis using r by (simp add: refs_def)
qed

lemma fork_refs:
  assumes S: "asleep \<le> S" and r: "exact v"
  shows "does S fork v (\<lambda>_. exact)"
  unfolding fork_def
proof (rule does_kbind[OF allocproc_refs[OF S r]], goal_cases)
  case (1 found w)
  show ?case
  proof (cases found)
    case None
    then show ?thesis using 1 by (auto intro!: does_prim)
  next
    case (Some np)
    then have w: "exact w" "np < NPROC" "c_idle (c_procs w ! np)" using 1 by auto
    have fail: "does S (kbind (kget (\<lambda>s. kstack (procs s ! np))) (\<lambda>k. kthen (kfree k)
        (kthen (kmod (upd_proc np (\<lambda>q. q\<lparr>kstack := 0, state := UNUSED\<rparr>))) (ret (- 1))))) w (\<lambda>_. exact)"
      by (rule does_get, rule does_calm_kthen[OF calm_kfree(1) S], rule does_kthen[OF does_idle[OF _ w(1,3,2)]])
        (auto simp: proc_core_def intro!: does_prim)
    have run: "does S (kthen (kmod (upd_proc np (\<lambda>q. q\<lparr>state := RUNNABLE\<rparr>))) (kthen (release LkPtable) (ret n))) u (\<lambda>_. exact)"
      if "refs (\<lambda>_. 0) {np} u" for u and n :: int
      by (rule does_kthen, rule does_live, rule does_upd_proc[where g = "\<lambda>q. q\<lparr>c_idle := False\<rparr>"])
        (use refs_set_idle[OF that, of False np] refs_lengths(1)[OF that] w(2) in
          \<open>auto simp: proc_core_def live_core_def upd_nth_nth intro!: does_calm_kthen calm_intro S does_prim\<close>)
    show ?thesis unfolding Some option.case
    proof (rule does_with_proc, rule does_get, rule does_calm_kbind[OF calm_copyuvm S], rule does_calm_kthen[OF _ S], goal_cases)
      case (2 c s d)
      let ?cur = "procs s ! c"
      let ?v1 = "w\<lparr>c_procs := upd_nth np (\<lambda>q. q\<lparr>c_parent := Some c\<rparr>) (c_procs w)\<rparr>"
      have c: "c < NPROC" "c \<noteq> np" using 2 w refs_lengths(1)[OF w(1)] by auto
      have v1: "does S (kmod (upd_proc np (\<lambda>q. q\<lparr>sz := sz ?cur, parent := Some c\<rparr>))) w (\<lambda>_ u. u = ?v1 \<and> exact u)"
        by (rule does_keep) (use w in \<open>auto simp: proc_core_def\<close>)
      have files: "does S (fork_files c np) ?v1 (\<lambda>_. refs (\<lambda>_. 0) {np})" if "exact ?v1"
        by (rule fork_files_refs[OF S that w(2) _ c(1)]) (use w c 2 refs_lengths(1)[OF w(1)] in \<open>auto simp: upd_nth_nth\<close>)
      have name: "calm (kmod (upd_proc np (\<lambda>q. q\<lparr>cwd := x, pname := f q\<rparr>)))" for x f by (rule calm_prim) simp
      show ?case
      proof (cases "d = 0")
        case False
        show ?thesis unfolding if_not_P[OF False]
        proof (rule does_kthen[OF v1], goal_cases)
          case (1 y u)
          have mv: "calm (kmod (\<lambda>s. s\<lparr>mem := memmove (mem s) t (tf ?cur) TRAPFRAME_SIZE\<rparr>))" for t by (rule calm_prim) simp
          have u: "u = ?v1" "exact ?v1" using 1 by auto
          have rest: "does S (case cwd ?cur of None \<Rightarrow> fault ''idup'' | Some ip \<Rightarrow> kbind (idup ip) (\<lambda>ip.
              kthen (kmod (upd_proc np (\<lambda>q. q\<lparr>cwd := Some ip, pname := patch 0 (safestrcpy (view (pname ?cur)) 16) (pname q)\<rparr>)))
              (kbind (kget (\<lambda>s. pid (procs s ! np))) (\<lambda>n. kthen (acquire LkPtable)
              (kthen (kmod (upd_proc np (\<lambda>q. q\<lparr>state := RUNNABLE\<rparr>))) (kthen (release LkPtable) (ret n))))))) x (\<lambda>_. exact)"
            if "refs (\<lambda>_. 0) {np} x" for x
          proof (cases "cwd ?cur")
            case (Some i)
            show ?thesis unfolding Some option.case
              by (intro does_calm_kbind[OF calm_bzero(5) S] does_calm_kthen[OF name S] does_get does_calm_kthen[OF calm_acquire(1) S] run[OF that])
          qed (simp add: does_prim)
          show ?case unfolding u(1)
            by (intro does_get does_calm_kthen[OF mv S] does_calm_kthen[OF calm_rd32(2) S] does_kthen[OF files] u(2) rest)
        qed
      qed (use fail in simp)
    qed (rule calm_prim, simp)
  qed
qed

section \<open>Exit\<close>

text \<open>The CPU is given up for good: the process is a zombie, its descriptors are closed, the table lock is held, no other
  lock is counted on this CPU and interrupts are off.\<close>

definition exited :: "'z ftable_scheme \<Rightarrow> bool" where
  "exited s \<longleftrightarrow> (\<exists>p. curproc s = Some p \<and> state (procs s ! p) = ZOMBIE \<and> set (ofile (procs s ! p)) \<subseteq> {None}) \<and>
     file_refs s \<and> holding LkPtable s \<and> ncli (this_cpu s) = 1 \<and> \<not> ifl (this_cpu s)"

definition gone :: "'z ftable_scheme \<Rightarrow> bool" where
  "gone s \<longleftrightarrow> asleep s \<or> exited s"

lemma asleep_gone: "asleep \<le> gone"
  by (auto simp: gone_def)

text \<open>All descriptors of process \<open>c\<close> are closed.\<close>

definition closed_cur :: "nat \<Rightarrow> core \<Rightarrow> bool" where
  "closed_cur c w \<longleftrightarrow> exact w \<and> c_cur w = Some c \<and> set (c_ofile (c_procs w ! c)) \<subseteq> {None}"

lemma close_all_refs:
  assumes S: "asleep \<le> S" and r: "exact v" and c: "c_cur v = Some c" "c < NPROC"
  shows "does S (close_all c) v (\<lambda>_. closed_cur c)"
proof -
  define I where "I i w \<longleftrightarrow> exact w \<and> c_cur w = Some c \<and> (\<forall>j < i. c_ofile (c_procs w ! c) ! j = None)" for i w
  have step: "does S (kbind (kget (\<lambda>s. ofile (procs s ! c) ! fd)) (\<lambda>f. case f of None \<Rightarrow> ret () | Some k \<Rightarrow>
      kthen (fileclose k) (kmod (upd_proc c (\<lambda>q. q\<lparr>ofile := (ofile q)[fd := None]\<rparr>))))) w (\<lambda>_. I (Suc fd))"
    if w: "I fd w" and fd: "fd < NOFILE" for fd w
  proof (rule does_get, goal_cases)
    case (1 s)
    have rw: "exact w" using w by (simp add: I_def)
    have o: "ofile (procs s ! c) = c_ofile (c_procs w ! c)" using core_ofile[OF 1(2)] c(2) refs_lengths(1)[OF rw] by simp
    show ?case
    proof (cases "ofile (procs s ! c) ! fd")
      case None
      then show ?thesis using w o by (auto simp: I_def less_Suc_eq intro!: does_prim)
    next
      case (Some k)
      have k: "k < NFILE" using refs_fd[OF rw c(2) fd, of k] Some o by simp
      show ?thesis unfolding Some option.case
      proof (rule does_kthen[OF fileclose_refs[OF S rw k]], goal_cases)
        case (1 y u)
        let ?g = "\<lambda>q. q\<lparr>c_ofile := (c_ofile q)[fd := None]\<rparr>"
        have u: "c_procs u = c_procs w" "c_cur u = c_cur w" "refs (add_at k (- 1) (\<lambda>_. 0)) {} u" using 1 by (auto simp: bump_def)
        have n: "c < length (c_procs w)" "length (c_ofile (c_procs w ! c)) = NOFILE" using c(2) refs_lengths[OF rw] by auto
        have "exact (set_fd c fd None u)"
          using refs_close_fd[OF u(3) c(2) fd, of k] Some o u(1) by simp
        then have "I (Suc fd) (set_fd c fd None u)" using w n u fd by (auto simp: I_def set_fd_def less_Suc_eq nth_list_update)
        moreover have "does S (kmod (upd_proc c (\<lambda>q. q\<lparr>ofile := (ofile q)[fd := None]\<rparr>))) u (\<lambda>_ x. x = set_fd c fd None u)"
          by (rule does_live, rule does_upd_proc[where g = ?g])
            (use n u(1) in \<open>auto simp: proc_core_def set_fd_def live_core_def upd_nth_nth\<close>)
        ultimately show ?case by (auto elim: does_mono)
      qed
    qed
  qed
  have "I 0 v" using r c by (simp add: I_def)
  then have "does S (close_all c) v (\<lambda>_. I NOFILE)" unfolding close_all_def
    by (rule does_kfor_upt[where I = I, OF _ le0]) (rule step; assumption)
  then show ?thesis
    by (rule does_mono) (auto simp: I_def closed_cur_def in_set_conv_nth refs_lengths c(2))
qed

lemma core_upd:
  assumes "\<And>q. proc_core (f q) = g (proc_core q)"
  shows "core_view (upd_proc i f s) = (core_view s)\<lparr>c_procs := upd_nth i g (c_procs (core_view s))\<rparr>"
  by (cases "i < length (procs s)") (auto simp: core_view_def upd_nth_def map_update assms list_update_beyond)

lemma closed_cur_upd:
  assumes "\<And>q. c_ofile (g q) = c_ofile q \<and> c_idle (g q) = c_idle q" and "closed_cur c v"
  shows "closed_cur c (v\<lparr>c_procs := upd_nth i g (c_procs v)\<rparr>)"
proof (cases "c < length (c_procs v)")
  case True
  then show ?thesis using assms refs_upd_other[of g v i] by (auto simp: closed_cur_def upd_nth_nth)
next
  case False
  then show ?thesis using assms refs_upd_other[of g v i]
    by (cases "i = c") (auto simp: closed_cur_def upd_nth_def list_update_beyond)
qed

lemma closed_step:
  assumes "\<And>q. proc_core (f q) = g (proc_core q)" and "\<And>q. c_ofile (g q) = c_ofile q \<and> c_idle (g q) = c_idle q"
    and "closed_cur c (core_view s)" and "live s"
  shows "live (upd_proc i f s) \<and> closed_cur c (core_view (upd_proc i f s))"
  unfolding live_def core_upd[where g = g, OF assms(1)]
  using closed_cur_upd[OF assms(2,3)] live_upd[of "core_view s" g i] assms(2,4) by (auto simp: live_def)

lemma does_closed:
  assumes "\<And>q. proc_core (f q) = g (proc_core q)" and "\<And>q. c_ofile (g q) = c_ofile q \<and> c_idle (g q) = c_idle q" and "closed_cur c v"
  shows "does S (kmod (upd_proc i f)) v (\<lambda>_. closed_cur c)"
  by (rule does_kmod) (use closed_step[where f = f and g = g] assms in blast)

lemma record_child_refs: "closed_cur c v \<Longrightarrow> does S (record_child c' par) v (\<lambda>_. closed_cur c)"
  unfolding record_child_def
proof (rule does_get, goal_cases)
  case (1 s)
  let ?n = "allChildSize (procs s ! par)"
  have "does S (kmod (\<lambda>s. let q = procs s ! c' in upd_proc par (\<lambda>r. r\<lparr>childRTime := (childRTime r)[?n := rtime q],
      childCTime := (childCTime r)[?n := ctime q], childETime := (childETime r)[?n := ticks s],
      childPiority := (childPiority r)[?n := piority q], allChildSize := ?n + 1\<rparr>) s)) v (\<lambda>_. closed_cur c)"
  proof (rule does_kmod, goal_cases)
    case (1 s)
    let ?q = "procs s ! c'"
    let ?g = "\<lambda>r. r\<lparr>c_children := (case c_children r of (a, b, d, e, m) \<Rightarrow>
       (a[?n := ctime ?q], b[?n := rtime ?q], d[?n := ticks s], e[?n := piority ?q], ?n + 1))\<rparr>"
    show ?case unfolding Let_def
      by (rule closed_step[where g = ?g]) (use 1 \<open>closed_cur c v\<close> in \<open>auto simp: proc_core_def\<close>)
  qed
  then show ?case by (auto intro!: does_prim)
qed

lemma reparent_refs:
  assumes S: "asleep \<le> S" and v: "closed_cur c v"
  shows "does S (reparent c') v (\<lambda>_. closed_cur c)"
  unfolding reparent_def
proof (rule does_get, rule does_kfor_upt[where I = "\<lambda>_. closed_cur c"], goal_cases)
  case (3 s i w)
  have p: "does S (kmod (upd_proc i (\<lambda>q. q\<lparr>parent := x\<rparr>))) w (\<lambda>_. closed_cur c)" for x
    by (rule does_closed[where g = "\<lambda>q. q\<lparr>c_parent := x\<rparr>"]) (use 3 in \<open>auto simp: proc_core_def\<close>)
  have pt: "does S (kthen (kmod (upd_proc i (\<lambda>q. q\<lparr>parent := x\<rparr>))) m) w (\<lambda>_. closed_cur c)" if "calm m" for x and m :: "(unit, 'a ftable_scheme) km"
    by (rule does_kthen[OF p]) (auto intro!: does_calm that S)
  have w: "closed_cur c w" using 3 by simp
  show ?case
  proof (rule does_get, goal_cases)
    case (1 u)
    show ?case by (auto simp: kwhen_def w intro!: does_prim pt calm_intro)
  qed
qed (use v in auto)

text \<open>The end of \<^verbatim>\<open>exit\<close>: the process becomes a zombie and switches to the scheduler.\<close>

lemma zombie_gone:
  assumes "closed_cur c v"
  shows "does gone (kthen (kmod (\<lambda>s. upd_proc c (\<lambda>q. q\<lparr>state := ZOMBIE, etime := ticks s\<rparr>) s)) (kthen sched (panic msg))) v Q"
proof (rule doesI, goal_cases)
  case (1 s x t)
  then show ?case using sched_not_Ret by (auto simp: keval split: outcome.splits)
next
  case (2 s t)
  let ?u = "upd_proc c (\<lambda>q. q\<lparr>state := ZOMBIE, etime := ticks s\<rparr>) s"
  have c: "curproc s = Some c" "c < length (procs s)" "c < NPROC" using assms 2 by (auto simp: closed_cur_def core_view_def live_iff refs_def)
  have sw: "sched ?u = Switched t" using 2(3) by (auto simp: keval split: outcome.splits)
  then have t: "t = upd_proc c (\<lambda>q. q\<lparr>kintena := intena (this_cpu s)\<rparr>) ?u" "holding LkPtable s" "ncli (this_cpu s) = 1" "\<not> ifl (this_cpu s)"
    using c by (auto simp: sched_def with_proc_def keval holding_def split: if_splits)
  let ?g = "\<lambda>q. q\<lparr>c_idle := True\<rparr>"
  have "core_view t = core_view ?u" unfolding t(1) by (rule core_view_procs) simp
  also have "\<dots> = v\<lparr>c_procs := upd_nth c ?g (c_procs v)\<rparr>"
    using core_upd[of "\<lambda>q. q\<lparr>state := ZOMBIE, etime := ticks s\<rparr>" ?g c s] 2(2) by (simp add: proc_core_def)
  finally have "core_view t = v\<lparr>c_procs := upd_nth c ?g (c_procs v)\<rparr>" .
  moreover have "set (c_ofile (c_procs v ! c)) \<subseteq> {None}" "exact v" using assms by (auto simp: closed_cur_def)
  ultimately have e: "exact (core_view t)" and o: "set (ofile (procs t ! c)) \<subseteq> {None}"
    using refs_set_idle[of "\<lambda>_. 0" "{}" v True c] core_ofile[OF refl, of c t] c(3) refs_lengths(1)[of "\<lambda>_. 0" "{}" v] by simp_all
  show "gone t" using c t e o by (auto simp: gone_def exited_def holding_def file_refs_core)
qed

lemma exit_locked_refs: "closed_cur c v \<Longrightarrow> does gone (exit_locked c) v (\<lambda>_. exact)"
  unfolding exit_locked_def
proof (rule does_get, goal_cases)
  case (1 s)
  show ?case
  proof (cases "parent (procs s ! c)")
    case (Some par)
    show ?thesis unfolding Some option.case
      by (rule does_kthen[OF record_child_refs[OF 1(1)]], rule does_calm_kthen[OF calm_wakeup1(1) asleep_gone])
        (auto intro: does_kthen[OF reparent_refs[OF asleep_gone]] zombie_gone)
  qed (simp add: does_prim)
qed

lemma exit_refs:
  assumes r: "exact v"
  shows "does gone exit v (\<lambda>_. exact)"
  unfolding exit_def
proof (rule does_with_proc, rule does_get, goal_cases)
  case (1 c s)
  have c: "c < NPROC" using 1 refs_lengths(1)[OF r] by simp
  have fin: "does gone (kthen (kmod (upd_proc c (\<lambda>q. q\<lparr>cwd := None\<rparr>))) (kthen (acquire LkPtable) (exit_locked c))) w (\<lambda>_. exact)"
    if "closed_cur c w" for w
    by (rule does_calm_kthen[OF calm_prim(9) asleep_gone], simp, rule does_calm_kthen[OF calm_acquire(1) asleep_gone], rule exit_locked_refs[OF that])
  have "does gone (kthen begin_op (kbind (kget (\<lambda>s. cwd (procs s ! c))) (\<lambda>d. case d of None \<Rightarrow> fault ''iput'' | Some ip \<Rightarrow>
      kthen (iput ip) (kthen end_op (kthen (kmod (upd_proc c (\<lambda>q. q\<lparr>cwd := None\<rparr>))) (kthen (acquire LkPtable) (exit_locked c))))))) w (\<lambda>_. exact)"
    if w: "closed_cur c w" for w
  proof (rule does_calm_kthen[OF calm_begin_op(1) asleep_gone], rule does_get, goal_cases)
    case (1 s)
    show ?case
      by (cases "cwd (procs s ! c)")
        (auto intro!: does_prim does_calm_kthen[OF calm_stati(3) asleep_gone] does_calm_kthen[OF calm_begin_op(4) asleep_gone] fin w)
  qed
  then have "does gone (kthen (close_all c) (kthen begin_op (kbind (kget (\<lambda>s. cwd (procs s ! c))) (\<lambda>d. case d of None \<Rightarrow> fault ''iput'' | Some ip \<Rightarrow>
      kthen (iput ip) (kthen end_op (kthen (kmod (upd_proc c (\<lambda>q. q\<lparr>cwd := None\<rparr>))) (kthen (acquire LkPtable) (exit_locked c)))))))) v (\<lambda>_. exact)"
    by (rule does_kthen[OF close_all_refs[OF asleep_gone r 1(1) c]])
  then show ?case by (auto intro: does_prim)
qed

section \<open>Every system call\<close>

lemma syscalls_does:
  assumes r: "exact v" and m: "Some m \<in> set (syscalls :: (int, 'z kernel_scheme) km option list)"
  shows "does gone m v (\<lambda>_. exact)"
proof -
  have c: "does gone m v (\<lambda>_. exact)" if "calm m" for m :: "(int, 'z kernel_scheme) km"
    by (rule does_calm[OF that asleep_gone]) (rule r)
  have life: "does gone sys_fork v (\<lambda>_. exact)" "does gone sys_wait v (\<lambda>_. exact)" "does gone sys_exit v (\<lambda>_. exact)"
    using fork_refs[OF asleep_gone r] wait_refs[OF asleep_gone r] exit_refs[OF r]
    by (auto simp: sys_fork_def sys_wait_def sys_exit_def intro!: does_prim elim!: does_kthen)
  note fds = sys_dup_does[OF asleep_gone r] sys_close_does[OF asleep_gone r] sys_open_does[OF asleep_gone r] sys_pipe_does[OF asleep_gone r]
  from m show ?thesis unfolding syscalls_def by (auto intro: life fds c calm_intro)
qed

section \<open>Every trap\<close>

text \<open>The CPU is given up at the end of a time slice.\<close>

definition preempted :: "'z ftable_scheme \<Rightarrow> bool" where
  "preempted s \<longleftrightarrow> (\<exists>p. curproc s = Some p \<and> state (procs s ! p) = RUNNABLE) \<and>
     file_refs s \<and> holding LkPtable s \<and> ncli (this_cpu s) = 1 \<and> \<not> ifl (this_cpu s)"

definition parked :: "'z ftable_scheme \<Rightarrow> bool" where
  "parked s \<longleftrightarrow> asleep s \<or> exited s \<or> preempted s"

lemma gone_parked: "gone \<le> parked" and asleep_parked: "asleep \<le> parked"
  by (auto simp: gone_def parked_def)

lemma does_weaken: "does S m v Q \<Longrightarrow> S \<le> S' \<Longrightarrow> does S' m v Q"
  unfolding does_def le_fun_def le_bool_def by blast

lemma sched_preempts:
  assumes "exact v" and "c_cur v = Some p"
  shows "does parked (kthen (kmod (upd_proc p (\<lambda>q. q\<lparr>state := RUNNABLE\<rparr>))) (kthen sched (release LkPtable))) v Q"
proof (rule doesI, goal_cases)
  case (1 s x t)
  then show ?case using sched_not_Ret by (auto simp: keval split: outcome.splits)
next
  case (2 s t)
  let ?u = "upd_proc p (\<lambda>q. q\<lparr>state := RUNNABLE\<rparr>) s" and ?g = "\<lambda>q. q\<lparr>c_idle := False\<rparr>"
  have c: "curproc s = Some p" "p < length (procs s)" using assms(2) 2 by (auto simp: core_view_def live_iff)
  have sw: "sched ?u = Switched t" using 2(3) sched_not_Ret[of ?u] by (auto simp: keval split: outcome.splits)
  then have t: "t = upd_proc p (\<lambda>q. q\<lparr>kintena := intena (this_cpu s)\<rparr>) ?u" "holding LkPtable s" "ncli (this_cpu s) = 1" "\<not> ifl (this_cpu s)"
    using c by (auto simp: sched_def with_proc_def keval holding_def split: if_splits)
  have "core_view t = core_view ?u" unfolding t(1) by (rule core_view_procs) simp
  also have "\<dots> = v\<lparr>c_procs := upd_nth p ?g (c_procs v)\<rparr>"
    using core_upd[of "\<lambda>q. q\<lparr>state := RUNNABLE\<rparr>" ?g p s] 2(2) by (simp add: proc_core_def)
  finally have "exact (core_view t)" using refs_set_idle[OF assms(1), of False p] by simp
  then show "parked t" using c t by (auto simp: parked_def preempted_def holding_def file_refs_core)
qed

lemma yield_refs:
  assumes "exact v"
  shows "does parked yield v (\<lambda>_. exact)"
  unfolding yield_def
proof (rule does_get, goal_cases)
  case (1 s)
  have cnt: "calm (kmod (upd_proc p (\<lambda>q. q\<lparr>processCounter := f q\<rparr>)))" for p f by (rule calm_prim) simp
  have slice: "does parked (kthen (kmod (upd_proc p (\<lambda>q. q\<lparr>processCounter := 0\<rparr>))) (kthen (acquire LkPtable)
      (kthen (kmod (upd_proc p (\<lambda>q. q\<lparr>state := RUNNABLE\<rparr>))) (kthen sched (release LkPtable))))) v (\<lambda>_. exact)" if "c_cur v = Some p" for p
    by (rule does_calm_kthen[OF cnt asleep_parked], rule does_calm_kthen[OF calm_acquire(1) asleep_parked], rule sched_preempts[OF assms that])
  show ?case
  proof (cases "policyChooser s = GRT")
    case False
    show ?thesis unfolding if_not_P[OF False]
    proof (rule does_with_proc, rule does_get, goal_cases)
      case (1 p u)
      show ?case using assms by (auto intro!: does_prim does_calm[OF cnt asleep_parked] slice[OF 1(1)])
    qed
  qed (use assms in \<open>simp add: does_prim\<close>)
qed

lemma calm_lapic [calm_intro]: "calm lapiceoi" "calm ideintr"
  by (auto simp: lapiceoi_def lapicw_def ideintr_def intro!: calm_intro)

lemma calm_dispatch: "calm (trap_dispatch t no cs cr2 kbd com)"
  by (auto simp: trap_dispatch_def intro!: calm_intro)

lemma exit_if_killed_refs: "exact v \<Longrightarrow> does parked (exit_if_killed user) v (\<lambda>_. exact)"
  unfolding exit_if_killed_def
  by (rule does_get) (auto simp: kwhen_def intro!: does_prim does_weaken[OF exit_refs gone_parked])

lemma syscall_refs:
  assumes "exact v"
  shows "does gone (syscall :: (unit, 'z kernel_scheme) km) v (\<lambda>_. exact)"
  unfolding syscall_def
proof (rule does_with_proc, rule does_get, rule does_calm_kbind[OF calm_rd32(1) asleep_gone], goal_cases)
  case (1 p s num)
  let ?tab = "syscalls :: (int, 'z kernel_scheme) km option list"
  have out: "calm (with_proc (\<lambda>p. kbind (kget (\<lambda>s. tf (procs s ! p))) (\<lambda>t. wr32 (t + TF_EAX) x)))" for x by (intro calm_intro)
  show ?case
  proof (cases "if 0 < sint num \<and> sint num < int (length ?tab) then ?tab ! unat num else None")
    case None
    show ?thesis unfolding None option.case using assms by (auto intro!: does_calm calm_intro asleep_gone)
  next
    case (Some f)
    then have n: "0 < sint num" "sint num < int (length ?tab)" "?tab ! unat num = Some f" by (auto split: if_splits)
    then have "unat num < length ?tab" using unat_nonnegative[of num] by simp
    then have "Some f \<in> set ?tab" using n(3) by (metis nth_mem)
    from syscalls_does[OF assms this] show ?thesis unfolding Some option.case
      by (rule does_kbind) (auto intro!: does_calm out asleep_gone)
  qed
qed

lemma trap_refs:
  assumes "exact v"
  shows "does parked (trap t cr2 kbd com) v (\<lambda>_. exact)"
  unfolding trap_def
proof (rule does_calm_kbind[OF calm_rd32(1) asleep_parked], goal_cases)
  case (1 no)
  note ex = does_kthen[OF exit_if_killed_refs]
  have tfp: "calm (kmod (upd_proc p (\<lambda>q. q\<lparr>tf := t\<rparr>)))" for p by (rule calm_prim) simp
  have call: "does parked (with_proc (\<lambda>p. kthen (exit_if_killed True) (kthen (kmod (upd_proc p (\<lambda>q. q\<lparr>tf := t\<rparr>)))
      (kthen syscall (exit_if_killed True))))) v (\<lambda>_. exact)"
    by (rule does_with_proc, rule ex[OF assms], rule does_calm_kthen[OF tfp asleep_parked], rule does_kthen[OF does_weaken[OF syscall_refs gone_parked]])
      (auto intro: exit_if_killed_refs)
  have other: "does parked (kthen (trap_dispatch t no cs cr2 kbd com) (kthen (exit_if_killed u1)
      (kbind (kget h) (\<lambda>running. kthen (kwhen (running \<and> tick) yield) (exit_if_killed u2))))) v (\<lambda>_. exact)" for cs u1 u2 h tick
    by (rule does_calm_kthen[OF calm_dispatch asleep_parked], rule ex[OF assms], rule does_get, rule does_kthen[where Q = "\<lambda>_. exact"])
      (auto simp: kwhen_def intro!: does_prim yield_refs exit_if_killed_refs)
  show ?case using call other by (auto intro!: does_calm_kbind[OF calm_rd16(1) asleep_parked])
qed


text \<open>C4. A trap gives up the CPU in three ways only: asleep on a channel, as a zombie without descriptors, or runnable at the
  end of its time slice.  In each the table lock is held, it is the only spin lock the CPU counts, and interrupts are off.\<close>

theorem trap_gives_up_cpu:
  assumes "live s" and "file_refs s" and "trap tfr cr2 kbd com s = Switched t"
  shows "asleep t \<or> exited t \<or> preempted t"
  using doesD(2)[OF trap_refs assms(1,3)] assms(2) by (simp add: file_refs_core parked_def)

section \<open>Concrete traps\<close>

text \<open>A process with file 0 open as descriptor 0 makes system call \<open>n\<close> with argument \<open>a\<close>; its trap frame is at
  \<^verbatim>\<open>0x80004000\<close>.\<close>

definition desk_image :: "u32 \<Rightarrow> u32 \<Rightarrow> memory" where
  "desk_image n a = store32 (store32 (store32 (store32 (store32 (store32 (\<lambda>_. 0) 0x80001000 0x2007) 0x80002000 0x3007) 0x80004044 8)
     0x8000401C n) 0x80004030 64) 0x8000300C a"

definition desk :: "u32 \<Rightarrow> u32 \<Rightarrow> kernel" where
  "desk n a = ftable.extend (pipest.extend
     ((one_pipe 0)\<lparr>
        mem := desk_image n a, cr3 := \<lambda>_. 0x1000,
        procs := idle_proc\<lparr>state := RUNNING, sz := 4096, tf := 0x80004000, ofile := Some 0 # replicate 15 None\<rparr> # replicate 63 idle_proc\<rparr>)
     (ftable.fields (\<lparr>ftype = FD_INODE, fref = 1, readable = True, writable = True, fpipe = 0, fip = 0, foff = 0\<rparr> #
        replicate 99 \<lparr>ftype = FD_NONE, fref = 0, readable = False, writable = False, fpipe = 0, fip = 0, foff = 0\<rparr>)))
     (kernel.fields False 0 0 0 [])"

lemma desk_fields:
  "procs (desk n a) = idle_proc\<lparr>state := RUNNING, sz := 4096, tf := 0x80004000, ofile := Some 0 # replicate 15 None\<rparr> # replicate 63 idle_proc"
  "files (desk n a) = \<lparr>ftype = FD_INODE, fref = 1, readable = True, writable = True, fpipe = 0, fip = 0, foff = 0\<rparr> #
     replicate 99 \<lparr>ftype = FD_NONE, fref = 0, readable = False, writable = False, fpipe = 0, fip = 0, foff = 0\<rparr>"
  "cpus (desk n a) c = \<lparr>ncli = 0, intena = True, ifl = True, cproc = Some 0\<rparr>" "cr3 (desk n a) c = 0x1000" "mycpu (desk n a) = 0"
  "locks (desk n a) l = \<lparr>locked = 0, lkname = [], lkcpu = None\<rparr>" "mem (desk n a) = desk_image n a"
  by (simp_all add: desk_def kernel.defs ftable.defs pipest.defs one_pipe_def devs.defs idle_console_def)

lemma desk_ok: "live (desk n a)" "file_refs (desk n a)" "on_cpu 0 (desk n a)"
proof -
  show "live (desk n a)" by (simp add: live_iff desk_fields)
  have "count_list (replicate m (None :: nat option)) (Some k) = 0" for m k by (induction m) auto
  then have c: "(\<Sum>q \<leftarrow> procs (desk n a). count_list (ofile q) (Some k)) = (if k = 0 then 1 else 0)" for k
    by (simp add: desk_fields idle_proc_def sum_list_replicate)
  show "file_refs (desk n a)" unfolding file_refs_def c
    by (auto simp: desk_fields NPROC_def NFILE_def NOFILE_def idle_proc_def nth_Cons split: nat.splits)
  show "on_cpu 0 (desk n a)" by (simp add: on_cpu_def quiet_def cpu_idle_def lk_free_def desk_fields)
qed

lemma desk_mem:
  "load32 (desk_image n a) 0x80001000 = 0x2007" "load32 (desk_image n a) 0x80002000 = 0x3007" "load32 (desk_image n a) 0x80004044 = 8"
  "load32 (desk_image n a) 0x8000401C = n" "load32 (desk_image n a) 0x80004030 = 64"
  "desk_image n a 0x8000300C = byte_of 0 a" "desk_image n a 0x8000300D = byte_of (Suc 0) a"
  "desk_image n a 0x8000300E = byte_of 2 a" "desk_image n a 0x8000300F = byte_of 3 a"
proof -
  show "load32 (desk_image n a) 0x8000401C = n"
    unfolding desk_image_def by (simp add: load32_def store32_def)
qed (simp_all add: desk_image_def load32_def store32_def byte_of_def join32_def)

lemma desk_mmu: "va \<in> {12, 13, 14, 15} \<Longrightarrow> mmu (desk n a) False va = Some (0x80003000 + va)"
  using desk_mem(1,2)[of n a]
  by (auto simp: mmu_def desk_fields P2V_def KERNBASE_def PTE_P_def PTE_ADDR_def PDX_def PTX_def)

lemma desk_argint: "argint 0 (desk n a) = Ret (Some a) (desk n a)"
  by (simp add: argint_def fetchint_def with_proc_def rd32_def user_rd32_def user_rd_4 user_rd8_def keval
    get32_def TF_ESP_def desk_mem desk_mmu desk_fields(1,3,5,7))

text \<open>Entering the handler: nothing but the trap frame pointer is written, and it is already in place.\<close>

lemma desk_enter:
  assumes "0 < sint n" and "sint n < int (length (syscalls :: (int, kernel) km option list))" and "syscalls ! unat n = Some f"
  shows "trap 0x80004000 0 [] [] (desk n a) = kthen (kbind f (\<lambda>r. with_proc (\<lambda>p. kbind (kget (\<lambda>s. tf (procs s ! p)))
     (\<lambda>t. wr32 (t + TF_EAX) (word_of_int r))))) (exit_if_killed True) (desk n a)"
proof -
  have "upd_nth 0 (\<lambda>q. q\<lparr>tf := 0x80004000\<rparr>) (procs (desk n a)) = procs (desk n a)" by (simp add: desk_fields upd_nth_def)
  then have same: "upd_proc 0 (\<lambda>q. q\<lparr>tf := 0x80004000\<rparr>) (desk n a) = desk n a" by simp
  have k: "exit_if_killed True (desk n a) = Ret () (desk n a)" by (simp add: exit_if_killed_def keval desk_fields idle_proc_def)
  have "syscall (desk n a) = kbind f (\<lambda>r. with_proc (\<lambda>p. kbind (kget (\<lambda>s. tf (procs s ! p)))
     (\<lambda>t. wr32 (t + TF_EAX) (word_of_int r)))) (desk n a)"
    using assms by (simp add: syscall_def with_proc_def kbind_apply[of "kget _"] kbind_apply[of "rd32 _"] rd32_def desk_fields(1,3,5,7)
      TF_EAX_def desk_mem(4))
  then show ?thesis using same k
    by (simp add: trap_def with_proc_def kbind_apply[of "kget _"] kbind_apply[of "rd32 _"] kthen_apply rd32_def desk_mem(5)
      desk_fields(3,5,7) T_SYSCALL_def TF_TRAPNO_def)
qed

lemma filedup_eq:
  assumes "lk_free LkFtable s" and "cpu_stable (this_cpu s)" and "1 \<le> fref (files s ! k)"
  shows "filedup k s = Ret k (upd_file k (\<lambda>f. f\<lparr>fref := fref f + 1\<rparr>) s)"
  using assms by (simp add: filedup_def lock_eval)

definition desk_dup :: kernel where
  "desk_dup = (desk 10 0)\<lparr>procs := upd_nth 0 (\<lambda>q. q\<lparr>ofile := (ofile q)[1 := Some 0]\<rparr>) (procs (desk 10 0)),
     files := upd_nth 0 (\<lambda>f. f\<lparr>fref := fref f + 1\<rparr>) (files (desk 10 0))\<rparr>"

lemma desk_sys_dup: "sys_dup (desk 10 0) = Ret 1 desk_dup"
proof -
  let ?s = "desk 10 0"
  let ?u = "?s\<lparr>procs := upd_nth 0 (\<lambda>q. q\<lparr>ofile := (ofile q)[1 := Some 0]\<rparr>) (procs ?s)\<rparr>"
  have a: "argfd 0 ?s = Ret (Some (0, 0)) ?s"
    by (simp add: argfd_def keval desk_argint with_proc_def desk_fields NOFILE_def)
  have "first_index (\<lambda>x. x = None) (ofile (procs ?s ! 0)) = Some 1" by (simp add: first_index_Some desk_fields)
  then have f: "fdalloc 0 ?s = Ret 1 ?u"
    by (simp add: fdalloc_def with_proc_def keval desk_fields(3,5))
  have "lk_free LkFtable ?u" "cpu_stable (this_cpu ?u)" by (simp_all add: lk_free_def cpu_stable_def desk_fields)
  then have "filedup 0 ?u = Ret 0 desk_dup"
    by (subst filedup_eq) (simp_all add: desk_dup_def desk_fields)
  then show ?thesis using a f by (simp add: sys_dup_def keval)
qed

lemma desk_trap_dup: "\<exists>t. trap 0x80004000 0 [] [] (desk 10 0) = Ret () t \<and> files t = files desk_dup"
proof -
  have "exit_if_killed True (desk_dup\<lparr>mem := m\<rparr>) = Ret () (desk_dup\<lparr>mem := m\<rparr>)" for m
    by (simp add: exit_if_killed_def keval desk_dup_def desk_fields idle_proc_def upd_nth_def)
  moreover have "curproc desk_dup = Some 0" by (simp add: desk_dup_def desk_fields)
  moreover have "syscalls ! unat (10 :: u32) = Some (sys_dup :: (int, kernel) km)" by (simp add: syscalls_def)
  ultimately show ?thesis
    by (subst desk_enter[where f = sys_dup]) (simp_all add: syscalls_def keval desk_sys_dup with_proc_def wr32_def)
qed


theorem trap_gives_up_cpu_witness:
  "live (desk 13 1) \<and> file_refs (desk 13 1) \<and>
   (\<exists>t. trap 0x80004000 0 [] [] (desk 13 1) = Switched t \<and> asleep t)"
proof -
  let ?s = "desk 13 1"
  have "acquire LkTicks ?s = Ret () (lk_take LkTicks ?s)"
    by (rule acquire_free) (simp_all add: lk_free_def cpu_stable_def desk_fields)
  moreover obtain t where sw: "sleep ChTicks LkTicks (lk_take LkTicks ?s) = Switched t" "\<not> exited t" "\<not> preempted t"
    using sleep_switches[OF desk_ok(3), of LkTicks ChTicks 13 1] by (auto simp: exited_def preempted_def desk_fields)
  ultimately have "sys_sleep ?s = Switched t"
    by (simp add: sys_sleep_def sys_sleep_loop_def keval desk_argint with_proc_def wait_on_def lk_take_def desk_fields idle_proc_def)
  moreover have "syscalls ! unat (13 :: u32) = Some (sys_sleep :: (int, kernel) km)" by (simp add: syscalls_def)
  ultimately have t: "trap 0x80004000 0 [] [] ?s = Switched t"
    by (subst desk_enter[where f = sys_sleep]) (simp_all add: syscalls_def keval)
  then have "asleep t" using trap_gives_up_cpu[OF desk_ok(1,2) t] sw by blast
  then show ?thesis using t desk_ok by blast
qed

end
