(* ===== verification/Segments.thy ===== *)
theory Segments
  imports Trap
begin

text \<open>
  Segment and gate descriptors (\<^verbatim>\<open>mmu.h\<close>), the descriptor tables built by \<^verbatim>\<open>seginit\<close> and the task state part of
  \<^verbatim>\<open>switchuvm\<close> (\<^verbatim>\<open>vm.c\<close>), and the interrupt table built by \<^verbatim>\<open>tvinit\<close> (\<^verbatim>\<open>trap.c\<close>).  Bit fields are words of the declared
  width, so a stored value is truncated as in C.  The table \<^verbatim>\<open>vectors\<close>, which the build generates, and the addresses of
  \<^verbatim>\<open>cpus\<close> and \<^verbatim>\<open>idt\<close> are parts of the state that no code changes.  The theorem says which code a program can enter by an
  interrupt instruction.
\<close>

unbundle bit_operations_syntax

section \<open>Descriptors\<close>

record segdesc =
  lim_15_0 :: "16 word"
  base_15_0 :: "16 word"
  base_23_16 :: "8 word"
  sd_type :: "4 word"
  sd_s :: "1 word"
  sd_dpl :: "2 word"
  sd_p :: "1 word"
  lim_19_16 :: "4 word"
  sd_avl :: "1 word"
  sd_rsv1 :: "1 word"
  sd_db :: "1 word"
  sd_g :: "1 word"
  base_31_24 :: "8 word"

definition SEG :: "4 word \<Rightarrow> u32 \<Rightarrow> u32 \<Rightarrow> 2 word \<Rightarrow> segdesc" where
  "SEG ty b lim d =
     \<lparr>lim_15_0 = ucast (drop_bit 12 lim AND 0xFFFF), base_15_0 = ucast (b AND 0xFFFF),
      base_23_16 = ucast (drop_bit 16 b AND 0xFF), sd_type = ty, sd_s = 1, sd_dpl = d, sd_p = 1,
      lim_19_16 = ucast (drop_bit 28 lim), sd_avl = 0, sd_rsv1 = 0, sd_db = 1, sd_g = 1,
      base_31_24 = ucast (drop_bit 24 b)\<rparr>"

definition SEG16 :: "4 word \<Rightarrow> u32 \<Rightarrow> u32 \<Rightarrow> 2 word \<Rightarrow> segdesc" where
  "SEG16 ty b lim d =
     \<lparr>lim_15_0 = ucast (lim AND 0xFFFF), base_15_0 = ucast (b AND 0xFFFF),
      base_23_16 = ucast (drop_bit 16 b AND 0xFF), sd_type = ty, sd_s = 1, sd_dpl = d, sd_p = 1,
      lim_19_16 = ucast (drop_bit 16 lim), sd_avl = 0, sd_rsv1 = 0, sd_db = 1, sd_g = 0,
      base_31_24 = ucast (drop_bit 24 b)\<rparr>"

record gatedesc =
  off_15_0 :: "16 word"
  gd_cs :: "16 word"
  gd_args :: "5 word"
  gd_rsv1 :: "3 word"
  gd_type :: "4 word"
  gd_s :: "1 word"
  gd_dpl :: "2 word"
  gd_p :: "1 word"
  off_31_16 :: "16 word"

definition STA_X :: "4 word" where "STA_X = 8"
definition STA_W :: "4 word" where "STA_W = 2"
definition STA_R :: "4 word" where "STA_R = 2"
definition STS_T32A :: "4 word" where "STS_T32A = 9"
definition STS_IG32 :: "4 word" where "STS_IG32 = 14"
definition STS_TG32 :: "4 word" where "STS_TG32 = 15"

text \<open>All fields of the gate are assigned, so \<^verbatim>\<open>SETGATE\<close> is a value.\<close>

definition SETGATE :: "bool \<Rightarrow> u16 \<Rightarrow> u32 \<Rightarrow> 2 word \<Rightarrow> gatedesc" where
  "SETGATE istrap sel off d =
     \<lparr>off_15_0 = ucast (off AND 0xFFFF), gd_cs = sel, gd_args = 0, gd_rsv1 = 0,
      gd_type = (if istrap then STS_TG32 else STS_IG32), gd_s = 0, gd_dpl = d, gd_p = 1,
      off_31_16 = ucast (drop_bit 16 off)\<rparr>"

definition NSEGS :: nat where "NSEGS = 7"
definition SEG_KCODE :: u16 where "SEG_KCODE = 1"
definition SEG_KDATA :: u16 where "SEG_KDATA = 2"
definition SEG_KCPU :: u16 where "SEG_KCPU = 3"
definition SEG_TSS :: u16 where "SEG_TSS = 6"

section \<open>State\<close>

text \<open>Offsets in \<^verbatim>\<open>struct cpu\<close> of the task state, the descriptor table and the per-CPU variables.\<close>

definition CPU_TS :: u32 where "CPU_TS = 8"
definition CPU_GDT :: u32 where "CPU_GDT = 112"
definition CPU_CPU :: u32 where "CPU_CPU = 180"
definition TS_SIZE :: u32 where "TS_SIZE = 104"

record segst = kernel +
  cpu_addr :: "nat \<Rightarrow> u32"
  gdt :: "nat \<Rightarrow> segdesc list"
  ts_ss0 :: "nat \<Rightarrow> u16"
  ts_iomb :: "nat \<Rightarrow> u16"
  gdtr :: "nat \<Rightarrow> u16 list"
  gs_sel :: "nat \<Rightarrow> u16"
  tr_sel :: "nat \<Rightarrow> u16"
  vectors :: "u32 list"
  idt :: "gatedesc list"
  idt_addr :: u32
  idtr :: "nat \<Rightarrow> u16 list"

abbreviation (input) set_gdt :: "u16 \<Rightarrow> segdesc \<Rightarrow> 'z segst_scheme \<Rightarrow> 'z segst_scheme" where
  "set_gdt i d s \<equiv> s\<lparr>gdt := (gdt s)(mycpu s := (gdt s (mycpu s))[unat i := d])\<rparr>"

text \<open>The operand \<^verbatim>\<open>pd\<close> of \<^verbatim>\<open>lgdt\<close> and \<^verbatim>\<open>lidt\<close>: the size less one and the two halves of the address.\<close>

definition pseudo_desc :: "u32 \<Rightarrow> u32 \<Rightarrow> u16 list" where
  "pseudo_desc p n = [ucast (n - 1), ucast p, ucast (drop_bit 16 p)]"

definition lgdt :: "u32 \<Rightarrow> u32 \<Rightarrow> (unit, 'z segst_scheme) km" where
  "lgdt p n = kmod (\<lambda>s. s\<lparr>gdtr := (gdtr s)(mycpu s := pseudo_desc p n)\<rparr>)"

definition lidt :: "u32 \<Rightarrow> u32 \<Rightarrow> (unit, 'z segst_scheme) km" where
  "lidt p n = kmod (\<lambda>s. s\<lparr>idtr := (idtr s)(mycpu s := pseudo_desc p n)\<rparr>)"

definition loadgs :: "u16 \<Rightarrow> (unit, 'z segst_scheme) km" where
  "loadgs v = kmod (\<lambda>s. s\<lparr>gs_sel := (gs_sel s)(mycpu s := v)\<rparr>)"

definition ltr :: "u16 \<Rightarrow> (unit, 'z segst_scheme) km" where
  "ltr v = kmod (\<lambda>s. s\<lparr>tr_sel := (tr_sel s)(mycpu s := v)\<rparr>)"

section \<open>Operations\<close>

definition seginit :: "(unit, 'z segst_scheme) km" where
  "seginit =
     kbind (kget (\<lambda>s. cpu_addr s (mycpu s))) (\<lambda>c.
     kthen (kmod (set_gdt SEG_KCODE (SEG (STA_X OR STA_R) 0 0xFFFFFFFF 0)))
    (kthen (kmod (set_gdt SEG_KDATA (SEG STA_W 0 0xFFFFFFFF 0)))
    (kthen (kmod (set_gdt SEG_UCODE (SEG (STA_X OR STA_R) 0 0xFFFFFFFF 3)))
    (kthen (kmod (set_gdt SEG_UDATA (SEG STA_W 0 0xFFFFFFFF 3)))
    (kthen (kmod (set_gdt SEG_KCPU (SEG STA_W (c + CPU_CPU) 8 0)))
    (kthen (lgdt (c + CPU_GDT) (8 * of_nat NSEGS))
    (kthen (loadgs (push_bit 3 SEG_KCPU))
     (kmod (\<lambda>s. s\<lparr>cpus := (cpus s)(mycpu s := (cpus s (mycpu s))\<lparr>cproc := None\<rparr>)\<rparr>)))))))))"

text \<open>The task state part of \<^verbatim>\<open>switchuvm\<close>: the descriptor, the kernel stack and the I/O permission map.\<close>

definition load_tss :: "u32 \<Rightarrow> (unit, 'z segst_scheme) km" where
  "load_tss stack =
     kbind (kget (\<lambda>s. cpu_addr s (mycpu s))) (\<lambda>c.
     kthen (kmod (set_gdt SEG_TSS (SEG16 STS_T32A (c + CPU_TS) (TS_SIZE - 1) 0)))
    (kthen (kmod (\<lambda>s. set_gdt SEG_TSS ((gdt s (mycpu s) ! unat SEG_TSS)\<lparr>sd_s := 0\<rparr>) s))
    (kthen (kmod (\<lambda>s. s\<lparr>ts_ss0 := (ts_ss0 s)(mycpu s := push_bit 3 SEG_KDATA)\<rparr>))
    (kthen (kmod (\<lambda>s. s\<lparr>esp0 := (esp0 s)(mycpu s := stack + KSTACKSIZE)\<rparr>))
    (kthen (kmod (\<lambda>s. s\<lparr>ts_iomb := (ts_iomb s)(mycpu s := 0xFFFF)\<rparr>))
     (ltr (push_bit 3 SEG_TSS)))))))"

definition tvinit :: "(unit, 'z segst_scheme) km" where
  "tvinit =
     kthen (kfor [0..<256] (\<lambda>i. kmod (\<lambda>s. s\<lparr>idt := (idt s)[i := SETGATE False (push_bit 3 SEG_KCODE) (vectors s ! i) 0]\<rparr>)))
    (kthen (kmod (\<lambda>s. s\<lparr>idt := (idt s)[unat T_SYSCALL := SETGATE True (push_bit 3 SEG_KCODE) (vectors s ! unat T_SYSCALL) 3]\<rparr>))
     (initlock LkTicks ''time''))"

definition idtinit :: "(unit, 'z segst_scheme) km" where
  "idtinit = kbind (kget idt_addr) (\<lambda>a. lidt a (8 * 256))"

section \<open>Entering the kernel\<close>

text \<open>The fields as the processor puts them together.\<close>

definition seg_base :: "segdesc \<Rightarrow> u32" where
  "seg_base d = ucast (base_15_0 d) OR push_bit 16 (ucast (base_23_16 d)) OR push_bit 24 (ucast (base_31_24 d))"

definition seg_limit :: "segdesc \<Rightarrow> u32" where
  "seg_limit d =
     (let lim = ucast (lim_15_0 d) OR push_bit 16 (ucast (lim_19_16 d))
      in if sd_g d = 1 then push_bit 12 lim OR 0xFFF else lim)"

definition gate_offset :: "gatedesc \<Rightarrow> u32" where
  "gate_offset g = ucast (off_15_0 g) OR push_bit 16 (ucast (off_31_16 g))"

text \<open>An entry through gate \<open>n\<close> from privilege level \<open>cpl\<close>: the address and privilege level it continues at and whether
  interrupts are turned off.  The privilege level of the gate counts for interrupt instructions (\<open>soft\<close>) only.\<close>

record entered =
  en_eip :: u32
  en_cs :: u16
  en_cpl :: nat
  en_cli :: bool

definition enter_gate :: "bool \<Rightarrow> nat \<Rightarrow> nat \<Rightarrow> 'z segst_scheme \<Rightarrow> entered option" where
  "enter_gate soft cpl n s =
     (let g = idt s ! n; d = gdt s (mycpu s) ! unat (drop_bit 3 (gd_cs g)) in
      if gd_p g = 1 \<and> gd_s g = 0 \<and> (gd_type g = STS_IG32 \<or> gd_type g = STS_TG32) \<and> (soft \<longrightarrow> cpl \<le> unat (gd_dpl g)) \<and>
         sd_p d = 1 \<and> sd_s d = 1 \<and> sd_type d AND STA_X \<noteq> 0 \<and> unat (sd_dpl d) \<le> cpl \<and> gate_offset g \<le> seg_limit d
      then Some \<lparr>en_eip = seg_base d + gate_offset g, en_cs = gd_cs g, en_cpl = unat (sd_dpl d), en_cli = (gd_type g = STS_IG32)\<rparr>
      else None)"

lemma ucast_low_high:
  "(ucast (ucast (a AND 0xFFFF) :: u16) OR push_bit 16 (ucast (ucast (drop_bit 16 a) :: u16))) = (a :: u32)"
proof -
  have "a AND 0xFFFF = take_bit 16 a" by (simp add: take_bit_eq_mask mask_eq_exp_minus_1)
  then show ?thesis
    by (intro bit_word_eqI) (auto simp: bit_simps not_le)
qed

lemma gate_offset_SETGATE [simp]: "gate_offset (SETGATE b sel off d) = off"
  by (simp add: gate_offset_def SETGATE_def ucast_low_high)

lemma seg_flat [simp]:
  "seg_base (SEG ty 0 lim d) = 0" "seg_limit (SEG ty b 0xFFFFFFFF d) = 0xFFFFFFFF"
  by (simp_all add: seg_base_def seg_limit_def SEG_def)

lemma seg_limit_flat [simp]: "x \<le> seg_limit (SEG ty b 0xFFFFFFFF d)"
  using unat_u32_less[of x] by (simp add: word_le_nat_alt)

lemma SETGATE_fields [simp]:
  "gd_cs (SETGATE b sel off d) = sel" "gd_p (SETGATE b sel off d) = 1" "gd_s (SETGATE b sel off d) = 0"
  "gd_dpl (SETGATE b sel off d) = d" "gd_type (SETGATE b sel off d) = (if b then STS_TG32 else STS_IG32)"
  by (simp_all add: SETGATE_def)

lemma SEG_fields [simp]:
  "sd_p (SEG ty b lim d) = 1" "sd_s (SEG ty b lim d) = 1" "sd_dpl (SEG ty b lim d) = d" "sd_type (SEG ty b lim d) = ty"
  by (simp_all add: SEG_def)

text \<open>The tables that \<^verbatim>\<open>tvinit\<close> and \<^verbatim>\<open>seginit\<close> leave behind.\<close>

definition built_idt :: "u32 list \<Rightarrow> gatedesc list" where
  "built_idt vs = (map (\<lambda>i. SETGATE False (push_bit 3 SEG_KCODE) (vs ! i) 0) [0..<256])
     [64 := SETGATE True (push_bit 3 SEG_KCODE) (vs ! 64) 3]"

lemma tvinit_builds:
  assumes "length (idt s) = 256"
  shows "runs tvinit s (\<lambda>_ t. t = s\<lparr>locks := locks t, idt := built_idt (vectors s)\<rparr>)"
proof -
  let ?gate = "\<lambda>i. SETGATE False (push_bit 3 SEG_KCODE) (vectors s ! i) 0"
  have "runs (kfor [0..<256] (\<lambda>i. kmod (\<lambda>s. s\<lparr>idt := (idt s)[i := SETGATE False (push_bit 3 SEG_KCODE) (vectors s ! i) 0]\<rparr>))) s
    (\<lambda>_ t. t = s\<lparr>idt := map ?gate [0..<256] @ drop 256 (idt s)\<rparr>)"
  proof (rule runs_kfor_upt[where I = "\<lambda>k t. t = s\<lparr>idt := map ?gate [0..<k] @ drop k (idt s)\<rparr>"], goal_cases)
    case (3 i t)
    have "drop i (idt s) = (idt s ! i) # drop (Suc i) (idt s)" using assms 3(2) by (intro Cons_nth_drop_Suc[symmetric]) simp
    then show ?case using 3 by (simp add: runs_def list_update_append)
  qed simp_all
  then show ?thesis
    using assms by (simp add: tvinit_def runs_def initlock_def upd_lock_def T_SYSCALL_def built_idt_def keval)
qed

lemma seginit_builds:
  assumes "length (gdt s (mycpu s)) = NSEGS"
  shows "runs seginit s (\<lambda>_ t. t = s\<lparr>cpus := (cpus s)(mycpu s := (this_cpu s)\<lparr>cproc := None\<rparr>),
     gdt := (gdt s)(mycpu s := [gdt s (mycpu s) ! 0, SEG (STA_X OR STA_R) 0 0xFFFFFFFF 0, SEG STA_W 0 0xFFFFFFFF 0,
       SEG STA_W (cpu_addr s (mycpu s) + CPU_CPU) 8 0, SEG (STA_X OR STA_R) 0 0xFFFFFFFF 3, SEG STA_W 0 0xFFFFFFFF 3,
       gdt s (mycpu s) ! 6]),
     gdtr := (gdtr s)(mycpu s := pseudo_desc (cpu_addr s (mycpu s) + CPU_GDT) 56),
     gs_sel := (gs_sel s)(mycpu s := 24)\<rparr>)"
proof -
  have "gdt s (mycpu s) = map ((!) (gdt s (mycpu s))) [0..<7]" using assms by (metis NSEGS_def map_nth)
  then obtain a b c d e f g where "gdt s (mycpu s) = [a, b, c, d, e, f, g]" by (simp add: upt_rec)
  then show ?thesis
    by (simp add: runs_def seginit_def keval lgdt_def loadgs_def SEG_KCODE_def SEG_KDATA_def SEG_KCPU_def SEG_UCODE_def
      SEG_UDATA_def NSEGS_def)
qed

text \<open>C5. After \<^verbatim>\<open>tvinit\<close> and \<^verbatim>\<open>seginit\<close> an \<^verbatim>\<open>int n\<close> instruction of a user program is refused for every vector but 64, the
  system call, and every entry, soft for 64 or by the hardware for any vector, continues at privilege level 0 at the address
  the table \<^verbatim>\<open>vectors\<close> has for it; only the system call leaves interrupts on.\<close>

theorem user_enters_by_system_call:
  assumes "length (idt s) = 256" and "length (gdt s (mycpu s)) = NSEGS" and "n < 256"
  shows "runs (kthen tvinit seginit) s (\<lambda>_ t.
    enter_gate True 3 n t =
      (if n = unat T_SYSCALL then Some \<lparr>en_eip = vectors s ! n, en_cs = 8, en_cpl = 0, en_cli = False\<rparr> else None) \<and>
    enter_gate False 3 n t = Some \<lparr>en_eip = vectors s ! n, en_cs = 8, en_cpl = 0, en_cli = (n \<noteq> unat T_SYSCALL)\<rparr>)"
proof -
  obtain t where t: "tvinit s = Ret () t" "t = s\<lparr>locks := locks t, idt := built_idt (vectors s)\<rparr>"
    using tvinit_builds[OF assms(1)] by (auto simp: runs_def)
  have f: "idt t = built_idt (vectors s)" "gdt t = gdt s" "mycpu t = mycpu s" by (subst t(2), simp)+
  then have "runs seginit t (\<lambda>_ u. idt u = built_idt (vectors s) \<and> mycpu u = mycpu t \<and>
      gdt u (mycpu t) ! 1 = SEG (STA_X OR STA_R) 0 0xFFFFFFFF 0)"
    using runs_mono[OF seginit_builds[of t]] assms(2) by fastforce
  then show ?thesis
    using t(1) assms(3)
    by (auto simp: runs_simps enter_gate_def Let_def built_idt_def nth_list_update SEG_KCODE_def T_SYSCALL_def STS_TG32_def
      STS_IG32_def STA_X_def STA_R_def
      simp del: seg_flat(2) elim!: runs_mono)
qed

definition cold_boot :: segst where
  "cold_boot = kernel.extend (ftable.extend (pipest.extend (one_pipe 0) (ftable.fields [])) (kernel.fields True 0 0 0 []))
     (segst.fields (\<lambda>_. 0x80110000) (\<lambda>_. replicate 7 (SEG 0 0 0 0)) (\<lambda>_. 0) (\<lambda>_. 0) (\<lambda>_. []) (\<lambda>_. 0) (\<lambda>_. 0)
        (map (\<lambda>i. 0x80105000 + 7 * of_nat i) [0..<256]) (replicate 256 (SETGATE False 0 0 0)) 0x80112000 (\<lambda>_. []))"

lemma cold_boot_fields:
  "length (idt cold_boot) = 256" "length (gdt cold_boot c) = NSEGS" "n < 256 \<Longrightarrow> vectors cold_boot ! n = 0x80105000 + 7 * of_nat n"
  by (simp_all add: cold_boot_def segst.defs kernel.defs NSEGS_def)

theorem user_enters_by_system_call_witness:
  "runs (kthen tvinit seginit) cold_boot (\<lambda>_ t.
     enter_gate True 3 64 t = Some \<lparr>en_eip = 0x801051C0, en_cs = 8, en_cpl = 0, en_cli = False\<rparr>) \<and>
   runs (kthen tvinit seginit) cold_boot (\<lambda>_ t. enter_gate True 3 32 t = None)"
  using runs_mono[OF user_enters_by_system_call[of cold_boot 64], of "\<lambda>_ t. enter_gate True 3 64 t = Some _"]
    runs_mono[OF user_enters_by_system_call[of cold_boot 32], of "\<lambda>_ t. enter_gate True 3 32 t = None"]
  by (simp add: cold_boot_fields T_SYSCALL_def)

end
