(* ===== verification/Sh.thy ===== *)
theory Sh
  imports CString
begin

text \<open>
  The shell (\<^verbatim>\<open>sh.c\<close>): its parser and \<^verbatim>\<open>runcmd\<close>.  The command line is the list of its bytes without the terminating zero;
  a pointer into it is an index, and \<open>view b i\<close> is the byte there (zero at the end).  Command nodes hold the indices of
  their words, as the C structures hold pointers.  \<^verbatim>\<open>panic\<close> of the shell prints a message and exits: a parser returns the
  message (\<open>Inl\<close>).  The mutually recursive parsers take a bound on the depth of their calls; \<open>None\<close> is a bound that was
  too small.
\<close>

section \<open>Commands\<close>

datatype cmd =
    EXEC "(nat \<times> nat) list"
  | REDIR cmd nat nat nat nat  \<comment> \<open>command, file, end of file, mode, descriptor\<close>
  | PIPE cmd cmd
  | LIST cmd cmd
  | BACK cmd

definition MAXARGS :: nat where "MAXARGS = 10"
definition SH_RDONLY :: nat where "SH_RDONLY = 0"
definition SH_WRCREATE :: nat where "SH_WRCREATE = 0x201"

section \<open>Tokens\<close>

definition whitespace :: "u8 list" where "whitespace = [32, 9, 13, 10, 11]"
definition symbols :: "u8 list" where "symbols = [60, 124, 62, 38, 59, 40, 41]"

function skip_ws :: "u8 list \<Rightarrow> nat \<Rightarrow> nat" where
  "skip_ws b i = (if i < length b \<and> b ! i \<in> set whitespace then skip_ws b (Suc i) else i)"
  by pat_completeness auto
termination by (relation "measure (\<lambda>(b, i). length b - i)") auto

function skip_word :: "u8 list \<Rightarrow> nat \<Rightarrow> nat" where
  "skip_word b i =
     (if i < length b \<and> b ! i \<notin> set whitespace \<and> b ! i \<notin> set symbols then skip_word b (Suc i) else i)"
  by pat_completeness auto
termination by (relation "measure (\<lambda>(b, i). length b - i)") auto

declare skip_ws.simps [simp del] skip_word.simps [simp del]

text \<open>\<open>gettoken b ps\<close>: the token, \<^verbatim>\<open>*q\<close>, \<^verbatim>\<open>*eq\<close> and the new \<^verbatim>\<open>*ps\<close>.\<close>

definition gettoken :: "u8 list \<Rightarrow> nat \<Rightarrow> u8 \<times> nat \<times> nat \<times> nat" where
  "gettoken b ps =
     (let q = skip_ws b ps;
          c = view b q;
          (tok, eq) =
            (if c = 0 then (c, q)
             else if c \<in> {124, 40, 41, 59, 38, 60} then (c, Suc q)
             else if c = 62 then (if view b (Suc q) = 62 then (43, Suc (Suc q)) else (c, Suc q))
             else (97, skip_word b q))
      in (tok, q, eq, skip_ws b eq))"

definition token_end :: "u8 list \<Rightarrow> nat \<Rightarrow> nat" where
  "token_end b ps = snd (snd (snd (gettoken b ps)))"

text \<open>\<open>peek b ps toks\<close>; the new \<^verbatim>\<open>*ps\<close> is \<open>skip_ws b ps\<close>.\<close>

definition peek :: "u8 list \<Rightarrow> nat \<Rightarrow> u8 list \<Rightarrow> bool" where
  "peek b ps toks \<longleftrightarrow> view b (skip_ws b ps) \<noteq> 0 \<and> view b (skip_ws b ps) \<in> set toks"

subsection \<open>Progress of the scanner\<close>

lemma skip_ws_ge: "i \<le> skip_ws b i"
  by (induction b i rule: skip_ws.induct) (subst skip_ws.simps, auto)

lemma skip_ws_le: "i \<le> length b \<Longrightarrow> skip_ws b i \<le> length b"
  by (induction b i rule: skip_ws.induct) (subst skip_ws.simps, auto)

lemma skip_word_ge: "i \<le> skip_word b i"
  by (induction b i rule: skip_word.induct) (subst skip_word.simps, auto)

lemma skip_word_le: "i \<le> length b \<Longrightarrow> skip_word b i \<le> length b"
  by (induction b i rule: skip_word.induct) (subst skip_word.simps, auto)

lemma view_nonzero: "view b i \<noteq> 0 \<Longrightarrow> i < length b"
  by (auto simp: view_def split: if_splits)

lemma skip_ws_stops: "skip_ws b i < length b \<Longrightarrow> b ! skip_ws b i \<notin> set whitespace"
proof (induction b i rule: skip_ws.induct)
  case (1 b i)
  then show ?case by (cases "i < length b \<and> b ! i \<in> set whitespace") (auto simp: skip_ws.simps[of b i])
qed

lemma token_progress:
  assumes "gettoken b ps = (tok, q, eq, ps')" and "tok \<noteq> 0"
  shows "ps < ps'"
proof -
  let ?q = "skip_ws b ps"
  have z: "view b ?q \<noteq> 0" using assms by (auto simp: gettoken_def Let_def split: if_splits)
  then have l: "?q < length b" by (rule view_nonzero)
  then have w: "b ! ?q \<notin> set whitespace" and v: "view b ?q = b ! ?q"
    using skip_ws_stops[of b ps] by (simp_all add: view_def)
  have "?q < skip_word b ?q" if "b ! ?q \<notin> set symbols"
    using l w that skip_word_ge[of "Suc ?q" b] by (subst skip_word.simps) simp
  then have "?q < eq" using assms z v by (auto simp: gettoken_def Let_def symbols_def split: if_splits)
  moreover have "eq \<le> ps'" using assms(1) skip_ws_ge[of eq b] by (auto simp: gettoken_def Let_def split: if_splits)
  ultimately show ?thesis using skip_ws_ge[of ps b] by simp
qed

lemma token_end_progress: "peek b ps toks \<Longrightarrow> ps < token_end b ps"
proof -
  assume p: "peek b ps toks"
  obtain tok q eq ps' where g: "gettoken b ps = (tok, q, eq, ps')" by (metis prod_cases4)
  have "tok \<noteq> 0" using p g by (auto simp: peek_def gettoken_def Let_def split: if_splits)
  then show ?thesis using token_progress[OF g] g by (simp add: token_end_def)
qed

lemma view_end [simp]: "length b \<le> i \<Longrightarrow> view b i = 0"
  by (simp add: view_def)

lemma gettoken_bound:
  assumes "gettoken b ps = (tok, q, eq, ps')" and "ps \<le> length b"
  shows "ps \<le> q \<and> q \<le> eq \<and> eq \<le> ps' \<and> ps' \<le> length b"
proof -
  have q: "q = skip_ws b ps" and p: "ps' = skip_ws b eq" using assms(1) by (auto simp: gettoken_def Let_def split: if_splits)
  have ql: "q \<le> length b" using skip_ws_le assms(2) q by simp
  then have "eq \<le> length b" "q \<le> eq"
    using assms(1) view_nonzero[of b q] view_nonzero[of b "Suc q"] skip_word_le[OF ql] skip_word_ge[of q b] q
    by (auto simp: gettoken_def Let_def Suc_le_eq split: if_splits)
  then show ?thesis using skip_ws_ge[of ps b] skip_ws_ge[of eq b] skip_ws_le[of eq b] p q by simp
qed

section \<open>Parsers\<close>

text \<open>The redirections of \<^verbatim>\<open>parseredirs\<close>, in the order of the line, as file, end of file, mode and descriptor.\<close>

function parseredirs :: "u8 list \<Rightarrow> nat \<Rightarrow> string + ((nat \<times> nat \<times> nat \<times> nat) list \<times> nat)" where
  "parseredirs b ps =
     (if peek b ps [60, 62] then
        let (tok, _, _, ps1) = gettoken b ps;
            (tok2, q, eq, ps2) = gettoken b ps1 in
        if tok2 \<noteq> 97 then Inl ''missing file for redirection''
        else
          case parseredirs b ps2 of
            Inl m \<Rightarrow> Inl m
          | Inr (rs, ps3) \<Rightarrow> Inr ((q, eq, if tok = 60 then (SH_RDONLY, 0) else (SH_WRCREATE, 1)) # rs, ps3)
      else Inr ([], skip_ws b ps))"
  by pat_completeness auto
termination
proof (relation "measure (\<lambda>(b, ps). length b - ps)", simp, goal_cases)
  case (1 b ps x tok y q0 z e0 ps1 w tok2 y' q z' eq ps2)
  then have g: "gettoken b ps = (tok, q0, e0, ps1)" "gettoken b ps1 = (97, q, eq, ps2)" by auto
  have "ps < ps1" using token_end_progress[OF 1(1)] g(1) by (simp add: token_end_def)
  moreover have "ps1 < ps2" using token_progress[OF g(2)] by simp
  moreover have "ps < length b" using 1(1) view_nonzero skip_ws_ge[of ps b] by (fastforce simp: peek_def)
  ultimately show ?case by simp
qed

declare parseredirs.simps [simp del]

text \<open>The command wrapped in its redirections, the last one outermost.\<close>

definition redircmds :: "cmd \<Rightarrow> (nat \<times> nat \<times> nat \<times> nat) list \<Rightarrow> cmd" where
  "redircmds c rs = foldl (\<lambda>c (q, eq, mode, fd). REDIR c q eq mode fd) c rs"

lemma parseredirs_ge: "parseredirs b ps = Inr (rs, ps') \<Longrightarrow> ps \<le> ps'"
proof (induction b ps arbitrary: rs ps' rule: parseredirs.induct)
  case (1 b ps)
  obtain tok q0 e0 ps1 where g1: "gettoken b ps = (tok, q0, e0, ps1)" by (metis prod_cases4)
  obtain tok2 q eq ps2 where g2: "gettoken b ps1 = (tok2, q, eq, ps2)" by (metis prod_cases4)
  show ?case
  proof (cases "peek b ps [60, 62]")
    case False
    then show ?thesis using 1(2) skip_ws_ge[of ps b] by (simp add: parseredirs.simps[of b ps])
  next
    case True
    with 1(2) g1 g2 have t: "tok2 = 97" by (auto simp: parseredirs.simps[of b ps] split: if_splits)
    with 1(2) True g1 g2 obtain rs' where "parseredirs b ps2 = Inr (rs', ps')"
      by (auto simp: parseredirs.simps[of b ps] split: sum.splits)
    then have "ps2 \<le> ps'" using 1(1)[OF True] g1 g2 t by auto
    moreover have "ps < ps1" using token_end_progress[OF True] g1 by (simp add: token_end_def)
    moreover have "ps1 < ps2" using token_progress[OF g2] t by simp
    ultimately show ?thesis by simp
  qed
qed

text \<open>The loop of \<^verbatim>\<open>parseexec\<close> over the words, which are counted by the length of \<open>argv\<close>.\<close>

function parseargs :: "u8 list \<Rightarrow> nat \<Rightarrow> (nat \<times> nat) list \<Rightarrow> (nat \<times> nat \<times> nat \<times> nat) list \<Rightarrow> string + (cmd \<times> nat)" where
  "parseargs b ps argv rs =
     (if peek b ps [124, 41, 38, 59] then Inr (redircmds (EXEC argv) rs, skip_ws b ps)
      else
        let (tok, q, eq, ps1) = gettoken b ps in
        if tok = 0 then Inr (redircmds (EXEC argv) rs, ps1)
        else if tok \<noteq> 97 then Inl ''syntax''
        else if Suc (length argv) \<ge> MAXARGS then Inl ''too many args''
        else
          case parseredirs b ps1 of
            Inl m \<Rightarrow> Inl m
          | Inr (rs', ps2) \<Rightarrow> parseargs b ps2 (argv @ [(q, eq)]) (rs @ rs'))"
  by pat_completeness auto
termination
  by (relation "measure (\<lambda>(b, ps, argv, rs). MAXARGS - length argv)") auto

declare parseargs.simps [simp del]

function parsebacks :: "u8 list \<Rightarrow> cmd \<Rightarrow> nat \<Rightarrow> cmd \<times> nat" where
  "parsebacks b c ps =
     (if peek b ps [38] then parsebacks b (BACK c) (token_end b ps) else (c, skip_ws b ps))"
  by pat_completeness auto
termination
proof (relation "measure (\<lambda>(b, c, ps). length b - ps)", simp, goal_cases)
  case (1 b c ps)
  then have "ps < length b" using view_nonzero skip_ws_ge[of ps b] by (fastforce simp: peek_def)
  then show ?case using token_end_progress[OF 1] by simp
qed

declare parsebacks.simps [simp del]

fun parseline :: "nat \<Rightarrow> u8 list \<Rightarrow> nat \<Rightarrow> (string + (cmd \<times> nat)) option"
  and parsepipe :: "nat \<Rightarrow> u8 list \<Rightarrow> nat \<Rightarrow> (string + (cmd \<times> nat)) option"
  and parseexec :: "nat \<Rightarrow> u8 list \<Rightarrow> nat \<Rightarrow> (string + (cmd \<times> nat)) option"
  and parseblock :: "nat \<Rightarrow> u8 list \<Rightarrow> nat \<Rightarrow> (string + (cmd \<times> nat)) option" where
  "parseline 0 b ps = None"
| "parseline (Suc n) b ps =
     (case parsepipe n b ps of
        None \<Rightarrow> None
      | Some (Inl m) \<Rightarrow> Some (Inl m)
      | Some (Inr (c, ps1)) \<Rightarrow>
          let (c, ps2) = parsebacks b c ps1 in
          if peek b ps2 [59] then
            case parseline n b (token_end b ps2) of
              None \<Rightarrow> None
            | Some (Inl m) \<Rightarrow> Some (Inl m)
            | Some (Inr (r, ps3)) \<Rightarrow> Some (Inr (LIST c r, ps3))
          else Some (Inr (c, skip_ws b ps2)))"
| "parsepipe 0 b ps = None"
| "parsepipe (Suc n) b ps =
     (case parseexec n b ps of
        None \<Rightarrow> None
      | Some (Inl m) \<Rightarrow> Some (Inl m)
      | Some (Inr (c, ps1)) \<Rightarrow>
          if peek b ps1 [124] then
            case parsepipe n b (token_end b ps1) of
              None \<Rightarrow> None
            | Some (Inl m) \<Rightarrow> Some (Inl m)
            | Some (Inr (r, ps2)) \<Rightarrow> Some (Inr (PIPE c r, ps2))
          else Some (Inr (c, skip_ws b ps1)))"
| "parseexec 0 b ps = None"
| "parseexec (Suc n) b ps =
     (if peek b ps [40] then parseblock n b ps
      else
        case parseredirs b ps of
          Inl m \<Rightarrow> Some (Inl m)
        | Inr (rs, ps1) \<Rightarrow> Some (parseargs b ps1 [] rs))"
| "parseblock 0 b ps = None"
| "parseblock (Suc n) b ps =
     (if \<not> peek b ps [40] then Some (Inl ''parseblock'')
      else
        case parseline n b (token_end b ps) of
          None \<Rightarrow> None
        | Some (Inl m) \<Rightarrow> Some (Inl m)
        | Some (Inr (c, ps1)) \<Rightarrow>
            if \<not> peek b ps1 [41] then Some (Inl ''syntax - missing )'')
            else
              case parseredirs b (token_end b ps1) of
                Inl m \<Rightarrow> Some (Inl m)
              | Inr (rs, ps2) \<Rightarrow> Some (Inr (redircmds c rs, ps2)))"

declare parseline.simps(2) [simp del] parsepipe.simps(2) [simp del] parseexec.simps(2) [simp del] parseblock.simps(2) [simp del]

text \<open>The bytes of the line with a zero behind every word of the command; the line's own terminator is the last byte.\<close>

fun nulterminate :: "cmd \<Rightarrow> u8 list \<Rightarrow> u8 list" where
  "nulterminate (EXEC argv) b = foldl (\<lambda>b (q, eq). b[eq := 0]) b argv"
| "nulterminate (REDIR c q eq mode fd) b = (nulterminate c b)[eq := 0]"
| "nulterminate (PIPE l r) b = nulterminate r (nulterminate l b)"
| "nulterminate (LIST l r) b = nulterminate r (nulterminate l b)"
| "nulterminate (BACK c) b = nulterminate c b"

text \<open>\<^verbatim>\<open>parsecmd\<close>: the command and the buffer after \<^verbatim>\<open>nulterminate\<close>.  Each call of a parser but the first four from one
  position is made behind at least one more byte of the line.\<close>

definition parsecmd :: "u8 list \<Rightarrow> (string + (cmd \<times> u8 list)) option" where
  "parsecmd b =
     (case parseline (4 * length b + 4) b 0 of
        None \<Rightarrow> None
      | Some (Inl m) \<Rightarrow> Some (Inl m)
      | Some (Inr (c, ps)) \<Rightarrow>
          if skip_ws b ps \<noteq> length b then Some (Inl ''syntax'')
          else Some (Inr (c, nulterminate c (b @ [0]))))"

end
