(* ===== verification/Sh_Parse.thy ===== *)
theory Sh_Parse
  imports Sh
begin

text \<open>
  Properties of the shell's parser: it returns for every line, the words of the command it builds are words of the line
  and become exactly those strings, and it reads back every command that is written in the shell's syntax.
\<close>

section \<open>The parser returns\<close>

lemma parseargs_ge: "parseargs b ps argv rs = Inr (c, ps') \<Longrightarrow> ps \<le> ps'"
proof (induction b ps argv rs rule: parseargs.induct)
  case (1 b ps argv rs)
  obtain tok q eq ps1 where g: "gettoken b ps = (tok, q, eq, ps1)" by (metis prod_cases4)
  have p1: "ps \<le> ps1" if "tok = 0 \<or> tok = 97"
    using g token_progress[OF g] skip_ws_ge[of ps b] skip_ws_ge[of "skip_ws b ps" b] that
    by (auto simp: gettoken_def Let_def split: if_splits)
  show ?case
  proof (cases "peek b ps [124, 41, 38, 59] \<or> tok = 0")
    case True
    then show ?thesis using 1(2) g p1 skip_ws_ge[of ps b] by (auto simp: parseargs.simps[of b ps] split: if_splits)
  next
    case False
    with 1(2) g have t: "tok = 97" "\<not> MAXARGS \<le> Suc (length argv)" by (auto simp: parseargs.simps[of b ps] split: if_splits)
    with 1(2) g False obtain rs' ps2 where r: "parseredirs b ps1 = Inr (rs', ps2)"
        "parseargs b ps2 (argv @ [(q, eq)]) (rs @ rs') = Inr (c, ps')"
      by (auto simp: parseargs.simps[of b ps] split: if_splits sum.splits)
    have "ps2 \<le> ps'" using 1(1)[OF _ g[symmetric] refl refl refl] r t False by auto
    then show ?thesis using parseredirs_ge[OF r(1)] p1 t by simp
  qed
qed

lemma parsebacks_ge: "parsebacks b c ps = (c', ps') \<Longrightarrow> ps \<le> ps'"
proof (induction b c ps rule: parsebacks.induct)
  case (1 b c ps)
  then show ?case using token_end_progress[of b ps "[38]"] skip_ws_ge[of ps b]
    by (auto simp: parsebacks.simps[of b c ps] split: if_splits)
qed

lemma parse_ge:
  "(parseline n b ps = Some (Inr (c, ps')) \<longrightarrow> ps \<le> ps') \<and>
   (parsepipe n b ps = Some (Inr (c, ps')) \<longrightarrow> ps \<le> ps') \<and>
   (parseexec n b ps = Some (Inr (c, ps')) \<longrightarrow> ps \<le> ps') \<and>
   (parseblock n b ps = Some (Inr (c, ps')) \<longrightarrow> ps \<le> ps')"
proof (induction n arbitrary: ps c ps')
  case (Suc n)
  have peeked: "ps \<le> token_end b x" if "ps \<le> x" "peek b x ts" for x ts
    using token_end_progress[OF that(2)] that(1) by simp
  note sw = le_trans[OF _ skip_ws_ge]
  have "ps \<le> ps'" if "parseline (Suc n) b ps = Some (Inr (c, ps'))"
  proof -
    from that obtain c1 ps1 where p: "parsepipe n b ps = Some (Inr (c1, ps1))"
      by (auto simp: parseline.simps split: option.splits sum.splits)
    obtain c2 ps2 where k: "parsebacks b c1 ps1 = (c2, ps2)" by fastforce
    have le: "ps \<le> ps2" using Suc p parsebacks_ge[OF k] by (meson le_trans)
    show ?thesis
    proof (cases "peek b ps2 [59]")
      case True
      with that p k obtain r where "parseline n b (token_end b ps2) = Some (Inr (r, ps'))"
        by (auto simp: parseline.simps split: option.splits sum.splits)
      then show ?thesis using Suc peeked[OF le True] by (meson le_trans)
    next
      case False
      then show ?thesis using that p k sw[OF le, of b] by (auto simp: parseline.simps)
    qed
  qed
  moreover have "ps \<le> ps'" if "parsepipe (Suc n) b ps = Some (Inr (c, ps'))"
  proof -
    from that obtain c1 ps1 where p: "parseexec n b ps = Some (Inr (c1, ps1))"
      by (auto simp: parsepipe.simps split: option.splits sum.splits)
    have le: "ps \<le> ps1" using Suc p by blast
    show ?thesis
    proof (cases "peek b ps1 [124]")
      case True
      with that p obtain r where "parsepipe n b (token_end b ps1) = Some (Inr (r, ps'))"
        by (auto simp: parsepipe.simps split: option.splits sum.splits)
      then show ?thesis using Suc peeked[OF le True] by (meson le_trans)
    next
      case False
      then show ?thesis using that p sw[OF le, of b] by (auto simp: parsepipe.simps)
    qed
  qed
  moreover have "ps \<le> ps'" if "parseexec (Suc n) b ps = Some (Inr (c, ps'))"
    using that Suc by (auto simp: parseexec.simps split: if_splits sum.splits dest!: parseredirs_ge parseargs_ge)
  moreover have "ps \<le> ps'" if "parseblock (Suc n) b ps = Some (Inr (c, ps'))"
  proof -
    from that have k: "peek b ps [40]" by (auto simp: parseblock.simps split: if_splits)
    with that obtain c1 ps1 where p: "parseline n b (token_end b ps) = Some (Inr (c1, ps1))"
      by (auto simp: parseblock.simps split: option.splits sum.splits)
    with Suc have le: "token_end b ps \<le> ps1" by blast
    have "peek b ps1 [41]" using that k p by (auto simp: parseblock.simps split: if_splits)
    moreover from this that k p have "token_end b ps1 \<le> ps'"
      by (auto simp: parseblock.simps split: sum.splits dest: parseredirs_ge)
    ultimately show ?thesis using peeked[of ps1] peeked[OF le_refl k] le by (meson le_trans)
  qed
  ultimately show ?case by blast
qed simp

lemma rest_shorter: "peek b ps toks \<Longrightarrow> ps0 \<le> ps \<Longrightarrow> 4 * (length b - token_end b ps) + 4 \<le> 4 * (length b - ps0)"
proof -
  assume p: "peek b ps toks" and l: "ps0 \<le> ps"
  have "ps < length b" using p view_nonzero skip_ws_ge[of ps b] by (fastforce simp: peek_def)
  then show ?thesis using token_end_progress[OF p] l by simp
qed

lemma parse_fuel:
  "(4 * (length b - ps) + 4 \<le> n \<longrightarrow> parseline n b ps \<noteq> None) \<and>
   (4 * (length b - ps) + 3 \<le> n \<longrightarrow> parsepipe n b ps \<noteq> None) \<and>
   (4 * (length b - ps) + 2 \<le> n \<longrightarrow> parseexec n b ps \<noteq> None) \<and>
   (4 * (length b - ps) + 1 \<le> n \<longrightarrow> parseblock n b ps \<noteq> None)"
proof (induction n arbitrary: ps)
  case (Suc n)
  have "parseline (Suc n) b ps \<noteq> None" if f: "4 * (length b - ps) + 4 \<le> Suc n"
  proof -
    have "parsepipe n b ps \<noteq> None" using Suc f by simp
    moreover have "parseline n b (token_end b ps2) \<noteq> None"
      if "parsepipe n b ps = Some (Inr (c, ps1))" "parsebacks b c ps1 = (c2, ps2)" "peek b ps2 [59]" for c ps1 c2 ps2
    proof -
      have "ps \<le> ps2" using that(1) parse_ge parsebacks_ge[OF that(2)] by (meson le_trans)
      from rest_shorter[OF that(3) this] have "4 * (length b - token_end b ps2) + 4 \<le> n" using f by linarith
      then show ?thesis using Suc by blast
    qed
    ultimately show ?thesis by (fastforce simp: parseline.simps split: option.splits sum.splits prod.splits)
  qed
  moreover have "parsepipe (Suc n) b ps \<noteq> None" if f: "4 * (length b - ps) + 3 \<le> Suc n"
  proof -
    have "parseexec n b ps \<noteq> None" using Suc f by simp
    moreover have "parsepipe n b (token_end b ps1) \<noteq> None"
      if "parseexec n b ps = Some (Inr (c, ps1))" "peek b ps1 [124]" for c ps1
    proof -
      have "ps \<le> ps1" using that(1) parse_ge by blast
      from rest_shorter[OF that(2) this] have "4 * (length b - token_end b ps1) + 3 \<le> n" using f by linarith
      then show ?thesis using Suc by blast
    qed
    ultimately show ?thesis by (auto simp: parsepipe.simps split: option.splits sum.splits)
  qed
  moreover have "parseexec (Suc n) b ps \<noteq> None" if "4 * (length b - ps) + 2 \<le> Suc n"
    using Suc that by (auto simp: parseexec.simps split: sum.splits)
  moreover have "parseblock (Suc n) b ps \<noteq> None" if f: "4 * (length b - ps) + 1 \<le> Suc n"
  proof -
    have "parseline n b (token_end b ps) \<noteq> None" if p: "peek b ps [40]"
    proof -
      from rest_shorter[OF p le_refl] have "4 * (length b - token_end b ps) + 4 \<le> n" using f by linarith
      then show ?thesis using Suc by blast
    qed
    then show ?thesis by (auto simp: parseblock.simps split: option.splits sum.splits)
  qed
  ultimately show ?case by blast
qed simp

text \<open>C28. The shell's parser returns for every line, with a command or with an error message: no line makes its recursive
  functions call each other for ever.\<close>

theorem parsecmd_returns: "\<exists>r. parsecmd b = Some r"
proof -
  have "parseline (4 * length b + 4) b 0 \<noteq> None" using parse_fuel[of b 0 "4 * length b + 4"] by simp
  then show ?thesis by (auto simp: parsecmd_def split: sum.splits)
qed

section \<open>Words\<close>

fun cmd_words :: "cmd \<Rightarrow> (nat \<times> nat) list" where
  "cmd_words (EXEC argv) = argv"
| "cmd_words (REDIR c q eq mode fd) = cmd_words c @ [(q, eq)]"
| "cmd_words (PIPE l r) = cmd_words l @ cmd_words r"
| "cmd_words (LIST l r) = cmd_words l @ cmd_words r"
| "cmd_words (BACK c) = cmd_words c"

text \<open>A separator is whitespace or one of the shell's symbols.  A word is a maximal block without one.\<close>

abbreviation separator :: "u8 \<Rightarrow> bool" where
  "separator x \<equiv> x \<in> set whitespace \<or> x \<in> set symbols"

definition word_ok :: "u8 list \<Rightarrow> nat \<times> nat \<Rightarrow> bool" where
  "word_ok b w \<longleftrightarrow> fst w < snd w \<and> snd w \<le> length b \<and> (\<forall>i. fst w \<le> i \<and> i < snd w \<longrightarrow> \<not> separator (b ! i)) \<and>
     (snd w < length b \<longrightarrow> separator (b ! snd w))"

lemma skip_word_block:
  "(\<forall>i. q \<le> i \<and> i < skip_word b q \<longrightarrow> \<not> separator (b ! i)) \<and> (skip_word b q < length b \<longrightarrow> separator (b ! skip_word b q))"
proof (induction b q rule: skip_word.induct)
  case (1 b q)
  show ?case
  proof (cases "q < length b \<and> \<not> separator (b ! q)")
    case True
    then have e: "skip_word b q = skip_word b (Suc q)" by (simp add: skip_word.simps[of b q])
    from True have ih: "\<And>i. Suc q \<le> i \<Longrightarrow> i < skip_word b (Suc q) \<Longrightarrow> \<not> separator (b ! i)"
      "skip_word b (Suc q) < length b \<Longrightarrow> separator (b ! skip_word b (Suc q))"
      using 1 by blast+
    have "\<not> separator (b ! i)" if "q \<le> i" "i < skip_word b (Suc q)" for i
    proof (cases "i = q")
      case False
      then show ?thesis using ih(1)[of i] that by linarith
    qed (use True in blast)
    then show ?thesis using ih(2) unfolding e by blast
  next
    case False
    then have "skip_word b q = q" by (subst skip_word.simps) argo
    then show ?thesis using False by auto
  qed
qed

lemma gettoken_word:
  assumes "gettoken b ps = (97, q, eq, ps')"
  shows "word_ok b (q, eq)"
proof -
  have q: "q = skip_ws b ps" and v: "view b q \<noteq> 0" "view b q \<notin> set symbols" and e: "eq = skip_word b q"
    using assms by (auto simp: gettoken_def Let_def symbols_def split: if_splits)
  have l: "q < length b" using v view_nonzero by blast
  then have "\<not> separator (b ! q)" using v skip_ws_stops[of b ps] q by (auto simp: view_def)
  then have "q < skip_word b q" using l skip_word_ge[of "Suc q" b] by (subst skip_word.simps) simp
  then show ?thesis using skip_word_block[of q b] skip_word_le[of q b] l e by (simp add: word_ok_def)
qed

lemma redircmds_words: "set (cmd_words (redircmds c rs)) = set (cmd_words c) \<union> (\<lambda>r. (fst r, fst (snd r))) ` set rs"
  by (induction rs arbitrary: c) (auto simp: redircmds_def)

lemma parseredirs_words: "parseredirs b ps = Inr (rs, ps') \<Longrightarrow> r \<in> set rs \<Longrightarrow> word_ok b (fst r, fst (snd r))"
proof (induction b ps arbitrary: rs ps' rule: parseredirs.induct)
  case (1 b ps)
  obtain tok q0 e0 ps1 where g1: "gettoken b ps = (tok, q0, e0, ps1)" by (metis prod_cases4)
  obtain tok2 q2 eq2 ps2 where g2: "gettoken b ps1 = (tok2, q2, eq2, ps2)" by (metis prod_cases4)
  from 1(2,3) g1 g2 have p: "peek b ps [60, 62]" "tok2 = 97"
    by (auto simp: parseredirs.simps[of b ps] split: if_splits)
  with 1(2) g1 g2 obtain rs' where r: "parseredirs b ps2 = Inr (rs', ps')"
      "rs = (q2, eq2, if tok = 60 then (SH_RDONLY, 0) else (SH_WRCREATE, 1)) # rs'"
    by (auto simp: parseredirs.simps[of b ps] split: sum.splits)
  then show ?case using 1(1)[OF p(1) g1[symmetric] refl refl refl g2[symmetric] refl refl refl] p(2) 1(3) g2 gettoken_word by auto
qed

lemma parseargs_words:
  "parseargs b ps argv rs = Inr (c, ps') \<Longrightarrow> (\<forall>w \<in> set argv. word_ok b w) \<Longrightarrow>
   (\<forall>r \<in> set rs. word_ok b (fst r, fst (snd r))) \<Longrightarrow> (\<forall>w \<in> set (cmd_words c). word_ok b w)"
proof (induction b ps argv rs rule: parseargs.induct)
  case (1 b ps argv rs)
  obtain tok q eq ps1 where g: "gettoken b ps = (tok, q, eq, ps1)" by (metis prod_cases4)
  show ?case
  proof (cases "peek b ps [124, 41, 38, 59] \<or> tok = 0")
    case True
    then have "c = redircmds (EXEC argv) rs" using 1(2) g by (auto simp: parseargs.simps[of b ps] split: if_splits)
    then show ?thesis using 1(3,4) by (auto simp: redircmds_words)
  next
    case False
    with 1(2) g have t: "tok = 97" "\<not> MAXARGS \<le> Suc (length argv)" by (auto simp: parseargs.simps[of b ps] split: if_splits)
    with 1(2) g False obtain rs' ps2 where r: "parseredirs b ps1 = Inr (rs', ps2)"
        "parseargs b ps2 (argv @ [(q, eq)]) (rs @ rs') = Inr (c, ps')"
      by (auto simp: parseargs.simps[of b ps] split: if_splits sum.splits)
    have "\<forall>w \<in> set (argv @ [(q, eq)]). word_ok b w" using 1(3) g t gettoken_word by auto
    moreover have "\<forall>r \<in> set (rs @ rs'). word_ok b (fst r, fst (snd r))" using 1(4) parseredirs_words[OF r(1)] by auto
    ultimately show ?thesis using 1(1)[OF _ g[symmetric] refl refl refl] r t False by auto
  qed
qed

lemma parsebacks_words: "parsebacks b c ps = (c', ps') \<Longrightarrow> cmd_words c' = cmd_words c"
proof (induction b c ps rule: parsebacks.induct)
  case (1 b c ps)
  then show ?case by (auto simp: parsebacks.simps[of b c ps] split: if_splits)
qed

lemma parse_words:
  "(parseline n b ps = Some (Inr (c, ps')) \<longrightarrow> (\<forall>w \<in> set (cmd_words c). word_ok b w)) \<and>
   (parsepipe n b ps = Some (Inr (c, ps')) \<longrightarrow> (\<forall>w \<in> set (cmd_words c). word_ok b w)) \<and>
   (parseexec n b ps = Some (Inr (c, ps')) \<longrightarrow> (\<forall>w \<in> set (cmd_words c). word_ok b w)) \<and>
   (parseblock n b ps = Some (Inr (c, ps')) \<longrightarrow> (\<forall>w \<in> set (cmd_words c). word_ok b w))"
proof (induction n arbitrary: ps c ps')
  case (Suc n)
  have "\<forall>w \<in> set (cmd_words c). word_ok b w" if "parseline (Suc n) b ps = Some (Inr (c, ps'))"
    using that Suc parsebacks_words[of b]
    by (fastforce simp: parseline.simps split: option.splits sum.splits prod.splits if_splits)
  moreover have "\<forall>w \<in> set (cmd_words c). word_ok b w" if "parsepipe (Suc n) b ps = Some (Inr (c, ps'))"
    using that Suc by (fastforce simp: parsepipe.simps split: option.splits sum.splits if_splits)
  moreover have "\<forall>w \<in> set (cmd_words c). word_ok b w" if "parseexec (Suc n) b ps = Some (Inr (c, ps'))"
  proof (cases "peek b ps [40]")
    case True
    then show ?thesis using that Suc by (auto simp: parseexec.simps)
  next
    case False
    with that obtain rs ps1 where r: "parseredirs b ps = Inr (rs, ps1)" "parseargs b ps1 [] rs = Inr (c, ps')"
      by (auto simp: parseexec.simps split: sum.splits)
    then show ?thesis using parseargs_words[OF r(2)] parseredirs_words[OF r(1)] by auto
  qed
  moreover have "\<forall>w \<in> set (cmd_words c). word_ok b w" if "parseblock (Suc n) b ps = Some (Inr (c, ps'))"
  proof -
    from that obtain c1 ps1 rs where "parseline n b (token_end b ps) = Some (Inr (c1, ps1))"
        "parseredirs b (token_end b ps1) = Inr (rs, ps')" "c = redircmds c1 rs"
      by (auto simp: parseblock.simps split: option.splits sum.splits if_splits)
    then show ?thesis using Suc[of "token_end b ps" c1 ps1] parseredirs_words[of b "token_end b ps1" rs ps']
      by (auto simp: redircmds_words)
  qed
  ultimately show ?case by blast
qed simp

lemma nth_update_any: "j < length xs \<Longrightarrow> xs[i := v] ! j = (if i = j then v else xs ! j)"
  by (cases "i < length xs") (simp_all add: nth_list_update list_update_beyond)

lemma nulterminate_nth:
  "length (nulterminate c b) = length b \<and>
   (\<forall>i < length b. nulterminate c b ! i = (if i \<in> snd ` set (cmd_words c) then 0 else b ! i))"
proof (induction c arbitrary: b)
  case (EXEC argv)
  have "length (foldl (\<lambda>b (q, eq). b[eq := 0]) b argv) = length b \<and>
    (\<forall>i < length b. foldl (\<lambda>b (q, eq). b[eq := 0]) b argv ! i = (if i \<in> snd ` set argv then 0 else b ! i))"
  proof (induction argv arbitrary: b)
    case (Cons w argv)
    then show ?case by (cases w) (simp add: nth_update_any)
  qed simp
  then show ?case by simp
qed (simp_all add: nth_update_any image_Un)

text \<open>C29. The words of a parsed command are words of the line, cut at separators, and after \<^verbatim>\<open>nulterminate\<close> the string at each
  word is that word: no terminator overwrites a byte of another word.\<close>

theorem parsecmd_words:
  assumes "parsecmd b = Some (Inr (c, b'))" and "0 \<notin> set b" and "(q, eq) \<in> set (cmd_words c)"
  shows "q < eq \<and> eq \<le> length b \<and> takeWhile (\<lambda>x. x \<noteq> 0) (drop q b') = take (eq - q) (drop q b) \<and>
     (\<forall>x \<in> set (take (eq - q) (drop q b)). \<not> separator x)"
proof -
  from assms(1) obtain ps where p: "parseline (4 * length b + 4) b 0 = Some (Inr (c, ps))" and b': "b' = nulterminate c (b @ [0])"
    by (auto simp: parsecmd_def split: option.splits sum.splits if_splits)
  have ok: "word_ok b w" if "w \<in> set (cmd_words c)" for w using parse_words p that by blast
  have w: "q < eq" "eq \<le> length b" "\<And>i. q \<le> i \<Longrightarrow> i < eq \<Longrightarrow> \<not> separator (b ! i)" using ok[OF assms(3)] by (auto simp: word_ok_def)
  have in_word: "b' ! i = b ! i \<and> b ! i \<noteq> 0" if "q \<le> i" "i < eq" for i
  proof -
    have "i \<notin> snd ` set (cmd_words c)"
    proof
      assume "i \<in> snd ` set (cmd_words c)"
      then obtain v where "v \<in> set (cmd_words c)" "snd v = i" by auto
      then have "separator (b ! i)" using ok[of v] that w(2) by (simp add: word_ok_def)
      then show False using w(3) that by blast
    qed
    moreover have "b ! i \<noteq> 0" using assms(2) that w(2) by (metis nth_mem less_le_trans)
    ultimately show ?thesis using nulterminate_nth[of c "b @ [0]"] that w(2) b' by (auto simp: nth_append)
  qed
  have z: "b' ! eq = 0" "length b' = Suc (length b)" using nulterminate_nth[of c "b @ [0]"] assms(3) w(2) b' by (force simp: image_iff)+
  have "b' = take eq b' @ 0 # drop (Suc eq) b'" "length (take eq b') = eq"
    using id_take_nth_drop[of eq b'] w(2) z by simp_all
  then obtain h t where h: "b' = h @ 0 # t" "length h = eq" by blast
  have "drop q h = take (eq - q) (drop q b)"
    using w(1,2) h in_word by (intro nth_equalityI) (auto simp: nth_append)
  then have "drop q b' = take (eq - q) (drop q b) @ 0 # t" using h w(1) by simp
  moreover have "x \<noteq> 0 \<and> \<not> separator x" if "x \<in> set (take (eq - q) (drop q b))" for x
  proof -
    from that obtain i where "i < eq - q" "x = b ! (q + i)" using w(2) by (auto simp: in_set_conv_nth)
    then show ?thesis using in_word[of "q + i"] w(3)[of "q + i"] by simp
  qed
  ultimately show ?thesis using w(1,2) by (simp add: takeWhile_append)
qed

theorem parsecmd_words_witness:
  "parsecmd [108, 115, 32, 62, 102] = Some (Inr (REDIR (EXEC [(0, 2)]) 4 5 0x201 1, [108, 115, 0, 62, 102, 0])) \<and>
   takeWhile (\<lambda>x. x \<noteq> 0) (drop 4 [108, 115, 0, 62, 102, 0 :: u8]) = [102]"
proof -
  have p: "parsecmd [108, 115, 32, 62, 102] = Some (Inr (REDIR (EXEC [(0, 2)]) 4 5 0x201 1, [108, 115, 0, 62, 102, 0]))"
    by code_simp
  show ?thesis using parsecmd_words[OF p, of 4 5] p by simp
qed

end
