(* ===== verification/Sh_Print.thy ===== *)
theory Sh_Print
  imports Sh_Parse
begin

text \<open>
  Commands as trees, their text in the shell's syntax, and the proof that the parser reads the text of a command back as
  that command.
\<close>

section \<open>Commands and their text\<close>

datatype ast =
    Words "u8 list list"
  | Redirect ast "u8 list" nat nat
  | Pipeline ast ast
  | Sequence ast ast
  | Background ast

definition piece :: "u8 list \<Rightarrow> nat \<times> nat \<Rightarrow> u8 list" where
  "piece b w = take (snd w - fst w) (drop (fst w) b)"

text \<open>What a node of the parser stands for, in the line \<open>b\<close>.\<close>

fun meaning :: "u8 list \<Rightarrow> cmd \<Rightarrow> ast" where
  "meaning b (EXEC argv) = Words (map (piece b) argv)"
| "meaning b (REDIR c q eq mode fd) = Redirect (meaning b c) (piece b (q, eq)) mode fd"
| "meaning b (PIPE l r) = Pipeline (meaning b l) (meaning b r)"
| "meaning b (LIST l r) = Sequence (meaning b l) (meaning b r)"
| "meaning b (BACK c) = Background (meaning b c)"

definition words_text :: "u8 list list \<Rightarrow> u8 list" where
  "words_text ws = concat (map (\<lambda>w. w @ [32]) ws)"

definition redirs_text :: "(u8 list \<times> nat \<times> nat) list \<Rightarrow> u8 list" where
  "redirs_text rs = concat (map (\<lambda>(f, m, fd). (if m = SH_RDONLY then 60 else 62) # f @ [32]) rs)"

definition paren :: "bool \<Rightarrow> u8 list \<Rightarrow> u8 list" where
  "paren c xs = (if c then 40 # xs @ [41] else xs)"

text \<open>The text of a command where the grammar expects a line (0), the left of a semicolon (1), a pipeline (2) or a part
  of one (3).\<close>

fun text_at :: "nat \<Rightarrow> ast \<Rightarrow> u8 list" where
  "text_at l (Words ws) = words_text ws"
| "text_at l (Redirect a f m fd) = text_at 3 a @ redirs_text [(f, m, fd)]"
| "text_at l (Pipeline a c) = paren (2 < l) (text_at 3 a @ 124 # text_at 2 c)"
| "text_at l (Background a) = paren (1 < l) (text_at 1 a @ [38])"
| "text_at l (Sequence a c) = paren (0 < l) (text_at 1 a @ 59 # text_at 0 c)"

definition plain :: "u8 list \<Rightarrow> bool" where
  "plain w \<longleftrightarrow> w \<noteq> [] \<and> 0 \<notin> set w \<and> (\<forall>x \<in> set w. \<not> separator x)"

definition redir_ok :: "u8 list \<times> nat \<times> nat \<Rightarrow> bool" where
  "redir_ok r \<longleftrightarrow> plain (fst r) \<and> (snd r = (SH_RDONLY, 0) \<or> snd r = (SH_WRCREATE, 1))"

fun writable_ast :: "ast \<Rightarrow> bool" where
  "writable_ast (Words ws) \<longleftrightarrow> list_all plain ws \<and> length ws < MAXARGS"
| "writable_ast (Redirect a f m fd) \<longleftrightarrow> writable_ast a \<and> redir_ok (f, m, fd)"
| "writable_ast (Pipeline a c) \<longleftrightarrow> writable_ast a \<and> writable_ast c"
| "writable_ast (Sequence a c) \<longleftrightarrow> writable_ast a \<and> writable_ast c"
| "writable_ast (Background a) \<longleftrightarrow> writable_ast a"

section \<open>Scanning text at a position\<close>

definition firm :: "u8 list \<Rightarrow> bool" where
  "firm xs \<longleftrightarrow> xs = [] \<or> hd xs \<notin> set whitespace \<and> hd xs \<noteq> 0"

lemma firm_simps [simp]: "firm []" "firm (x # xs) \<longleftrightarrow> x \<notin> set whitespace \<and> x \<noteq> 0"
  by (simp_all add: firm_def)

lemma firm_append: "firm xs \<Longrightarrow> firm ys \<Longrightarrow> firm (xs @ ys)"
  by (cases xs) simp_all

lemma symbols_firm: "x \<in> set symbols \<Longrightarrow> x \<notin> set whitespace \<and> x \<noteq> 0"
  by (auto simp: symbols_def whitespace_def)

lemma view_at [simp]: "view (pre @ xs) (length pre) = (if xs = [] then 0 else hd xs)"
  by (cases xs) (simp_all add: view_def nth_append)

lemma skip_ws_stay [simp]: "firm xs \<Longrightarrow> skip_ws (pre @ xs) (length pre) = length pre"
  by (subst skip_ws.simps) (cases xs, auto simp: nth_append)

lemma skip_ws_end [simp]: "skip_ws b (length b) = length b"
  by (subst skip_ws.simps) simp

lemma skip_ws_one: "firm xs \<Longrightarrow> skip_ws (pre @ 32 # xs) (length pre) = Suc (length pre)"
  using skip_ws_stay[of xs "pre @ [32]"] by (subst skip_ws.simps) (simp add: nth_append whitespace_def)

lemma skip_word_app:
  "list_all (\<lambda>x. \<not> separator x) w \<Longrightarrow> xs = [] \<or> separator (hd xs) \<Longrightarrow>
   skip_word (pre @ w @ xs) (length pre) = length pre + length w"
proof (induction w arbitrary: pre)
  case Nil
  then show ?case by (subst skip_word.simps) (cases xs, auto simp: nth_append)
next
  case (Cons x w)
  have "skip_word ((pre @ [x]) @ w @ xs) (length (pre @ [x])) = length (pre @ [x]) + length w"
    using Cons.prems by (intro Cons.IH) simp_all
  then have "skip_word (pre @ x # w @ xs) (Suc (length pre)) = Suc (length pre + length w)" by simp
  then show ?case using Cons.prems(1) by (subst skip_word.simps) (simp add: nth_append)
qed

lemma peek_at: "firm xs \<Longrightarrow> peek (pre @ xs) (length pre) toks \<longleftrightarrow> xs \<noteq> [] \<and> hd xs \<in> set toks"
  by (cases xs) (auto simp: peek_def)

lemma plain_hd: "plain w \<Longrightarrow> w \<noteq> [] \<and> hd w \<noteq> 0 \<and> \<not> separator (hd w)"
  by (cases w) (auto simp: plain_def)

lemma plain_firm: "plain w \<Longrightarrow> firm (w @ xs)"
  using plain_hd[of w] by (cases w) auto

lemma gettoken_plain:
  assumes "plain w" and "firm xs"
  shows "gettoken (pre @ w @ 32 # xs) (length pre) = (97, length pre, length pre + length w, Suc (length pre + length w))"
proof -
  have "skip_word (pre @ w @ 32 # xs) (length pre) = length pre + length w"
    using assms(1) by (intro skip_word_app) (auto simp: plain_def list_all_iff whitespace_def)
  moreover have "skip_ws (pre @ w @ 32 # xs) (length pre + length w) = Suc (length pre + length w)"
    using skip_ws_one[OF assms(2), of "pre @ w"] by simp
  ultimately show ?thesis using plain_hd[OF assms(1)] plain_firm[OF assms(1), of "32 # xs"]
    by (auto simp: gettoken_def Let_def symbols_def)
qed

lemma gettoken_symbol:
  assumes "c \<in> {124, 40, 41, 59, 38, 60}" and "firm xs"
  shows "gettoken (pre @ c # xs) (length pre) = (c, length pre, Suc (length pre), Suc (length pre))"
proof -
  have "firm (c # xs)" using assms(1) by (auto simp: whitespace_def)
  moreover have "skip_ws (pre @ c # xs) (Suc (length pre)) = Suc (length pre)"
    using skip_ws_stay[OF assms(2), of "pre @ [c]"] by simp
  ultimately show ?thesis using assms(1) by (auto simp: gettoken_def Let_def)
qed

lemma gettoken_gt:
  assumes "firm xs" and "xs \<noteq> []" and "hd xs \<noteq> 62"
  shows "gettoken (pre @ 62 # xs) (length pre) = (62, length pre, Suc (length pre), Suc (length pre))"
proof -
  have "view ((pre @ [62]) @ xs) (length (pre @ [62])) = hd xs" using assms(2) by (simp only: view_at if_False)
  then have "view (pre @ 62 # xs) (Suc (length pre)) = hd xs" by simp
  moreover have "skip_ws (pre @ 62 # xs) (Suc (length pre)) = Suc (length pre)"
    using skip_ws_stay[OF assms(1), of "pre @ [62]"] by simp
  moreover have "firm (62 # xs)" by (simp add: whitespace_def)
  ultimately show ?thesis using assms(3) by (simp add: gettoken_def Let_def)
qed

lemma token_end_symbol: "c \<in> {124, 40, 41, 59, 38, 60} \<Longrightarrow> firm xs \<Longrightarrow> token_end (pre @ c # xs) (length pre) = Suc (length pre)"
  by (simp add: token_end_def gettoken_symbol)

lemma piece_word: "piece (pre @ w @ xs) (length pre, length pre + length w) = w"
  by (simp add: piece_def)

section \<open>Redirections and words\<close>

lemma words_text_simps [simp]: "words_text [] = []" "words_text (w # ws) = w @ 32 # words_text ws"
  by (simp_all add: words_text_def)

lemma redirs_text_simps [simp]:
  "redirs_text [] = []" "redirs_text ((f, m, fd) # rs) = (if m = SH_RDONLY then 60 else 62) # f @ 32 # redirs_text rs"
  by (simp_all add: redirs_text_def)

lemma words_firm: "list_all plain ws \<Longrightarrow> firm xs \<Longrightarrow> firm (words_text ws @ xs)"
  by (cases ws) (auto intro: plain_firm)

lemma redirs_firm: "firm xs \<Longrightarrow> firm (redirs_text rs @ xs)"
  by (cases rs) (auto simp: whitespace_def)

definition redir_parts :: "u8 list \<Rightarrow> nat \<times> nat \<times> nat \<times> nat \<Rightarrow> u8 list \<times> nat \<times> nat" where
  "redir_parts b r = (piece b (fst r, fst (snd r)), snd (snd r))"

lemma parseredirs_text:
  assumes "list_all redir_ok rs" and "firm post" and "post = [] \<or> hd post \<notin> {60, 62}"
  shows "\<exists>qs. parseredirs (pre @ redirs_text rs @ post) (length pre) = Inr (qs, length (pre @ redirs_text rs)) \<and>
     map (redir_parts (pre @ redirs_text rs @ post)) qs = rs"
  using assms(1)
proof (induction rs arbitrary: pre)
  case Nil
  have "\<not> peek (pre @ post) (length pre) [60, 62]" using assms(2,3) by (auto simp: peek_at)
  then show ?case using assms(2) by (subst parseredirs.simps) simp
next
  case (Cons r rs)
  obtain f m fd where r: "r = (f, m, fd)" by (cases r)
  then have f: "plain f" and md: "(m, fd) = (if m = SH_RDONLY then (SH_RDONLY, 0) else (SH_WRCREATE, 1))"
    using Cons.prems by (auto simp: redir_ok_def SH_RDONLY_def SH_WRCREATE_def)
  let ?c = "if m = SH_RDONLY then 60 else 62 :: u8"
  let ?rest = "redirs_text rs @ post"
  let ?b = "pre @ ?c # f @ 32 # ?rest"
  let ?p = "pre @ ?c # f @ [32]"
  have frest: "firm ?rest" using assms(2) by (rule redirs_firm)
  have fw: "firm (f @ 32 # ?rest)" using f by (rule plain_firm)
  have hd: "f @ 32 # ?rest \<noteq> []" "hd (f @ 32 # ?rest) \<noteq> 62" using plain_hd[OF f] by (auto simp: symbols_def)
  have g1: "gettoken ?b (length pre) = (?c, length pre, Suc (length pre), Suc (length pre))"
    using gettoken_symbol[of 60 "f @ 32 # ?rest" pre] gettoken_gt[OF fw hd, of pre] fw by simp
  have g2: "gettoken ?b (Suc (length pre)) = (97, Suc (length pre), Suc (length pre) + length f, length ?p)"
    using gettoken_plain[OF f frest, of "pre @ [?c]"] by simp
  have pk: "peek ?b (length pre) [60, 62]" using peek_at[of "?c # f @ 32 # ?rest" pre] by (simp add: whitespace_def)
  obtain qs where qs: "parseredirs (?p @ ?rest) (length ?p) = Inr (qs, length (?p @ redirs_text rs))"
      "map (redir_parts (?p @ ?rest)) qs = rs"
    using Cons.IH[of ?p] Cons.prems by auto
  have "piece ?b (Suc (length pre), Suc (length pre) + length f) = f" using piece_word[of "pre @ [?c]" f] by simp
  then show ?case using g1 g2 pk qs md r
    by (subst parseredirs.simps) (auto simp: redir_parts_def)
qed

definition follow :: "u8 list \<Rightarrow> u8 list \<Rightarrow> bool" where
  "follow cs post \<longleftrightarrow> post = [] \<or> hd post \<in> set cs"

lemma follow_firm: "follow [124, 41, 38, 59] post \<Longrightarrow> firm post"
  by (cases post) (auto simp: follow_def whitespace_def)

lemma parseargs_end:
  assumes "follow [124, 41, 38, 59] post"
  shows "parseargs (pre @ post) (length pre) argv rs = Inr (redircmds (EXEC argv) rs, length pre)"
proof (cases "post = []")
  case True
  have "gettoken pre (length pre) = (0, length pre, length pre, length pre)"
    using skip_ws_stay[of "[]" pre] by (simp add: gettoken_def Let_def)
  moreover have "\<not> peek pre (length pre) toks" for toks using peek_at[of "[]" pre] by simp
  ultimately show ?thesis using True by (subst parseargs.simps) simp
next
  case False
  then show ?thesis using assms follow_firm[OF assms] by (subst parseargs.simps) (simp add: peek_at follow_def)
qed

lemma parseargs_text:
  assumes "list_all plain ws" and "length argv + length ws < MAXARGS" and "list_all redir_ok rs" and "ws = [] \<Longrightarrow> rs = []"
    and "follow [124, 41, 38, 59] post"
  shows "\<exists>ps qs. parseargs (pre @ words_text ws @ redirs_text rs @ post) (length pre) argv rs0 =
       Inr (redircmds (EXEC (argv @ ps)) (rs0 @ qs), length (pre @ words_text ws @ redirs_text rs)) \<and>
     map (piece (pre @ words_text ws @ redirs_text rs @ post)) ps = ws \<and>
     map (redir_parts (pre @ words_text ws @ redirs_text rs @ post)) qs = rs"
  using assms(1,2,4)
proof (induction ws arbitrary: pre argv rs0)
  case Nil
  then show ?case using parseargs_end[OF assms(5), of pre argv rs0] by simp
next
  case (Cons w ws)
  let ?rest = "words_text ws @ redirs_text rs @ post"
  let ?b = "pre @ w @ 32 # ?rest"
  let ?p = "pre @ w @ [32]"
  have w: "plain w" "list_all plain ws" using Cons.prems by simp_all
  have fp: "firm post" using follow_firm assms(5) .
  then have frest: "firm ?rest" using w(2) by (intro words_firm redirs_firm)
  have g: "gettoken ?b (length pre) = (97, length pre, length pre + length w, length ?p)"
    using gettoken_plain[OF w(1) frest] by simp
  have np: "\<not> peek ?b (length pre) [124, 41, 38, 59]"
    using peek_at[OF plain_firm[OF w(1)], of pre "32 # ?rest"] plain_hd[OF w(1)] by (auto simp: symbols_def)
  have pw: "piece ?b (length pre, length pre + length w) = w" by (rule piece_word)
  have step: "parseargs ?b (length pre) argv rs0 = parseargs ?b ps2 (argv @ [(length pre, length pre + length w)]) (rs0 @ rs')"
    if "parseredirs ?b (length ?p) = Inr (rs', ps2)" for rs' ps2
    using g np that Cons.prems(2) by (subst parseargs.simps) simp
  show ?case
  proof (cases "ws = []")
    case True
    have h: "post = [] \<or> hd post \<notin> {60, 62}" using assms(5) by (auto simp: follow_def)
    obtain qs where qs: "parseredirs (?p @ redirs_text rs @ post) (length ?p) = Inr (qs, length (?p @ redirs_text rs))"
        "map (redir_parts (?p @ redirs_text rs @ post)) qs = rs"
      using parseredirs_text[OF assms(3) fp h, of ?p] by blast
    have "parseargs ?b (length pre) argv rs0 =
        Inr (redircmds (EXEC (argv @ [(length pre, length pre + length w)])) (rs0 @ qs), length (?p @ redirs_text rs))"
      using step[of qs] qs(1) True parseargs_end[OF assms(5), of "?p @ redirs_text rs"] by simp
    then show ?thesis using qs(2) pw True by (intro exI[of _ "[(length pre, length pre + length w)]"] exI[of _ qs]) simp
  next
    case False
    then obtain v vs where v: "ws = v # vs" "plain v" using w(2) by (cases ws) auto
    then have "hd ?rest \<notin> {60, 62}" using plain_hd[OF v(2)] by (auto simp: symbols_def)
    then have "parseredirs ?b (length ?p) = Inr ([], length ?p)"
      using parseredirs_text[of "[]" ?rest ?p] frest by simp
    note step[OF this]
    moreover obtain ps qs where
      "parseargs (?p @ ?rest) (length ?p) (argv @ [(length pre, length pre + length w)]) (rs0 @ []) =
         Inr (redircmds (EXEC ((argv @ [(length pre, length pre + length w)]) @ ps)) ((rs0 @ []) @ qs), length (?p @ words_text ws @ redirs_text rs))"
      "map (piece (?p @ ?rest)) ps = ws" "map (redir_parts (?p @ ?rest)) qs = rs"
      using Cons.IH[of "argv @ [(length pre, length pre + length w)]" ?p "rs0 @ []"] w(2) Cons.prems(2) False by auto
    ultimately show ?thesis using pw by (intro exI[of _ "(length pre, length pre + length w) # ps"] exI[of _ qs]) simp
  qed
qed

section \<open>Parsing text\<close>

lemma parse_mono:
  "(parseline n b ps = Some r \<longrightarrow> parseline (Suc n) b ps = Some r) \<and>
   (parsepipe n b ps = Some r \<longrightarrow> parsepipe (Suc n) b ps = Some r) \<and>
   (parseexec n b ps = Some r \<longrightarrow> parseexec (Suc n) b ps = Some r) \<and>
   (parseblock n b ps = Some r \<longrightarrow> parseblock (Suc n) b ps = Some r)"
proof (induction n arbitrary: ps r)
  case (Suc n)
  then have ih: "parseline n b q = Some x \<Longrightarrow> parseline (Suc n) b q = Some x"
    "parsepipe n b q = Some x \<Longrightarrow> parsepipe (Suc n) b q = Some x"
    "parseexec n b q = Some x \<Longrightarrow> parseexec (Suc n) b q = Some x"
    "parseblock n b q = Some x \<Longrightarrow> parseblock (Suc n) b q = Some x" for q x
    by blast+
  have "parseline (Suc (Suc n)) b ps = Some r" if a: "parseline (Suc n) b ps = Some r"
    using a[unfolded parseline.simps(2)] ih
    by (subst parseline.simps(2)) (auto split: option.splits sum.splits prod.splits if_splits)
  moreover have "parsepipe (Suc (Suc n)) b ps = Some r" if a: "parsepipe (Suc n) b ps = Some r"
    using a[unfolded parsepipe.simps(2)] ih
    by (subst parsepipe.simps(2)) (auto split: option.splits sum.splits if_splits)
  moreover have "parseexec (Suc (Suc n)) b ps = Some r" if a: "parseexec (Suc n) b ps = Some r"
    using a[unfolded parseexec.simps(2)] ih by (subst parseexec.simps(2)) (auto split: if_splits)
  moreover have "parseblock (Suc (Suc n)) b ps = Some r" if a: "parseblock (Suc n) b ps = Some r"
    using a[unfolded parseblock.simps(2)] ih
    by (subst parseblock.simps(2)) (auto split: option.splits sum.splits if_splits)
  ultimately show ?case by blast
qed simp

lemma parse_more:
  "parseline n b ps = Some r \<Longrightarrow> parseline (n + k) b ps = Some r"
  "parsepipe n b ps = Some r \<Longrightarrow> parsepipe (n + k) b ps = Some r"
  "parseexec n b ps = Some r \<Longrightarrow> parseexec (n + k) b ps = Some r"
  by (induction k) (simp_all add: parse_mono)

lemma meaning_redircmds: "meaning b (redircmds c rs) = foldl (\<lambda>a (f, m, fd). Redirect a f m fd) (meaning b c) (map (redir_parts b) rs)"
  by (induction rs arbitrary: c) (auto simp: redircmds_def redir_parts_def)

abbreviation wrap :: "ast \<Rightarrow> (u8 list \<times> nat \<times> nat) list \<Rightarrow> ast" where
  "wrap \<equiv> foldl (\<lambda>a (f, m, fd). Redirect a f m fd)"

text \<open>The parser reads the text of a tree: as part of a pipeline with further redirections, as a pipeline, as the left of a
  semicolon (where the background marks are still being collected), as a line.\<close>

definition reads3 :: "ast \<Rightarrow> bool" where
  "reads3 t \<longleftrightarrow> (\<forall>pre rs post b. b = pre @ text_at 3 t @ redirs_text rs @ post \<longrightarrow> list_all redir_ok rs \<longrightarrow> follow [124, 41, 38, 59] post \<longrightarrow>
     (\<exists>n c. parseexec n b (length pre) = Some (Inr (c, length (pre @ text_at 3 t @ redirs_text rs))) \<and> meaning b c = wrap t rs))"

definition reads2 :: "ast \<Rightarrow> bool" where
  "reads2 t \<longleftrightarrow> (\<forall>pre post b. b = pre @ text_at 2 t @ post \<longrightarrow> follow [41, 38, 59] post \<longrightarrow>
     (\<exists>n c. parsepipe n b (length pre) = Some (Inr (c, length (pre @ text_at 2 t))) \<and> meaning b c = t))"

definition reads1 :: "ast \<Rightarrow> bool" where
  "reads1 t \<longleftrightarrow> (\<forall>pre post b. b = pre @ text_at 1 t @ post \<longrightarrow> follow [41, 38, 59] post \<longrightarrow>
     (\<exists>n c1 ps1 c. parsepipe n b (length pre) = Some (Inr (c1, ps1)) \<and>
        parsebacks b c1 ps1 = parsebacks b c (length (pre @ text_at 1 t)) \<and> meaning b c = t))"

definition reads0 :: "ast \<Rightarrow> bool" where
  "reads0 t \<longleftrightarrow> (\<forall>pre post b. b = pre @ text_at 0 t @ post \<longrightarrow> follow [41] post \<longrightarrow>
     (\<exists>n c. parseline n b (length pre) = Some (Inr (c, length (pre @ text_at 0 t))) \<and> meaning b c = t))"

lemma reads3D:
  assumes "reads3 t" and "b = pre @ text_at 3 t @ redirs_text rs @ post" and "list_all redir_ok rs" and "follow [124, 41, 38, 59] post"
  obtains n c where "parseexec n b (length pre) = Some (Inr (c, length (pre @ text_at 3 t @ redirs_text rs)))" "meaning b c = wrap t rs"
  using assms(1)[unfolded reads3_def, rule_format, OF assms(2-4)] by blast

lemma reads2D:
  assumes "reads2 t" and "b = pre @ text_at 2 t @ post" and "follow [41, 38, 59] post"
  obtains n c where "parsepipe n b (length pre) = Some (Inr (c, length (pre @ text_at 2 t)))" "meaning b c = t"
  using assms(1)[unfolded reads2_def, rule_format, OF assms(2,3)] by blast

lemma reads1D:
  assumes "reads1 t" and "b = pre @ text_at 1 t @ post" and "follow [41, 38, 59] post"
  obtains n c1 ps1 c where "parsepipe n b (length pre) = Some (Inr (c1, ps1))"
    "parsebacks b c1 ps1 = parsebacks b c (length (pre @ text_at 1 t))" "meaning b c = t"
  using assms(1)[unfolded reads1_def, rule_format, OF assms(2,3)] by blast

lemma reads0D:
  assumes "reads0 t" and "b = pre @ text_at 0 t @ post" and "follow [41] post"
  obtains n c where "parseline n b (length pre) = Some (Inr (c, length (pre @ text_at 0 t)))" "meaning b c = t"
  using assms(1)[unfolded reads0_def, rule_format, OF assms(2,3)] by blast

lemma follow_mono: "follow cs post \<Longrightarrow> set cs \<subseteq> set ds \<Longrightarrow> follow ds post"
  by (auto simp: follow_def)

lemma follow_peek: "follow [124, 41, 38, 59] post \<Longrightarrow> peek (pre @ post) (length pre) toks \<longleftrightarrow> post \<noteq> [] \<and> hd post \<in> set toks"
  using peek_at[OF follow_firm] by blast

lemma follow_skip: "follow [124, 41, 38, 59] post \<Longrightarrow> skip_ws (pre @ post) (length pre) = length pre"
  using follow_firm by (rule skip_ws_stay)

lemma reads3_2:
  assumes "reads3 t" and "text_at 2 t = text_at 3 t"
  shows "reads2 t"
  unfolding reads2_def
proof (intro allI impI)
  fix pre post b :: "u8 list"
  assume b: "b = pre @ text_at 2 t @ post" and f: "follow [41, 38, 59] post"
  have f3: "follow [124, 41, 38, 59] post" using f by (rule follow_mono) auto
  have "b = pre @ text_at 3 t @ redirs_text [] @ post" using b assms(2) by simp
  from reads3D[OF assms(1) this _ f3] obtain n c where
    p: "parseexec n b (length pre) = Some (Inr (c, length (pre @ text_at 3 t)))" "meaning b c = t" by auto
  have "\<not> peek b (length (pre @ text_at 2 t)) [124]"
    using follow_peek[OF f3, of "pre @ text_at 2 t" "[124]"] f b by (auto simp: follow_def)
  moreover have "skip_ws b (length (pre @ text_at 2 t)) = length (pre @ text_at 2 t)"
    using follow_skip[OF f3, of "pre @ text_at 2 t"] b by simp
  ultimately have "parsepipe (Suc n) b (length pre) = Some (Inr (c, length (pre @ text_at 2 t)))"
    using p assms(2) by (simp add: parsepipe.simps)
  then show "\<exists>n c. parsepipe n b (length pre) = Some (Inr (c, length (pre @ text_at 2 t))) \<and> meaning b c = t" using p(2) by blast
qed

lemma reads2_1: "reads2 t \<Longrightarrow> text_at 1 t = text_at 2 t \<Longrightarrow> reads1 t"
  unfolding reads1_def by (metis reads2D)

lemma reads1_0:
  assumes "reads1 t" and "text_at 0 t = text_at 1 t"
  shows "reads0 t"
  unfolding reads0_def assms(2)
proof (intro allI impI)
  fix pre post b :: "u8 list"
  assume b: "b = pre @ text_at 1 t @ post" and f: "follow [41] post"
  let ?e = "length (pre @ text_at 1 t)"
  have f2: "follow [41, 38, 59] post" and f3: "follow [124, 41, 38, 59] post" using f by (auto intro: follow_mono)
  from reads1D[OF assms(1) b f2] obtain n c1 ps1 c where p: "parsepipe n b (length pre) = Some (Inr (c1, ps1))"
      "parsebacks b c1 ps1 = parsebacks b c ?e" "meaning b c = t" .
  have np: "\<not> peek b ?e [38]" "\<not> peek b ?e [59]"
    using follow_peek[OF f3, of "pre @ text_at 1 t"] f b by (auto simp: follow_def)
  have sk: "skip_ws b ?e = ?e" using follow_skip[OF f3, of "pre @ text_at 1 t"] b by simp
  have "parsebacks b c ?e = (c, ?e)" using np sk by (subst parsebacks.simps) simp
  then have "parseline (Suc n) b (length pre) = Some (Inr (c, ?e))" using p np sk by (simp add: parseline.simps)
  then show "\<exists>n c. parseline n b (length pre) = Some (Inr (c, ?e)) \<and> meaning b c = t" using p(3) by blast
qed

lemma reads0_3:
  assumes "reads0 t" and "text_at 3 t = 40 # text_at 0 t @ [41]" and "firm (text_at 0 t @ [41])"
  shows "reads3 t"
  unfolding reads3_def
proof (intro allI impI)
  fix pre post b :: "u8 list" and rs
  assume b: "b = pre @ text_at 3 t @ redirs_text rs @ post" and r: "list_all redir_ok rs" and f: "follow [124, 41, 38, 59] post"
  let ?pre = "pre @ [40]" and ?post = "41 # redirs_text rs @ post"
  let ?mid = "?pre @ text_at 0 t"
  let ?close = "?mid @ [41]"
  have b0: "b = ?pre @ text_at 0 t @ ?post" using b assms(2) by simp
  have fr: "firm (redirs_text rs @ post)" using follow_firm[OF f] by (rule redirs_firm)
  have "follow [41] ?post" by (simp add: follow_def)
  from reads0D[OF assms(1) b0 this] obtain n c where p: "parseline n b (length ?pre) = Some (Inr (c, length ?mid))" "meaning b c = t"
    by auto
  have f0: "firm (text_at 0 t @ ?post)" using assms(3) by (cases "text_at 0 t") simp_all
  have o: "peek b (length pre) [40]" "token_end b (length pre) = length ?pre"
    using peek_at[of "40 # text_at 0 t @ ?post" pre "[40]"] token_end_symbol[of 40 "text_at 0 t @ ?post" pre] f0 b0
    by (simp_all add: whitespace_def)
  have e: "peek b (length ?mid) [41]" "token_end b (length ?mid) = length ?close"
    using peek_at[of ?post ?mid "[41]"] token_end_symbol[of 41 "redirs_text rs @ post" ?mid] fr b0
    by (simp_all add: whitespace_def)
  have "post = [] \<or> hd post \<notin> {60, 62}" using f by (auto simp: follow_def)
  from parseredirs_text[OF r follow_firm[OF f] this, of ?close] b0 obtain qs where
    q: "parseredirs b (length ?close) = Inr (qs, length (?close @ redirs_text rs))" "map (redir_parts b) qs = rs" by auto
  have "parseblock (Suc n) b (length pre) = Some (Inr (redircmds c qs, length (?close @ redirs_text rs)))"
    using p(1) o e q(1) by (simp add: parseblock.simps)
  then have "parseexec (Suc (Suc n)) b (length pre) = Some (Inr (redircmds c qs, length (pre @ text_at 3 t @ redirs_text rs)))"
    using o(1) assms(2) by (simp add: parseexec.simps)
  then show "\<exists>n c. parseexec n b (length pre) = Some (Inr (c, length (pre @ text_at 3 t @ redirs_text rs))) \<and> meaning b c = wrap t rs"
    using p(2) q(2) meaning_redircmds[of b c qs] by auto
qed

lemma text_firm: "writable_ast t \<Longrightarrow> firm xs \<Longrightarrow> firm (text_at l t @ xs)"
proof (induction t arbitrary: l xs)
  case (Redirect a f m fd)
  then show ?case using redirs_firm[of xs "[(f, m, fd)]"] by simp
qed (auto simp: paren_def whitespace_def intro: words_firm)

lemma reads3_Words:
  assumes "writable_ast (Words ws)"
  shows "reads3 (Words ws)"
  unfolding reads3_def
proof (intro allI impI)
  fix pre post b :: "u8 list" and rs
  assume "b = pre @ text_at 3 (Words ws) @ redirs_text rs @ post" and r: "list_all redir_ok rs" and f: "follow [124, 41, 38, 59] post"
  then have b: "b = pre @ words_text ws @ redirs_text rs @ post" by simp
  have ws: "list_all plain ws" "length ws < MAXARGS" using assms by simp_all
  have fp: "firm post" and hp: "post = [] \<or> hd post \<notin> {60, 62}" and h40: "post = [] \<or> hd post \<noteq> 40"
    using f follow_firm by (auto simp: follow_def)
  have fb: "firm (words_text ws @ redirs_text rs @ post)" using ws fp by (intro words_firm redirs_firm)
  have "\<not> peek b (length pre) [40]"
  proof (cases ws)
    case Nil
    then show ?thesis using peek_at[OF fb, of pre "[40]"] h40 b by (cases rs) (auto split: if_splits)
  next
    case (Cons w vs)
    then show ?thesis using peek_at[OF fb, of pre "[40]"] plain_hd[of w] ws b by (auto simp: symbols_def)
  qed
  then have pe: "parseexec (Suc 0) b (length pre) =
      (case parseredirs b (length pre) of Inl m \<Rightarrow> Some (Inl m) | Inr (rs, ps1) \<Rightarrow> Some (parseargs b ps1 [] rs))"
    by (simp add: parseexec.simps(2))
  have "\<exists>ps qs. parseexec (Suc 0) b (length pre) = Some (Inr (redircmds (EXEC ps) qs, length (pre @ words_text ws @ redirs_text rs))) \<and>
      map (piece b) ps = ws \<and> map (redir_parts b) qs = rs"
  proof (cases "ws = []")
    case True
    from parseredirs_text[OF r fp hp, of pre] b True obtain qs where
      "parseredirs b (length pre) = Inr (qs, length (pre @ redirs_text rs))" "map (redir_parts b) qs = rs" by auto
    moreover have "parseargs b (length (pre @ redirs_text rs)) [] qs = Inr (redircmds (EXEC []) qs, length (pre @ redirs_text rs))"
      using parseargs_end[OF f, of "pre @ redirs_text rs"] b True by simp
    ultimately show ?thesis using pe True by (intro exI[of _ "[]"] exI[of _ qs]) simp
  next
    case False
    then have "hd (words_text ws @ redirs_text rs @ post) \<notin> {60, 62}"
      using ws plain_hd[of "hd ws"] by (cases ws) (auto simp: symbols_def)
    then have "parseredirs b (length pre) = Inr ([], length pre)"
      using parseredirs_text[of "[]" "words_text ws @ redirs_text rs @ post" pre] fb b by simp
    then show ?thesis using parseargs_text[OF ws(1) _ r _ f, of "[]" pre "[]"] ws(2) pe b False by auto
  qed
  then show "\<exists>n c. parseexec n b (length pre) = Some (Inr (c, length (pre @ text_at 3 (Words ws) @ redirs_text rs))) \<and>
      meaning b c = wrap (Words ws) rs"
    by (metis meaning_redircmds meaning.simps(1) text_at.simps(1))
qed

lemma reads3_Redirect:
  assumes "reads3 a" and "redir_ok (f, m, fd)"
  shows "reads3 (Redirect a f m fd)"
  unfolding reads3_def
proof (intro allI impI)
  fix pre post b :: "u8 list" and rs
  assume b: "b = pre @ text_at 3 (Redirect a f m fd) @ redirs_text rs @ post" and r: "list_all redir_ok rs"
    and fo: "follow [124, 41, 38, 59] post"
  have b': "b = pre @ text_at 3 a @ redirs_text ((f, m, fd) # rs) @ post" using b by simp
  have r': "list_all redir_ok ((f, m, fd) # rs)" using r assms(2) by simp
  from reads3D[OF assms(1) b' r' fo] obtain n c where
    "parseexec n b (length pre) = Some (Inr (c, length (pre @ text_at 3 a @ redirs_text ((f, m, fd) # rs))))"
    "meaning b c = wrap a ((f, m, fd) # rs)" .
  then show "\<exists>n c. parseexec n b (length pre) = Some (Inr (c, length (pre @ text_at 3 (Redirect a f m fd) @ redirs_text rs))) \<and>
      meaning b c = wrap (Redirect a f m fd) rs" by auto
qed

lemma reads2_Pipeline:
  assumes "reads3 a" and "reads2 c" and "writable_ast c"
  shows "reads2 (Pipeline a c)"
  unfolding reads2_def
proof (intro allI impI)
  fix pre post b :: "u8 list"
  assume "b = pre @ text_at 2 (Pipeline a c) @ post" and f: "follow [41, 38, 59] post"
  then have b: "b = pre @ text_at 3 a @ 124 # text_at 2 c @ post" by (simp add: paren_def)
  let ?mid = "pre @ text_at 3 a" and ?rest = "text_at 2 c @ post"
  have b3: "b = pre @ text_at 3 a @ redirs_text [] @ 124 # ?rest" using b by simp
  have b2: "b = (?mid @ [124]) @ text_at 2 c @ post" using b by simp
  have fr: "firm ?rest" using f assms(3) by (intro text_firm follow_firm follow_mono[OF f]) auto
  have "follow [124, 41, 38, 59] (124 # ?rest)" by (simp add: follow_def)
  from reads3D[OF assms(1) b3 _ this] obtain n1 c1 where
    p1: "parseexec n1 b (length pre) = Some (Inr (c1, length ?mid))" "meaning b c1 = a" by auto
  from reads2D[OF assms(2) b2 f] obtain n2 c2 where
    p2: "parsepipe n2 b (Suc (length ?mid)) = Some (Inr (c2, length (pre @ text_at 2 (Pipeline a c))))" "meaning b c2 = c"
    by (auto simp: paren_def)
  have e: "peek b (length ?mid) [124]" "token_end b (length ?mid) = Suc (length ?mid)"
    using peek_at[of "124 # ?rest" ?mid "[124]"] token_end_symbol[of 124 ?rest ?mid] fr b by (simp_all add: whitespace_def)
  have "parsepipe (Suc (n1 + n2)) b (length pre) = Some (Inr (PIPE c1 c2, length (pre @ text_at 2 (Pipeline a c))))"
    using parse_more(3)[OF p1(1), of n2] parse_more(2)[OF p2(1), of n1] e
    by (subst parsepipe.simps(2)) (simp add: add.commute)
  then show "\<exists>n d. parsepipe n b (length pre) = Some (Inr (d, length (pre @ text_at 2 (Pipeline a c)))) \<and> meaning b d = Pipeline a c"
    using p1(2) p2(2) meaning.simps(3) by metis
qed

lemma reads1_Background:
  assumes "reads1 a"
  shows "reads1 (Background a)"
  unfolding reads1_def
proof (intro allI impI)
  fix pre post b :: "u8 list"
  assume "b = pre @ text_at 1 (Background a) @ post" and f: "follow [41, 38, 59] post"
  then have b: "b = pre @ text_at 1 a @ 38 # post" by (simp add: paren_def)
  let ?mid = "pre @ text_at 1 a"
  have fp: "firm post" by (intro follow_firm follow_mono[OF f]) auto
  have "follow [41, 38, 59] (38 # post)" by (simp add: follow_def)
  from reads1D[OF assms b this] obtain n c1 ps1 c where p: "parsepipe n b (length pre) = Some (Inr (c1, ps1))"
      "parsebacks b c1 ps1 = parsebacks b c (length ?mid)" "meaning b c = a" .
  have e: "peek b (length ?mid) [38]" "token_end b (length ?mid) = Suc (length ?mid)"
    using peek_at[of "38 # post" ?mid "[38]"] token_end_symbol[of 38 post ?mid] fp b by (simp_all add: whitespace_def)
  have "parsebacks b c (length ?mid) = parsebacks b (BACK c) (Suc (length ?mid))" using e by (subst parsebacks.simps) simp
  then have "parsebacks b c1 ps1 = parsebacks b (BACK c) (length (pre @ text_at 1 (Background a)))" using p(2) by (simp add: paren_def)
  moreover have "meaning b (BACK c) = Background a" using p(3) by simp
  ultimately show "\<exists>n c1 ps1 c. parsepipe n b (length pre) = Some (Inr (c1, ps1)) \<and>
      parsebacks b c1 ps1 = parsebacks b c (length (pre @ text_at 1 (Background a))) \<and> meaning b c = Background a"
    using p(1) by blast
qed

lemma reads0_Sequence:
  assumes "reads1 a" and "reads0 c" and "writable_ast c"
  shows "reads0 (Sequence a c)"
  unfolding reads0_def
proof (intro allI impI)
  fix pre post b :: "u8 list"
  assume "b = pre @ text_at 0 (Sequence a c) @ post" and f: "follow [41] post"
  then have b: "b = pre @ text_at 1 a @ 59 # text_at 0 c @ post" by (simp add: paren_def)
  let ?mid = "pre @ text_at 1 a" and ?rest = "text_at 0 c @ post"
  have b0: "b = (?mid @ [59]) @ text_at 0 c @ post" using b by simp
  have fr: "firm ?rest" using f assms(3) by (intro text_firm follow_firm follow_mono[OF f]) auto
  have "follow [41, 38, 59] (59 # ?rest)" by (simp add: follow_def)
  from reads1D[OF assms(1) b this] obtain n1 d ps1 c1 where p1: "parsepipe n1 b (length pre) = Some (Inr (d, ps1))"
      "parsebacks b d ps1 = parsebacks b c1 (length ?mid)" "meaning b c1 = a" .
  from reads0D[OF assms(2) b0 f] obtain n2 c2 where
    p2: "parseline n2 b (Suc (length ?mid)) = Some (Inr (c2, length (pre @ text_at 0 (Sequence a c))))" "meaning b c2 = c"
    by (auto simp: paren_def)
  have pk: "peek b (length ?mid) ts \<longleftrightarrow> 59 \<in> set ts" for ts
    using peek_at[of "59 # ?rest" ?mid ts] b by (simp add: whitespace_def)
  have e: "token_end b (length ?mid) = Suc (length ?mid)" "skip_ws b (length ?mid) = length ?mid"
    using token_end_symbol[of 59 ?rest ?mid] skip_ws_stay[of "59 # ?rest" ?mid] fr b by (simp_all add: whitespace_def)
  have "parsebacks b c1 (length ?mid) = (c1, length ?mid)" using pk[of "[38]"] e(2) by (subst parsebacks.simps) simp
  then have "parseline (Suc (n1 + n2)) b (length pre) = Some (Inr (LIST c1 c2, length (pre @ text_at 0 (Sequence a c))))"
    using parse_more(2)[OF p1(1), of n2] parse_more(1)[OF p2(1), of n1] p1(2) pk[of "[59]"] e(1)
    by (subst parseline.simps(2)) (simp add: add.commute)
  then show "\<exists>n d. parseline n b (length pre) = Some (Inr (d, length (pre @ text_at 0 (Sequence a c)))) \<and> meaning b d = Sequence a c"
    using p1(3) p2(2) meaning.simps(4) by metis
qed

lemma reads_all: "writable_ast t \<Longrightarrow> reads3 t \<and> reads2 t \<and> reads1 t \<and> reads0 t"
proof (induction t)
  case (Words ws)
  then have "reads3 (Words ws)" by (rule reads3_Words)
  then show ?case using reads3_2[of "Words ws"] reads2_1[of "Words ws"] reads1_0[of "Words ws"] by simp
next
  case (Redirect a f m fd)
  then have "reads3 (Redirect a f m fd)" by (intro reads3_Redirect) simp_all
  then show ?case
    using reads3_2[of "Redirect a f m fd"] reads2_1[of "Redirect a f m fd"] reads1_0[of "Redirect a f m fd"] by simp
next
  case (Pipeline a c)
  then have "reads2 (Pipeline a c)" by (intro reads2_Pipeline) simp_all
  moreover have "firm (text_at 0 (Pipeline a c) @ [41])" using Pipeline.prems by (rule text_firm) (simp add: whitespace_def)
  ultimately show ?case
    using reads2_1[of "Pipeline a c"] reads1_0[of "Pipeline a c"] reads0_3[of "Pipeline a c"] by (simp add: paren_def)
next
  case (Sequence a c)
  then have "reads0 (Sequence a c)" by (intro reads0_Sequence) simp_all
  moreover have "firm (text_at 0 (Sequence a c) @ [41])" using Sequence.prems by (rule text_firm) (simp add: whitespace_def)
  ultimately show ?case
    using reads0_3[of "Sequence a c"] reads3_2[of "Sequence a c"] reads2_1[of "Sequence a c"] by (simp add: paren_def)
next
  case (Background a)
  then have "reads1 (Background a)" by (intro reads1_Background) simp_all
  moreover have "firm (text_at 0 (Background a) @ [41])" using Background.prems by (rule text_firm) (simp add: whitespace_def)
  ultimately show ?case
    using reads1_0[of "Background a"] reads0_3[of "Background a"] reads3_2[of "Background a"] by (simp add: paren_def)
qed

text \<open>C30. The parser reads back every command: for any tree of words, redirections, pipelines, sequences and background
  commands, the text of the tree in the shell's syntax is parsed without an error to a command that means that tree.\<close>

theorem parsecmd_reads_text:
  assumes "writable_ast t"
  shows "\<exists>c b'. parsecmd (text_at 0 t) = Some (Inr (c, b')) \<and> meaning (text_at 0 t) c = t"
proof -
  let ?b = "text_at 0 t"
  from assms have "reads0 t" using reads_all by blast
  then obtain n c where p: "parseline n ?b 0 = Some (Inr (c, length ?b))" "meaning ?b c = t"
    using reads0D[of t ?b "[]" "[]"] by (auto simp: follow_def)
  obtain r where r: "parseline (4 * length ?b + 4) ?b 0 = Some r" using parse_fuel[of ?b 0 "4 * length ?b + 4"] by auto
  have "r = Inr (c, length ?b)"
    using parse_more(1)[OF p(1), of "4 * length ?b + 4"] parse_more(1)[OF r, of n] by (simp add: add.commute)
  then show ?thesis using r p(2) by (auto simp: parsecmd_def)
qed

theorem parsecmd_reads_text_witness:
  "writable_ast (Sequence (Background (Pipeline (Words [[108, 115]]) (Words [[119, 99]]))) (Redirect (Words [[97]]) [102] SH_WRCREATE 1)) \<and>
   (\<exists>c b'. parsecmd [108, 115, 32, 124, 119, 99, 32, 38, 59, 97, 32, 62, 102, 32] = Some (Inr (c, b')) \<and>
      meaning [108, 115, 32, 124, 119, 99, 32, 38, 59, 97, 32, 62, 102, 32] c =
        Sequence (Background (Pipeline (Words [[108, 115]]) (Words [[119, 99]]))) (Redirect (Words [[97]]) [102] SH_WRCREATE 1))"
proof -
  let ?t = "Sequence (Background (Pipeline (Words [[108, 115]]) (Words [[119, 99]]))) (Redirect (Words [[97]]) [102] SH_WRCREATE 1)"
  have w: "writable_ast ?t" by (simp add: plain_def redir_ok_def whitespace_def symbols_def MAXARGS_def)
  have "text_at 0 ?t = [108, 115, 32, 124, 119, 99, 32, 38, 59, 97, 32, 62, 102, 32]"
    by (simp add: paren_def SH_WRCREATE_def SH_RDONLY_def)
  with parsecmd_reads_text[OF w] w show ?thesis by simp
qed

end
