(* ===== verification/Sh_Run.thy ===== *)
theory Sh_Run
  imports Sh
begin

text \<open>
  Execution of commands by the shell (\<^verbatim>\<open>runcmd\<close>, \<^verbatim>\<open>fork1\<close> and \<^verbatim>\<open>panic\<close> of \<^verbatim>\<open>sh.c\<close>).  A process is a tree of the system
  calls it makes, each with the continuation for every result; \<^verbatim>\<open>exit\<close> ends it.  The result of a call is the list of the
  integers it delivers: its return value and, for \<^verbatim>\<open>pipe\<close>, the two descriptors.
\<close>

section \<open>Processes of the shell\<close>

datatype sysreq =
    S_exec "u8 list" "u8 list list"
  | S_print nat string "u8 list list"
  | S_open "u8 list" nat
  | S_close nat
  | S_dup nat
  | S_pipe
  | S_fork
  | S_wait

datatype prog = Stop | Call sysreq "int list \<Rightarrow> prog"

definition sh_panic :: "string \<Rightarrow> prog" where
  "sh_panic msg = Call (S_print 2 (msg @ ''\<newline>'') []) (\<lambda>_. Stop)"

text \<open>\<^verbatim>\<open>fork1() == 0\<close> decides between the child and the parent.\<close>

definition fork1 :: "prog \<Rightarrow> prog \<Rightarrow> prog" where
  "fork1 child par =
     Call S_fork (\<lambda>r. if hd r = - 1 then sh_panic ''fork'' else if hd r = 0 then child else par)"

text \<open>The string at an index of the buffer.\<close>

definition str_at :: "u8 list \<Rightarrow> nat \<Rightarrow> u8 list" where
  "str_at b q = takeWhile (\<lambda>x. x \<noteq> 0) (drop q b)"

primrec runcmd :: "u8 list \<Rightarrow> cmd \<Rightarrow> prog" where
  "runcmd b (EXEC argv) =
     (case argv of
        [] \<Rightarrow> Stop
      | w # _ \<Rightarrow>
          Call (S_exec (str_at b (fst w)) (map (\<lambda>w. str_at b (fst w)) argv)) (\<lambda>_.
          Call (S_print 2 ''exec %s failed\<newline>'' [str_at b (fst w)]) (\<lambda>_. Stop)))"
| "runcmd b (REDIR c q eq mode fd) =
     Call (S_close fd) (\<lambda>_.
     Call (S_open (str_at b q) mode) (\<lambda>r.
     if hd r < 0 then Call (S_print 2 ''open %s failed\<newline>'' [str_at b q]) (\<lambda>_. Stop)
     else runcmd b c))"
| "runcmd b (LIST l r) = fork1 (runcmd b l) (Call S_wait (\<lambda>_. runcmd b r))"
| "runcmd b (PIPE l r) =
     Call S_pipe (\<lambda>p.
     if hd p < 0 then sh_panic ''pipe''
     else
       let p0 = nat (p ! 1); p1 = nat (p ! 2) in
       fork1
         (Call (S_close 1) (\<lambda>_. Call (S_dup p1) (\<lambda>_. Call (S_close p0) (\<lambda>_. Call (S_close p1) (\<lambda>_. runcmd b l)))))
         (fork1
           (Call (S_close 0) (\<lambda>_. Call (S_dup p0) (\<lambda>_. Call (S_close p0) (\<lambda>_. Call (S_close p1) (\<lambda>_. runcmd b r)))))
           (Call (S_close p0) (\<lambda>_. Call (S_close p1) (\<lambda>_. Call S_wait (\<lambda>_. Call S_wait (\<lambda>_. Stop)))))))"
| "runcmd b (BACK c) = fork1 (runcmd b c) Stop"

section \<open>Programs started and their descriptors\<close>

text \<open>What a descriptor refers to.  A pipe is named by the position of its creator in the tree of processes.\<close>

datatype resource = Terminal | OpenFile "u8 list" nat | ReadEnd "nat list" | WriteEnd "nat list"

type_synonym fdtab = "nat \<Rightarrow> resource option"

definition lowest :: "fdtab \<Rightarrow> nat" where
  "lowest t = (case find (\<lambda>i. t i = None) [0..<16] of None \<Rightarrow> 16 | Some i \<Rightarrow> i)"

text \<open>The programs a process and its children start, each with the descriptors it starts with, if no call fails.  \<open>who\<close>
  names the process; a child and its parent get new names at each fork, and a process one at each pipe.\<close>

primrec execs :: "prog \<Rightarrow> fdtab \<Rightarrow> nat list \<Rightarrow> (u8 list list \<times> fdtab) list" where
  "execs Stop t who = []"
| "execs (Call req k) t who =
     (case req of
        S_exec path argv \<Rightarrow> [(argv, t)]
      | S_print fd msg args \<Rightarrow> execs (k [0]) t who
      | S_open f mode \<Rightarrow> execs (k [int (lowest t)]) (t(lowest t := Some (OpenFile f mode))) who
      | S_close fd \<Rightarrow> execs (k [0]) (t(fd := None)) who
      | S_dup fd \<Rightarrow> execs (k [int (lowest t)]) (t(lowest t := t fd)) who
      | S_pipe \<Rightarrow>
          let p0 = lowest t; t1 = t(p0 := Some (ReadEnd who)); p1 = lowest t1 in
          execs (k [0, int p0, int p1]) (t1(p1 := Some (WriteEnd who))) (2 # who)
      | S_fork \<Rightarrow> execs (k [0]) t (0 # who) @ execs (k [1]) t (1 # who)
      | S_wait \<Rightarrow> execs (k [1]) t who)"

text \<open>The intended meaning of a command: redirections change one descriptor, the two sides of a pipe have its ends as
  output and input, and all else is inherited.\<close>

primrec starts :: "u8 list \<Rightarrow> cmd \<Rightarrow> fdtab \<Rightarrow> nat list \<Rightarrow> (u8 list list \<times> fdtab) list" where
  "starts b (EXEC argv) t who = (if argv = [] then [] else [(map (\<lambda>w. str_at b (fst w)) argv, t)])"
| "starts b (REDIR c q eq mode fd) t who = starts b c (t(fd := Some (OpenFile (str_at b q) mode))) who"
| "starts b (LIST l r) t who = starts b l t (0 # who) @ starts b r t (1 # who)"
| "starts b (PIPE l r) t who =
     starts b l (t(1 := Some (WriteEnd who))) (0 # 2 # who) @ starts b r (t(0 := Some (ReadEnd who))) (0 # 1 # 2 # who)"
| "starts b (BACK c) t who = starts b c t (0 # who)"

text \<open>The descriptors 0, 1 and 2 are open and no other; redirections are of descriptors 0 and 1.\<close>

definition std_fds :: "fdtab \<Rightarrow> bool" where
  "std_fds t \<longleftrightarrow> (\<forall>i. t i = None \<longleftrightarrow> 3 \<le> i)"

primrec redirs_std :: "cmd \<Rightarrow> bool" where
  "redirs_std (EXEC argv) \<longleftrightarrow> True"
| "redirs_std (REDIR c q eq mode fd) \<longleftrightarrow> fd < 3 \<and> redirs_std c"
| "redirs_std (LIST l r) \<longleftrightarrow> redirs_std l \<and> redirs_std r"
| "redirs_std (PIPE l r) \<longleftrightarrow> redirs_std l \<and> redirs_std r"
| "redirs_std (BACK c) \<longleftrightarrow> redirs_std c"

lemma lowest_eq:
  assumes "i < 16" and "t i = None" and "\<And>j. j < i \<Longrightarrow> t j = None \<Longrightarrow> False"
  shows "lowest t = i"
proof -
  have "find (\<lambda>i. t i = None) [0..<16] = Some i"
    unfolding find_Some_iff using assms by (intro exI[of _ i]) (auto simp del: not_None_eq)
  then show ?thesis by (simp add: lowest_def)
qed

lemma execs_fork1: "execs (fork1 c p) t who = execs c t (0 # who) @ execs p t (1 # who)"
  by (simp add: fork1_def)

lemma execs_runcmd: "std_fds t \<Longrightarrow> redirs_std c \<Longrightarrow> execs (runcmd b c) t who = starts b c t who"
proof (induction c arbitrary: t who)
  case (EXEC argv)
  then show ?case by (cases argv) simp_all
next
  case (REDIR c q eq mode fd)
  have "lowest (t(fd := None)) = fd" using REDIR.prems by (intro lowest_eq) (auto simp: std_fds_def)
  moreover have "std_fds (t(fd := Some (OpenFile (str_at b q) mode)))" using REDIR.prems by (auto simp: std_fds_def)
  ultimately show ?case using REDIR by simp
next
  case (PIPE l r)
  let ?t1 = "t(3 := Some (ReadEnd who))"
  let ?t2 = "?t1(4 := Some (WriteEnd who))"
  have p: "lowest t = 3" "lowest ?t1 = 4" using PIPE.prems by (auto intro!: lowest_eq simp: std_fds_def split: if_splits)
  have d: "lowest (?t2(1 := None)) = 1" "lowest (?t2(0 := None)) = 0"
    using PIPE.prems by (auto intro!: lowest_eq simp: std_fds_def split: if_splits)
  have n: "t 3 = None" "t 4 = None" using PIPE.prems by (simp_all add: std_fds_def)
  have l: "?t2(1 := Some (WriteEnd who), 3 := None, 4 := None) = t(1 := Some (WriteEnd who))"
    and r: "?t2(0 := Some (ReadEnd who), 3 := None, 4 := None) = t(0 := Some (ReadEnd who))"
    using n by (auto simp: fun_eq_iff)
  have s: "std_fds (t(1 := Some (WriteEnd who)))" "std_fds (t(0 := Some (ReadEnd who)))"
    using PIPE.prems by (auto simp: std_fds_def)
  have "execs (runcmd b l) (t(1 := Some (WriteEnd who))) (0 # 2 # who) = starts b l (t(1 := Some (WriteEnd who))) (0 # 2 # who)"
    using PIPE.prems(2) by (intro PIPE.IH(1) s(1)) simp
  moreover have "execs (runcmd b r) (t(0 := Some (ReadEnd who))) (0 # 1 # 2 # who) = starts b r (t(0 := Some (ReadEnd who))) (0 # 1 # 2 # who)"
    using PIPE.prems(2) by (intro PIPE.IH(2) s(2)) simp
  ultimately show ?case using p d l r by (simp add: execs_fork1 Let_def)
next
  case (LIST l r)
  then show ?case by (simp add: execs_fork1)
next
  case (BACK c)
  then show ?case by (simp add: execs_fork1)
qed

section \<open>Redirections of the parser\<close>

lemma redirs_std_redircmds: "redirs_std (redircmds c rs) \<longleftrightarrow> redirs_std c \<and> (\<forall>r \<in> set rs. snd (snd (snd r)) < 3)"
  by (induction rs arbitrary: c) (auto simp: redircmds_def)

lemma parseredirs_std: "parseredirs b ps = Inr (rs, ps') \<Longrightarrow> \<forall>r \<in> set rs. snd (snd (snd r)) < 3"
proof (induction b ps arbitrary: rs ps' rule: parseredirs.induct)
  case (1 b ps)
  obtain tok q0 e0 ps1 where g1: "gettoken b ps = (tok, q0, e0, ps1)" by (metis prod_cases4)
  obtain tok2 q2 eq2 ps2 where g2: "gettoken b ps1 = (tok2, q2, eq2, ps2)" by (metis prod_cases4)
  show ?case
  proof (cases "peek b ps [60, 62]")
    case True
    with 1(2) g1 g2 have t: "tok2 = 97" by (auto simp: parseredirs.simps[of b ps] split: if_splits)
    with 1(2) True g1 g2 obtain rs' where r: "parseredirs b ps2 = Inr (rs', ps')"
        "rs = (q2, eq2, if tok = 60 then (SH_RDONLY, 0) else (SH_WRCREATE, 1)) # rs'"
      by (auto simp: parseredirs.simps[of b ps] split: sum.splits)
    then show ?thesis using 1(1)[OF True g1[symmetric] refl refl refl g2[symmetric] refl refl refl] t by auto
  next
    case False
    then show ?thesis using 1(2) by (simp add: parseredirs.simps[of b ps])
  qed
qed

lemma parseargs_std:
  "parseargs b ps argv rs = Inr (c, ps') \<Longrightarrow> \<forall>r \<in> set rs. snd (snd (snd r)) < 3 \<Longrightarrow> redirs_std c"
proof (induction b ps argv rs rule: parseargs.induct)
  case (1 b ps argv rs)
  obtain tok q eq ps1 where g: "gettoken b ps = (tok, q, eq, ps1)" by (metis prod_cases4)
  show ?case
  proof (cases "peek b ps [124, 41, 38, 59] \<or> tok = 0")
    case True
    then have "c = redircmds (EXEC argv) rs" using 1(2) g by (auto simp: parseargs.simps[of b ps] split: if_splits)
    then show ?thesis using 1(3) by (simp add: redirs_std_redircmds)
  next
    case False
    with 1(2) g have t: "tok = 97" "\<not> MAXARGS \<le> Suc (length argv)" by (auto simp: parseargs.simps[of b ps] split: if_splits)
    with 1(2) g False obtain rs' ps2 where r: "parseredirs b ps1 = Inr (rs', ps2)"
        "parseargs b ps2 (argv @ [(q, eq)]) (rs @ rs') = Inr (c, ps')"
      by (auto simp: parseargs.simps[of b ps] split: if_splits sum.splits)
    have "\<forall>r \<in> set (rs @ rs'). snd (snd (snd r)) < 3" using 1(3) parseredirs_std[OF r(1)] by auto
    then show ?thesis using 1(1)[OF _ g[symmetric] refl refl refl _ _ _ r(1) refl r(2)] t False by simp
  qed
qed

lemma parsebacks_std: "parsebacks b c ps = (c', ps') \<Longrightarrow> redirs_std c' = redirs_std c"
proof (induction b c ps rule: parsebacks.induct)
  case (1 b c ps)
  then show ?case by (auto simp: parsebacks.simps[of b c ps] split: if_splits)
qed

lemma parse_std:
  "(parseline n b ps = Some (Inr (c, ps')) \<longrightarrow> redirs_std c) \<and> (parsepipe n b ps = Some (Inr (c, ps')) \<longrightarrow> redirs_std c) \<and>
   (parseexec n b ps = Some (Inr (c, ps')) \<longrightarrow> redirs_std c) \<and> (parseblock n b ps = Some (Inr (c, ps')) \<longrightarrow> redirs_std c)"
proof (induction n arbitrary: ps c ps')
  case (Suc n)
  have "redirs_std c" if "parseline (Suc n) b ps = Some (Inr (c, ps'))"
    using that Suc parsebacks_std[of b]
    by (fastforce simp: parseline.simps split: option.splits sum.splits prod.splits if_splits)
  moreover have "redirs_std c" if "parsepipe (Suc n) b ps = Some (Inr (c, ps'))"
    using that Suc by (fastforce simp: parsepipe.simps split: option.splits sum.splits if_splits)
  moreover have "redirs_std c" if "parseexec (Suc n) b ps = Some (Inr (c, ps'))"
    using that Suc parseargs_std[of b] parseredirs_std[of b]
    by (fastforce simp: parseexec.simps split: sum.splits if_splits)
  moreover have "redirs_std c" if "parseblock (Suc n) b ps = Some (Inr (c, ps'))"
  proof -
    from that obtain c1 ps1 rs where "parseline n b (token_end b ps) = Some (Inr (c1, ps1))"
        "parseredirs b (token_end b ps1) = Inr (rs, ps')" "c = redircmds c1 rs"
      by (auto simp: parseblock.simps split: option.splits sum.splits if_splits)
    then show ?thesis using Suc parseredirs_std[of b "token_end b ps1" rs ps'] by (auto simp: redirs_std_redircmds)
  qed
  ultimately show ?case by blast
qed simp

text \<open>C31. The shell connects programs as the command says: if no call fails, the programs a parsed line starts, in order, and
  the descriptors each of them starts with are those of the command's meaning.  Each side of a pipe gets exactly its end
  of the pipe and no other, and no descriptor above 2 is left open.\<close>

theorem runcmd_connects:
  assumes "parsecmd b = Some (Inr (c, b'))" and "std_fds t"
  shows "execs (runcmd b' c) t who = starts b' c t who"
proof -
  from assms(1) obtain ps where "parseline (4 * length b + 4) b 0 = Some (Inr (c, ps))"
    by (auto simp: parsecmd_def split: option.splits sum.splits if_splits)
  then have "redirs_std c" using parse_std by blast
  with assms(2) show ?thesis by (rule execs_runcmd)
qed

theorem runcmd_connects_witness:
  "parsecmd [108, 124, 119] = Some (Inr (PIPE (EXEC [(0, 1)]) (EXEC [(2, 3)]), [108, 0, 119, 0])) \<and>
   std_fds (\<lambda>i. if i < 3 then Some Terminal else None) \<and>
   execs (runcmd [108, 0, 119, 0] (PIPE (EXEC [(0, 1)]) (EXEC [(2, 3)]))) (\<lambda>i. if i < 3 then Some Terminal else None) [] =
     [([[108]], (\<lambda>i. if i < 3 then Some Terminal else None)(1 := Some (WriteEnd []))),
      ([[119]], (\<lambda>i. if i < 3 then Some Terminal else None)(0 := Some (ReadEnd [])))]"
proof -
  have p: "parsecmd [108, 124, 119] = Some (Inr (PIPE (EXEC [(0, 1)]) (EXEC [(2, 3)]), [108, 0, 119, 0]))"
    by code_simp
  have t: "std_fds (\<lambda>i. if i < 3 then Some Terminal else None)" by (auto simp: std_fds_def)
  show ?thesis using runcmd_connects[OF p t, of "[]"] p t by (simp add: str_at_def)
qed

end
