(* ===== verification/Grep.thy ===== *)
theory Grep
  imports CString
begin

text \<open>
  \<^verbatim>\<open>grep.c\<close>: the pattern matcher and the loop over the input.  Patterns and texts are the bytes of their strings without
  the terminating zero.  The input is the list of the blocks that \<^verbatim>\<open>read\<close> delivers.
\<close>

section \<open>Matching\<close>

function matchhere :: "u8 list \<Rightarrow> u8 list \<Rightarrow> bool"
  and matchstar :: "u8 \<Rightarrow> u8 list \<Rightarrow> u8 list \<Rightarrow> bool" where
  "matchhere [] text = True"
| "matchhere (c # re) text =
     (if re \<noteq> [] \<and> hd re = 42 then matchstar c (tl re) text
      else if c = 36 \<and> re = [] then text = []
      else if text \<noteq> [] \<and> (c = 46 \<or> c = hd text) then matchhere re (tl text)
      else False)"
| "matchstar c re text =
     (if matchhere re text then True
      else if text \<noteq> [] \<and> (hd text = c \<or> c = 46) then matchstar c re (tl text)
      else False)"
  by pat_completeness auto
termination
  by (relation "measure (\<lambda>x. case x of Inl (re, t) \<Rightarrow> 2 * (length re + length t) | Inr (c, re, t) \<Rightarrow> 2 * (length re + length t) + 1)")
    auto

declare matchhere.simps(2) [simp del] matchstar.simps [simp del]

text \<open>The loop of \<^verbatim>\<open>match\<close>, which looks at the empty rest as well.\<close>

fun match_from :: "u8 list \<Rightarrow> u8 list \<Rightarrow> bool" where
  "match_from re [] = matchhere re []"
| "match_from re (x # text) = (matchhere re (x # text) \<or> match_from re text)"

definition match :: "u8 list \<Rightarrow> u8 list \<Rightarrow> bool" where
  "match re text = (if re \<noteq> [] \<and> hd re = 94 then matchhere (tl re) text else match_from re text)"

section \<open>Input\<close>

text \<open>The bytes before the first newline and those behind it, if there is a newline before the first zero.\<close>

fun cut_line :: "u8 list \<Rightarrow> (u8 list \<times> u8 list) option" where
  "cut_line [] = None"
| "cut_line (x # xs) =
     (if x = 0 then None
      else if x = 10 then Some ([], xs)
      else map_option (\<lambda>(l, r). (x # l, r)) (cut_line xs))"

lemma cut_line_shorter: "cut_line xs = Some (l, r) \<Longrightarrow> length r < length xs"
  by (induction xs arbitrary: l) (fastforce split: if_splits)+

text \<open>The inner loop: the bytes written and the bytes from \<^verbatim>\<open>p\<close> on that are left.\<close>

function grep_lines :: "u8 list \<Rightarrow> u8 list \<Rightarrow> u8 list \<times> u8 list" where
  "grep_lines re p =
     (case cut_line p of
        None \<Rightarrow> ([], p)
      | Some (l, r) \<Rightarrow>
          let (out, rest) = grep_lines re r in ((if match re l then l @ [10] else []) @ out, rest))"
  by pat_completeness auto
termination by (relation "measure (\<lambda>(re, p). length p)") (auto dest: cut_line_shorter)

declare grep_lines.simps [simp del]

text \<open>The outer loop, with \<open>carry\<close> the first \<^verbatim>\<open>m\<close> bytes of \<^verbatim>\<open>buf\<close>: what is written to descriptor 1.\<close>

fun grep :: "u8 list \<Rightarrow> u8 list \<Rightarrow> u8 list list \<Rightarrow> u8 list" where
  "grep re carry [] = []"
| "grep re carry (chunk # chunks) =
     (let (out, rest) = grep_lines re (carry @ chunk) in
      out @ grep re (if length rest = length (carry @ chunk) then [] else rest) chunks)"

section \<open>Meaning of patterns\<close>

text \<open>A pattern as a sequence of pieces: a character or the dot, once or any number of times, and the end of the text.\<close>

datatype atom = Lit u8 | AnyChar
datatype piece = One atom | Many atom | EndOfText

definition atom_of :: "u8 \<Rightarrow> atom" where
  "atom_of c = (if c = 46 then AnyChar else Lit c)"

fun accepts :: "atom \<Rightarrow> u8 \<Rightarrow> bool" where
  "accepts (Lit c) x \<longleftrightarrow> c = x"
| "accepts AnyChar x \<longleftrightarrow> True"

function pieces :: "u8 list \<Rightarrow> piece list" where
  "pieces [] = []"
| "pieces (c # re) =
     (if re \<noteq> [] \<and> hd re = 42 then Many (atom_of c) # pieces (tl re)
      else if c = 36 \<and> re = [] then [EndOfText]
      else One (atom_of c) # pieces re)"
  by pat_completeness auto
termination by (relation "measure length") auto

declare pieces.simps(2) [simp del]

text \<open>The texts that begin with a match.\<close>

inductive begins :: "piece list \<Rightarrow> u8 list \<Rightarrow> bool" where
  begins_nil: "begins [] t"
| begins_one: "accepts a x \<Longrightarrow> begins ps t \<Longrightarrow> begins (One a # ps) (x # t)"
| begins_many: "\<forall>x \<in> set xs. accepts a x \<Longrightarrow> begins ps t \<Longrightarrow> begins (Many a # ps) (xs @ t)"
| begins_end: "begins [EndOfText] []"

inductive_cases begins_oneE: "begins (One a # ps) t"
inductive_cases begins_manyE: "begins (Many a # ps) t"
inductive_cases begins_endE: "begins (EndOfText # ps) t"

lemma accepts_atom_of: "accepts (atom_of c) x \<longleftrightarrow> c = 46 \<or> c = x"
  by (simp add: atom_of_def)

lemma begins_many_step:
  "begins (Many a # ps) t \<longleftrightarrow> begins ps t \<or> t \<noteq> [] \<and> accepts a (hd t) \<and> begins (Many a # ps) (tl t)"
proof
  assume "begins (Many a # ps) t"
  then obtain xs u where t: "t = xs @ u" "\<forall>x \<in> set xs. accepts a x" "begins ps u" by (rule begins_manyE)
  then show "begins ps t \<or> t \<noteq> [] \<and> accepts a (hd t) \<and> begins (Many a # ps) (tl t)"
    by (cases xs) (auto intro: begins_many)
next
  assume r: "begins ps t \<or> t \<noteq> [] \<and> accepts a (hd t) \<and> begins (Many a # ps) (tl t)"
  show "begins (Many a # ps) t"
  proof (cases "begins ps t")
    case True
    then show ?thesis using begins_many[of "[]" a ps t] by simp
  next
    case False
    with r obtain xs u where "t \<noteq> []" "accepts a (hd t)" "tl t = xs @ u" "\<forall>x \<in> set xs. accepts a x" "begins ps u"
      by (auto elim: begins_manyE)
    then show ?thesis using begins_many[of "hd t # xs" a ps u] by (cases t) auto
  qed
qed

lemma matchhere_begins:
  "matchhere re t \<longleftrightarrow> begins (pieces re) t"
  "matchstar c re t \<longleftrightarrow> begins (Many (atom_of c) # pieces re) t"
proof (induction re t and c re t rule: matchhere_matchstar.induct)
  case (1 t)
  then show ?case by (simp add: begins_nil)
next
  case (2 c re t)
  show ?case
  proof (cases "re \<noteq> [] \<and> hd re = 42")
    case True
    then show ?thesis using 2(1) by (simp add: matchhere.simps(2) pieces.simps(2))
  next
    case False
    note ns = False
    show ?thesis
    proof (cases "c = 36 \<and> re = []")
      case True
      then show ?thesis by (auto simp: matchhere.simps(2) pieces.simps(2) intro: begins_end elim: begins_endE)
    next
      case False
      then show ?thesis using ns 2(2)[OF ns False]
        by (cases t) (auto simp: matchhere.simps(2) pieces.simps(2) accepts_atom_of intro: begins_one elim: begins_oneE)
    qed
  qed
next
  case (3 c re t)
  then show ?case
    by (subst matchstar.simps, subst begins_many_step) (auto simp: accepts_atom_of)
qed

lemma match_from_suffix: "match_from re t \<longleftrightarrow> (\<exists>a b. t = a @ b \<and> matchhere re b)"
proof (induction t)
  case (Cons x t)
  have "(\<exists>a b. x # t = a @ b \<and> matchhere re b) \<longleftrightarrow> matchhere re (x # t) \<or> (\<exists>a b. t = a @ b \<and> matchhere re b)"
    by (metis Cons_eq_append_conv)
  then show ?case using Cons by simp
qed simp

text \<open>C32. \<^verbatim>\<open>match\<close> decides what the pattern means: with a leading caret the text must begin with a match of the rest of the
  pattern, without one some suffix of the text must begin with a match.\<close>

theorem match_correct:
  "match re text \<longleftrightarrow>
     (if re \<noteq> [] \<and> hd re = 94 then begins (pieces (tl re)) text
      else (\<exists>a b. text = a @ b \<and> begins (pieces re) b))"
  by (simp add: match_def match_from_suffix matchhere_begins)

section \<open>Lines\<close>

text \<open>The complete lines of an input, without their newlines.\<close>

fun lines_acc :: "u8 list \<Rightarrow> u8 list \<Rightarrow> u8 list list \<times> u8 list" where
  "lines_acc acc [] = ([], acc)"
| "lines_acc acc (x # xs) =
     (if x = 10 then let (ls, r) = lines_acc [] xs in (acc # ls, r) else lines_acc (acc @ [x]) xs)"

definition full_lines :: "u8 list \<Rightarrow> u8 list list" where
  "full_lines xs = fst (lines_acc [] xs)"

definition matching :: "u8 list \<Rightarrow> u8 list list \<Rightarrow> u8 list" where
  "matching re ls = concat (map (\<lambda>l. l @ [10]) (filter (match re) ls))"

lemma lines_acc_append:
  "lines_acc acc (xs @ ys) = (fst (lines_acc acc xs) @ fst (lines_acc (snd (lines_acc acc xs)) ys), snd (lines_acc (snd (lines_acc acc xs)) ys))"
  by (induction acc xs rule: lines_acc.induct) (auto simp: Let_def case_prod_beta)

lemma lines_acc_cut:
  "0 \<notin> set xs \<Longrightarrow> lines_acc acc xs =
     (case cut_line xs of None \<Rightarrow> ([], acc @ xs) | Some (l, r) \<Rightarrow> ((acc @ l) # fst (lines_acc [] r), snd (lines_acc [] r)))"
  by (induction acc xs rule: lines_acc.induct) (auto simp: Let_def case_prod_beta split: option.splits)

lemma cut_line_set: "cut_line xs = Some (l, r) \<Longrightarrow> set r \<subseteq> set xs"
  by (induction xs arbitrary: l) (fastforce split: if_splits)+

lemma grep_lines_spec:
  "0 \<notin> set p \<Longrightarrow> grep_lines re p = (matching re (fst (lines_acc [] p)), snd (lines_acc [] p))"
proof (induction re p rule: grep_lines.induct)
  case (1 re p)
  show ?case
  proof (cases "cut_line p")
    case None
    then show ?thesis using 1(2) by (simp add: grep_lines.simps lines_acc_cut[OF 1(2)] matching_def)
  next
    case (Some lr)
    obtain l r where lr: "lr = (l, r)" by (cases lr)
    have "0 \<notin> set r" using cut_line_set[of p l r] Some lr 1(2) by auto
    then have "grep_lines re r = (matching re (fst (lines_acc [] r)), snd (lines_acc [] r))" using 1(1) Some lr by auto
    then show ?thesis using Some lr by (simp add: grep_lines.simps[of re p] lines_acc_cut[OF 1(2)] matching_def)
  qed
qed

lemma lines_acc_left: "10 \<in> set xs \<Longrightarrow> length (snd (lines_acc acc xs)) < length acc + length xs"
proof (induction acc xs rule: lines_acc.induct)
  case (2 acc x xs)
  have le: "length (snd (lines_acc a ys)) \<le> length a + length ys" for a ys
    by (induction a ys rule: lines_acc.induct) (auto simp: Let_def case_prod_beta)
  show ?case using 2 le[of "[]" xs] by (auto simp: Let_def case_prod_beta)
qed simp

lemma lines_acc_rest:
  "10 \<notin> set acc \<Longrightarrow> 10 \<notin> set (snd (lines_acc acc xs)) \<and> set (snd (lines_acc acc xs)) \<subseteq> set acc \<union> set xs"
proof (induction acc xs rule: lines_acc.induct)
  case (2 acc x xs)
  show ?case
  proof (cases "x = 10")
    case True
    then show ?thesis using 2(1)[OF True] by (auto simp: Let_def case_prod_beta)
  next
    case False
    then show ?thesis using 2(2)[OF False] 2(3) by auto
  qed
qed simp

lemma lines_acc_none: "10 \<notin> set xs \<Longrightarrow> lines_acc acc xs = ([], acc @ xs)"
  by (induction xs arbitrary: acc) auto

lemma grep_spec:
  assumes "\<forall>c \<in> set chunks. 10 \<in> set c \<and> 0 \<notin> set c"
  shows "10 \<notin> set carry \<Longrightarrow> 0 \<notin> set carry \<Longrightarrow> grep re carry chunks = matching re (fst (lines_acc carry (concat chunks)))"
  using assms
proof (induction chunks arbitrary: carry)
  case (Cons c cs)
  let ?r = "snd (lines_acc carry c)"
  have e: "lines_acc [] (carry @ c) = lines_acc carry c" using Cons.prems(1) by (simp add: lines_acc_append lines_acc_none)
  have "length ?r < length carry + length c" using Cons.prems(3) by (intro lines_acc_left) simp
  moreover have r: "10 \<notin> set ?r" "0 \<notin> set ?r" using lines_acc_rest[of carry c] Cons.prems by auto
  moreover have "grep_lines re (carry @ c) = (matching re (fst (lines_acc carry c)), ?r)"
    using grep_lines_spec[of "carry @ c" re] Cons.prems e by simp
  ultimately show ?case using Cons by (simp add: lines_acc_append matching_def)
qed (simp add: matching_def)

text \<open>C33. \<^verbatim>\<open>grep\<close> writes the complete lines of its input that match, in order and with their newlines, wherever the blocks
  of the input are cut, as long as each block that is read contains the end of a line.\<close>

theorem grep_prints_matching:
  assumes "\<forall>c \<in> set chunks. 10 \<in> set c \<and> 0 \<notin> set c"
  shows "grep re [] chunks = matching re (full_lines (concat chunks))"
  using grep_spec[OF assms, of "[]"] by (simp add: full_lines_def)

theorem grep_prints_matching_witness:
  "grep [94, 97, 46] [] [[97, 98, 10, 97], [99, 10, 100, 10]] = [97, 98, 10, 97, 99, 10]"
proof -
  have "grep [94, 97, 46] [] [[97, 98, 10, 97], [99, 10, 100, 10]] =
      matching [94, 97, 46] (full_lines (concat [[97, 98, 10, 97], [99, 10, 100, 10]]))"
    by (rule grep_prints_matching) simp
  then show ?thesis by (simp add: matching_def full_lines_def match_def matchhere.simps(2))
qed

end
