(* ===== verification/Spec2Isabelle.thy ===== *)
theory Spec2Isabelle
  imports Log_Crash Scheduler Kernel_Inv Segments Sh_Print Sh_Run Grep
begin

text \<open>
  A verification development for the xv6 kernel with the modified scheduler under \<^verbatim>\<open>src/\<close>.
\<close>

end
